(* ===== verification/Prelude.thy ===== *)
theory Prelude
  imports Main "HOL-Library.Word" "HOL-Library.Char_ord" "HOL-Library.List_Lexorder"
begin

text \<open>
  What every part of the model shares: the machine integer types, the ways a C++ operation
  can fail, the sum-typed sequencing of fallible operations, the character and string
  functions of the C++ standard library the sources call, and the decimal printing of
  integers by a stream.  The lemma collections at the end carry the component proofs.
\<close>

section \<open>Collections\<close>

text \<open>Elimination rules: what is known when an operation on an object has succeeded.\<close>

named_theorems inversion

section \<open>Machine integers\<close>

type_synonym u32 = "32 word"
type_synonym u64 = "64 word"

lemma sint_u32: "sint (w :: u32) = (if uint w < 2 ^ 31 then uint w else uint w - 2 ^ 32)"
proof -
  have lt: "uint w < 2 ^ 32" "0 \<le> uint w" using uint_lt2p [of w] by simp_all
  have "sint w = signed_take_bit 31 (uint w)" by (simp add: sint_uint)
  also have "\<dots> = take_bit 32 (uint w) - 2 ^ 32 * of_bool (bit (uint w) 31)"
    by (simp add: signed_take_bit_eq_take_bit_minus)
  also have "take_bit 32 (uint w) = uint w" using lt by (simp add: take_bit_int_eq_self)
  also have "bit (uint w) 31 \<longleftrightarrow> \<not> uint w < 2 ^ 31"
  proof (cases "uint w < 2 ^ 31")
    case True
    then have "uint w div 2 ^ 31 = 0" using lt by (intro div_pos_pos_trivial) simp_all
    with True show ?thesis by (simp add: bit_iff_odd)
  next
    case False
    have "uint w div 2 ^ 31 = (uint w - 2 ^ 31) div 2 ^ 31 + 1"
      using div_add_self2 [of "2 ^ 31" "uint w - 2 ^ 31"] by simp
    also have "(uint w - 2 ^ 31) div 2 ^ 31 = 0"
      using lt False by (intro div_pos_pos_trivial) simp_all
    finally show ?thesis using False by (simp add: bit_iff_odd)
  qed
  finally show ?thesis by simp
qed

section \<open>Failures\<close>

text \<open>
  A C++ exception is either derived from \<open>std::exception\<close> (with its \<open>what()\<close> text) or it
  is not; the handlers \<open>catch(std::exception&)\<close> of the sources tell the two apart.
\<close>

datatype exc = Std_exception string | Other_exception

text \<open>
  The ways an operation may end without returning: a failed \<open>ATPDXY_ASSERT\<close>, the
  dereference of a null pointer, a thread that waits for a lock it holds itself, a read of
  a value the standard leaves indeterminate, and a thrown exception.
\<close>

datatype fault =
    Assertion string
  | Null_deref
  | Self_deadlock
  | Indeterminate
  | Throws exc

definition rbind :: "'e + 'a \<Rightarrow> ('a \<Rightarrow> 'e + 'b) \<Rightarrow> 'e + 'b" where
  "rbind r f = (case r of Inl e \<Rightarrow> Inl e | Inr x \<Rightarrow> f x)"

lemma rbind_simps [simp]:
  "rbind (Inl e) f = Inl e"
  "rbind (Inr x) f = f x"
  by (simp_all add: rbind_def)

lemma rbind_eq_Inr [simp]: "rbind r f = Inr y \<longleftrightarrow> (\<exists>x. r = Inr x \<and> f x = Inr y)"
  by (cases r) auto

lemma rbind_eq_Inl: "rbind r f = Inl e \<longleftrightarrow> r = Inl e \<or> (\<exists>x. r = Inr x \<and> f x = Inl e)"
  by (cases r) auto

lemma rbind_cong [fundef_cong]:
  "r = r' \<Longrightarrow> (\<And>x. r' = Inr x \<Longrightarrow> f x = g x) \<Longrightarrow> rbind r f = rbind r' g"
  by (cases r') auto

definition is_ok :: "'e + 'a \<Rightarrow> bool" where
  "is_ok r = (case r of Inl _ \<Rightarrow> False | Inr _ \<Rightarrow> True)"

lemma is_ok_simps [simp]: "\<not> is_ok (Inl e)" "is_ok (Inr x)"
  by (simp_all add: is_ok_def)

lemma is_okE: "is_ok r \<Longrightarrow> (\<And>x. r = Inr x \<Longrightarrow> P) \<Longrightarrow> P"
  by (cases r) auto

text \<open>A loop over a container whose body may fail: it stops at the first failure.\<close>

fun rfold :: "('a \<Rightarrow> 's \<Rightarrow> 'e + 's) \<Rightarrow> 'a list \<Rightarrow> 's \<Rightarrow> 'e + 's" where
  "rfold f [] s = Inr s"
| "rfold f (x # xs) s = rbind (f x s) (rfold f xs)"

lemma rfold_append: "rfold f (xs @ ys) s = rbind (rfold f xs s) (rfold f ys)"
  by (induction xs arbitrary: s) (auto simp: rbind_def split: sum.splits)

lemma rfold_invariant:
  assumes "rfold f xs s = Inr t" and "P s"
    and "\<And>x s t. x \<in> set xs \<Longrightarrow> P s \<Longrightarrow> f x s = Inr t \<Longrightarrow> P t"
  shows "P t"
  using assms by (induction xs arbitrary: s) auto

lemma rfold_total:
  assumes "P s" and "\<And>x s. x \<in> set xs \<Longrightarrow> P s \<Longrightarrow> \<exists>t. f x s = Inr t \<and> P t"
  shows "\<exists>t. rfold f xs s = Inr t \<and> P t"
  using assms
proof (induction xs arbitrary: s)
  case Nil
  then show ?case by simp
next
  case (Cons x xs)
  then obtain t where t: "f x s = Inr t" "P t" by (meson list.set_intros(1))
  then have "\<exists>u. rfold f xs t = Inr u \<and> P u" using Cons by (meson list.set_intros(2))
  with t show ?case by simp
qed

text \<open>
  The contract of an operation that is repeated: it keeps a property of the state whenever it
  succeeds.
\<close>

locale keeps =
  fixes body :: "'a \<Rightarrow> 's \<Rightarrow> 'e + 's" and inv :: "'s \<Rightarrow> bool"
  assumes body_keeps: "inv s \<Longrightarrow> body x s = Inr t \<Longrightarrow> inv t"
begin

lemma loop_keeps: "rfold body xs s = Inr t \<Longrightarrow> inv s \<Longrightarrow> inv t"
  by (rule rfold_invariant) (auto intro: body_keeps)

end

text \<open>A list of events of which each is allowed in the state it happens in.\<close>

fun permitted :: "('a \<Rightarrow> 's \<Rightarrow> bool) \<Rightarrow> ('a \<Rightarrow> 's \<Rightarrow> 'e + 's) \<Rightarrow> 'a list \<Rightarrow> 's \<Rightarrow> bool" where
  "permitted allowed step [] s = True"
| "permitted allowed step (x # xs) s =
     (allowed x s \<and> (case step x s of Inl e \<Rightarrow> True | Inr t \<Rightarrow> permitted allowed step xs t))"

lemma permitted_static: "(\<forall>act\<in>set acts. \<forall>s. allowed act s) \<Longrightarrow> permitted allowed step acts s"
  by (induction acts arbitrary: s) (auto split: sum.split)

text \<open>Allowed events succeed and keep a property of the state.\<close>

locale safe_steps =
  fixes step :: "'a \<Rightarrow> 's \<Rightarrow> 'e + 's" and allowed :: "'a \<Rightarrow> 's \<Rightarrow> bool" and inv :: "'s \<Rightarrow> bool"
  assumes step_safe: "inv s \<Longrightarrow> allowed x s \<Longrightarrow> \<exists>t. step x s = Inr t \<and> inv t"
begin

lemma run_safe: "permitted allowed step xs s \<Longrightarrow> inv s \<Longrightarrow> \<exists>t. rfold step xs s = Inr t \<and> inv t"
proof (induction xs arbitrary: s)
  case (Cons x xs)
  then obtain t where "step x s = Inr t" "inv t" using step_safe [of s x] by auto
  then show ?case using Cons by simp
qed simp

end

text \<open>
  Steps of several parties in a fair order: in a state that is not yet good one of the parties helps, its steps bring it
  nearer to a step that makes the state smaller, and the steps of the others do no harm.
\<close>

locale fair_steps =
  fixes step :: "'a \<Rightarrow> 's \<Rightarrow> 'e + 's" and inv good :: "'s \<Rightarrow> bool" and big :: "'s \<Rightarrow> nat \<times> nat"
    and helper :: "'s \<Rightarrow> 'a" and dist :: "'s \<Rightarrow> nat"
  assumes progress: "inv s \<Longrightarrow> \<not> good s \<Longrightarrow> \<exists>t. step i s = Inr t \<and> inv t \<and>
    (good t \<or> (big t, big s) \<in> less_than <*lex*> less_than \<or>
     big t = big s \<and> helper t = helper s \<and> dist t + of_bool (i = helper s) \<le> dist s)"
begin

lemma fair_run:
  assumes "inv s" "\<And>s k. inv s \<Longrightarrow> \<not> good s \<Longrightarrow> \<exists>m\<ge>k. f m = helper s"
  shows "\<exists>n t. k \<le> n \<and> rfold step (map f [k..<n]) s = Inr t \<and> inv t \<and> good t"
proof -
  let ?wait = "\<lambda>(s, k). LEAST d. f (k + d) = helper s"
  let ?m = "\<lambda>(s, k). (big s, dist s, ?wait (s, k))"
  let ?R = "inv_image ((less_than <*lex*> less_than) <*lex*> less_than <*lex*> less_than) ?m"
  have "wf ?R" by (intro wf_inv_image wf_lex_prod wf_less_than)
  then have "case p of (s, k) \<Rightarrow> inv s \<longrightarrow> (\<exists>n t. k \<le> n \<and> rfold step (map f [k..<n]) s = Inr t \<and> inv t \<and> good t)" for p
  proof (induction p rule: wf_induct_rule)
    case (less p)
    obtain s k where p: "p = (s, k)" by (cases p)
    show ?case unfolding p prod.case
    proof (intro impI)
      assume inv: "inv s"
      show "\<exists>n t. k \<le> n \<and> rfold step (map f [k..<n]) s = Inr t \<and> inv t \<and> good t"
      proof (cases "good s")
        case True
        then show ?thesis using inv by (intro exI [of _ k] exI [of _ s]) simp
      next
        case False
        from progress [OF inv False, of "f k"] obtain t where t: "step (f k) s = Inr t" "inv t"
          "good t \<or> (big t, big s) \<in> less_than <*lex*> less_than \<or> big t = big s \<and> helper t = helper s \<and> dist t + of_bool (f k = helper s) \<le> dist s"
          by blast
        have "good t \<or> ((t, Suc k), (s, k)) \<in> ?R"
        proof (cases "\<not> good t \<and> big t = big s \<and> helper t = helper s \<and> dist t = dist s")
          case True
          then have ne: "f k \<noteq> helper s" using t(3) by (cases "big s") auto
          obtain m where m: "k \<le> m" "f m = helper s" using assms(2) [OF inv False] by blast
          let ?w = "LEAST d. f (k + d) = helper s"
          have w: "f (k + ?w) = helper s" by (rule LeastI [of _ "m - k"]) (use m in simp)
          then have "?w \<noteq> 0" using ne by (metis add_0_right)
          then obtain d where d: "?w = Suc d" by (cases ?w) auto
          have "(LEAST d. f (Suc k + d) = helper t) \<le> d" by (rule Least_le) (use w d True in simp)
          then show ?thesis using True d by simp
        qed (use t(3) in auto)
        then consider "good t" | n t' where "Suc k \<le> n" "rfold step (map f [Suc k..<n]) t = Inr t'" "inv t'" "good t'"
          using less.IH [of "(t, Suc k)"] t(2) unfolding p by auto
        then show ?thesis
        proof cases
          case 1
          then show ?thesis using t by (intro exI [of _ "Suc k"] exI [of _ t]) simp
        next
          case 2
          then show ?thesis using t by (intro exI [of _ n] exI [of _ t']) (simp add: upt_conv_Cons)
        qed
      qed
    qed
  qed
  from this [of "(s, k)"] show ?thesis using assms(1) by simp
qed

end

section \<open>Characters and strings\<close>

text \<open>\<open>isalpha\<close> and \<open>tolower\<close> of \<open><ctype.h>\<close> in the C locale.\<close>

definition isalpha :: "char \<Rightarrow> bool" where
  "isalpha c = (let n = (of_char c :: nat) in (65 \<le> n \<and> n \<le> 90) \<or> (97 \<le> n \<and> n \<le> 122))"

definition tolower :: "char \<Rightarrow> char" where
  "tolower c = (let n = (of_char c :: nat) in if 65 \<le> n \<and> n \<le> 90 then char_of (n + 32) else c)"

text \<open>\<open>std::string::substr(pos, n)\<close>, used by the sources with \<open>pos\<close> inside the string.\<close>

definition substr :: "string \<Rightarrow> nat \<Rightarrow> nat \<Rightarrow> string" where
  "substr s pos n = take n (drop pos s)"

text \<open>\<open>s.find_first_not_of(cs)\<close>: the first index outside \<open>cs\<close>, \<open>None\<close> for \<open>npos\<close>.\<close>

fun find_first_not_of_from :: "nat \<Rightarrow> string \<Rightarrow> string \<Rightarrow> nat option" where
  "find_first_not_of_from i [] cs = None"
| "find_first_not_of_from i (c # s) cs =
     (if c \<in> set cs then find_first_not_of_from (Suc i) s cs else Some i)"

definition find_first_not_of :: "string \<Rightarrow> string \<Rightarrow> nat option" where
  "find_first_not_of s cs = find_first_not_of_from 0 s cs"

lemma find_first_not_of_from_None: "find_first_not_of_from i s cs = None \<longleftrightarrow> set s \<subseteq> set cs"
  by (induction s arbitrary: i) auto

lemma find_first_not_of_None [simp]: "find_first_not_of s cs = None \<longleftrightarrow> set s \<subseteq> set cs"
  by (simp add: find_first_not_of_def find_first_not_of_from_None)

text \<open>\<open>std::endl\<close> writes a line feed, \<open>"\t"\<close> is a tab.\<close>

abbreviation newline :: string where "newline \<equiv> [CHR 0x0A]"
abbreviation tab :: string where "tab \<equiv> [CHR 0x09]"

section \<open>Decimal printing\<close>

definition digit_char :: "nat \<Rightarrow> char" where
  "digit_char d = char_of (48 + d)"

fun show_nat :: "nat \<Rightarrow> string" where
  "show_nat n = (if n < 10 then [digit_char n] else show_nat (n div 10) @ [digit_char (n mod 10)])"

declare show_nat.simps [simp del]

definition show_int :: "int \<Rightarrow> string" where
  "show_int i = (if i < 0 then CHR ''-'' # show_nat (nat (- i)) else show_nat (nat i))"

lemma show_nat_not_Nil [simp]: "show_nat n \<noteq> []"
  by (subst show_nat.simps) simp

section \<open>Lists\<close>

lemma takeWhile_all: "(\<forall>x\<in>set xs. P x) \<Longrightarrow> takeWhile P xs = xs"
  by (induction xs) auto

lemma dropWhile_all: "(\<forall>x\<in>set xs. P x) \<Longrightarrow> dropWhile P xs = []"
  by (induction xs) auto

lemma takeWhile_append_stop:
  "(\<forall>x\<in>set xs. P x) \<Longrightarrow> \<not> P y \<Longrightarrow> takeWhile P (xs @ y # ys) = xs"
  by (induction xs) auto

lemma dropWhile_append_stop:
  "(\<forall>x\<in>set xs. P x) \<Longrightarrow> \<not> P y \<Longrightarrow> dropWhile P (xs @ y # ys) = y # ys"
  by (induction xs) auto

lemma drop_Suc_eq: "i < length xs \<Longrightarrow> drop i xs = xs ! i # drop (Suc i) xs"
  by (simp add: Cons_nth_drop_Suc)

lemma map_update_same: "f x = f (xs ! i) \<Longrightarrow> map f (xs[i := x]) = map f xs"
  by (metis list_update_beyond list_update_id map_update not_le)

end
