(* ===== verification/Containers.thy ===== *)
theory Containers
  imports Prelude
begin

text \<open>
  The two containers the model needs, each with the contract its clients use as a locale
  and the locale's interpretation on the structure of the model: the heap of shared
  objects behind \<open>std::shared_ptr\<close> (a growing list indexed by address), and the ordered
  associative container \<open>std::map\<close> (an association list in increasing key order, the
  order in which the sources iterate over it); \<open>std::set\<close> is its keys-only form.
\<close>

section \<open>Heaps of shared objects\<close>

type_synonym addr = nat

definition hget :: "'a list \<Rightarrow> addr \<Rightarrow> 'a option" where
  "hget h a = (if a < length h then Some (h ! a) else None)"

definition hset :: "'a list \<Rightarrow> addr \<Rightarrow> 'a \<Rightarrow> 'a list" where
  "hset h a x = h[a := x]"

definition halloc :: "'a list \<Rightarrow> 'a \<Rightarrow> 'a list" where
  "halloc h x = h @ [x]"

definition hfresh :: "'a list \<Rightarrow> addr" where
  "hfresh h = length h"

text \<open>The contract: allocated objects are found, updates hit exactly one address.\<close>

locale object_heap =
  fixes get :: "'h \<Rightarrow> addr \<Rightarrow> 'a option"
    and put :: "'h \<Rightarrow> addr \<Rightarrow> 'a \<Rightarrow> 'h"
    and alloc :: "'h \<Rightarrow> 'a \<Rightarrow> 'h"
    and fresh :: "'h \<Rightarrow> addr"
  assumes get_put: "get h a \<noteq> None \<Longrightarrow> get (put h a x) b = (if b = a then Some x else get h b)"
    and get_alloc: "get (alloc h x) b = (if b = fresh h then Some x else get h b)"
    and get_fresh: "get h (fresh h) = None"
begin

lemma get_put_same: "get h a = Some y \<Longrightarrow> get (put h a x) a = Some x"
  by (simp add: get_put)

lemma get_put_other: "get h a = Some y \<Longrightarrow> b \<noteq> a \<Longrightarrow> get (put h a x) b = get h b"
  by (simp add: get_put)

lemma get_alloc_old: "get h b = Some y \<Longrightarrow> get (alloc h x) b = Some y"
  using get_fresh [of h] by (auto simp: get_alloc)

lemma put_keeps_allocated: "get h a = Some y \<Longrightarrow> get h b \<noteq> None \<Longrightarrow> get (put h a x) b \<noteq> None"
  by (simp add: get_put)

lemma alloc_keeps_allocated: "get h b \<noteq> None \<Longrightarrow> get (alloc h x) b \<noteq> None"
  by (simp add: get_alloc)

lemma fresh_not_old: "get h b = Some y \<Longrightarrow> b \<noteq> fresh h"
  using get_fresh by fastforce

end

interpretation heap: object_heap hget hset halloc hfresh
  by unfold_locales (auto simp: hget_def hset_def halloc_def hfresh_def nth_append split: if_splits)

lemma hget_Some_iff: "hget h a = Some x \<longleftrightarrow> a < length h \<and> h ! a = x"
  by (simp add: hget_def)

lemma hget_not_None [simp]: "hget h a \<noteq> None \<longleftrightarrow> a < length h"
  by (simp add: hget_def)

lemma hset_length [simp]: "length (hset h a x) = length h"
  by (simp add: hset_def)

lemma halloc_length [simp]: "length (halloc h x) = Suc (length h)"
  by (simp add: halloc_def)

lemma hfresh_length: "hfresh h = length h"
  by (simp add: hfresh_def)

lemma hget_hset: "a < length h \<Longrightarrow> hget (hset h a x) b = (if b = a then Some x else hget h b)"
  by (simp add: hget_def hset_def)

lemma hget_halloc: "hget (halloc h x) b = (if b = length h then Some x else hget h b)"
  by (simp add: heap.get_alloc hfresh_length)

section \<open>Ordered associative containers\<close>

type_synonym ('k, 'v) omap = "('k \<times> 'v) list"

text \<open>\<open>m.find(k)\<close>\<close>

fun om_find :: "('k, 'v) omap \<Rightarrow> 'k \<Rightarrow> 'v option" where
  "om_find [] k = None"
| "om_find ((a, b) # m) k = (if k = a then Some b else om_find m k)"

text \<open>\<open>m[k] = v\<close>\<close>

fun om_set :: "'k::linorder \<Rightarrow> 'v \<Rightarrow> ('k, 'v) omap \<Rightarrow> ('k, 'v) omap" where
  "om_set k v [] = [(k, v)]"
| "om_set k v ((a, b) # m) =
     (if k < a then (k, v) # (a, b) # m
      else if k = a then (k, v) # m
      else (a, b) # om_set k v m)"

text \<open>\<open>m.insert(std::make_pair(k, v))\<close>: an existing key keeps its value.\<close>

definition om_insert :: "'k::linorder \<Rightarrow> 'v \<Rightarrow> ('k, 'v) omap \<Rightarrow> ('k, 'v) omap" where
  "om_insert k v m = (case om_find m k of None \<Rightarrow> om_set k v m | Some _ \<Rightarrow> m)"

text \<open>\<open>m.erase(k)\<close>\<close>

fun om_erase :: "'k::linorder \<Rightarrow> ('k, 'v) omap \<Rightarrow> ('k, 'v) omap" where
  "om_erase k [] = []"
| "om_erase k ((a, b) # m) = (if k = a then m else (a, b) # om_erase k m)"

definition om_sorted :: "('k::linorder, 'v) omap \<Rightarrow> bool" where
  "om_sorted m = sorted_wrt (<) (map fst m)"

lemma om_sorted_Nil [simp]: "om_sorted []"
  by (simp add: om_sorted_def)

lemma om_sorted_Cons [simp]:
  "om_sorted ((a, b) # m) \<longleftrightarrow> (\<forall>k\<in>fst ` set m. a < k) \<and> om_sorted m"
  by (auto simp: om_sorted_def)

lemma om_set_keys: "fst ` set (om_set k v m) = insert k (fst ` set m)"
  by (induction k v m rule: om_set.induct) auto

lemma om_erase_length: "length (om_erase k m) \<le> length m"
  by (induction k m rule: om_erase.induct) auto

lemma om_set_length: "length (om_set k v m) \<le> Suc (length m)"
  by (induction k v m rule: om_set.induct) auto

lemma om_erase_subset: "set (om_erase k m) \<subseteq> set m"
  by (induction k m rule: om_erase.induct) auto

lemma om_find_notin: "k \<notin> fst ` set m \<Longrightarrow> om_find m k = None"
  by (induction m k rule: om_find.induct) auto

lemma om_find_in: "om_find m k = Some v \<Longrightarrow> (k, v) \<in> set m"
  by (induction m k rule: om_find.induct) (auto split: if_splits)

lemma om_find_set: "om_find (om_set k v m) k' = (if k' = k then Some v else om_find m k')"
  by (induction k v m rule: om_set.induct) auto

lemma om_sorted_set: "om_sorted m \<Longrightarrow> om_sorted (om_set k v m)"
  by (induction k v m rule: om_set.induct) (auto simp: om_set_keys)

lemma om_find_sorted: "om_sorted m \<Longrightarrow> om_find m k = Some v \<longleftrightarrow> (k, v) \<in> set m"
  by (induction m k rule: om_find.induct) force+

lemma om_find_erase:
  "om_sorted m \<Longrightarrow> om_find (om_erase k m) k' = (if k' = k then None else om_find m k')"
proof (induction k m rule: om_erase.induct)
  case (1 k)
  then show ?case by simp
next
  case (2 k a b m)
  then have "a \<notin> fst ` set m" by auto
  with 2 show ?case by (auto simp: om_find_notin)
qed

lemma om_sorted_erase: "om_sorted m \<Longrightarrow> om_sorted (om_erase k m)"
proof (induction k m rule: om_erase.induct)
  case (1 k)
  then show ?case by simp
next
  case (2 k a b m)
  then show ?case using om_erase_subset [of k m] by auto
qed

text \<open>The contract of \<open>std::map\<close>, as its clients in the logger manager, the configuration
  registry and the listener tables use it.\<close>

locale ordered_map =
  fixes find :: "'m \<Rightarrow> 'k \<Rightarrow> 'v option"
    and assign :: "'k \<Rightarrow> 'v \<Rightarrow> 'm \<Rightarrow> 'm"
    and erase :: "'k \<Rightarrow> 'm \<Rightarrow> 'm"
    and empty :: "'m"
    and valid :: "'m \<Rightarrow> bool"
  assumes find_empty: "find empty k = None"
    and find_assign: "find (assign k v m) k' = (if k' = k then Some v else find m k')"
    and find_erase: "valid m \<Longrightarrow> find (erase k m) k' = (if k' = k then None else find m k')"
    and valid_empty: "valid empty"
    and valid_assign: "valid m \<Longrightarrow> valid (assign k v m)"
    and valid_erase: "valid m \<Longrightarrow> valid (erase k m)"
begin

lemma assign_keeps: "find m k' = Some w \<Longrightarrow> k' \<noteq> k \<Longrightarrow> find (assign k v m) k' = Some w"
  by (simp add: find_assign)

lemma erase_absent: "valid m \<Longrightarrow> find m k = None \<Longrightarrow> find (erase k m) = find m"
  by (auto simp: find_erase)

lemma erase_assign: "valid m \<Longrightarrow> find m k = None \<Longrightarrow> find (erase k (assign k v m)) = find m"
  by (auto simp: find_erase find_assign valid_assign)

end

interpretation omap: ordered_map om_find om_set om_erase "[]" om_sorted
  by unfold_locales (auto simp: om_find_set om_find_erase om_sorted_set om_sorted_erase)

lemma om_find_insert:
  "om_find (om_insert k v m) k' =
     (if k' = k \<and> om_find m k = None then Some v else om_find m k')"
  by (auto simp: om_insert_def omap.find_assign split: option.splits)

lemma om_sorted_insert: "om_sorted m \<Longrightarrow> om_sorted (om_insert k v m)"
  by (auto simp: om_insert_def omap.valid_assign split: option.splits)

lemma om_eqI: "om_sorted m \<Longrightarrow> om_sorted n \<Longrightarrow> om_find m = om_find n \<Longrightarrow> m = n"
proof (induction m arbitrary: n)
  case Nil
  then show ?case by (cases n) (auto simp: fun_eq_iff, metis option.distinct(1))
next
  case (Cons p m)
  obtain a b where p: "p = (a, b)" by force
  obtain c d n' where n: "n = (c, d) # n'"
    using Cons.prems(3) p by (cases n) (auto simp: fun_eq_iff, metis option.distinct(1))
  have sub: "\<And>k v. (k, v) \<in> set ((a, b) # m) \<longleftrightarrow> (k, v) \<in> set n"
    using Cons.prems p by (metis om_find_sorted)
  have "a = c"
  proof (rule ccontr)
    assume "a \<noteq> c"
    have "c \<in> fst ` set m" using sub [of c d] n \<open>a \<noteq> c\<close> by force
    moreover have "a \<in> fst ` set n'" using sub [of a b] n \<open>a \<noteq> c\<close> by force
    ultimately have "a < c" "c < a" using Cons.prems(1,2) p n by auto
    then show False by simp
  qed
  moreover have "b = d"
    using Cons.prems(3) p n \<open>a = c\<close> by (auto simp: fun_eq_iff split: if_splits)
  moreover have "om_find m = om_find n'"
  proof
    fix k
    have "a \<notin> fst ` set m" "a \<notin> fst ` set n'"
      using Cons.prems(1,2) p n \<open>a = c\<close> by auto
    then have "k = a \<Longrightarrow> om_find m k = om_find n' k"
      by (simp add: om_find_notin)
    moreover have "k \<noteq> a \<Longrightarrow> om_find m k = om_find n' k"
      using fun_cong [OF Cons.prems(3), of k] p n \<open>a = c\<close> by simp
    ultimately show "om_find m k = om_find n' k" by blast
  qed
  ultimately show ?case using Cons p n by simp
qed

section \<open>Ordered sets\<close>

text \<open>\<open>std::set<T>\<close> ordered by \<open>operator<\<close>: here given by a key function, since the
  sources order the elements of their sets by a field.  Inserting an element whose key
  is present changes nothing.\<close>

fun os_insert :: "('a \<Rightarrow> 'k::linorder) \<Rightarrow> 'a \<Rightarrow> 'a list \<Rightarrow> 'a list" where
  "os_insert f x [] = [x]"
| "os_insert f x (y # ys) =
     (if f x < f y then x # y # ys else if f x = f y then y # ys else y # os_insert f x ys)"

fun os_find :: "('a \<Rightarrow> 'k) \<Rightarrow> 'k \<Rightarrow> 'a list \<Rightarrow> 'a option" where
  "os_find f k [] = None"
| "os_find f k (y # ys) = (if f y = k then Some y else os_find f k ys)"

definition os_sorted :: "('a \<Rightarrow> 'k::linorder) \<Rightarrow> 'a list \<Rightarrow> bool" where
  "os_sorted f xs = sorted_wrt (<) (map f xs)"

lemma os_sorted_simps [simp]:
  "os_sorted f []"
  "os_sorted f (x # xs) \<longleftrightarrow> (\<forall>y\<in>set xs. f x < f y) \<and> os_sorted f xs"
  by (auto simp: os_sorted_def)

lemma os_insert_set: "set (os_insert f x ys) \<subseteq> insert x (set ys)"
  by (induction f x ys rule: os_insert.induct) auto

lemma os_insert_keys: "f ` set (os_insert f x ys) = insert (f x) (f ` set ys)"
  by (induction f x ys rule: os_insert.induct) auto

lemma os_sorted_insert: "os_sorted f ys \<Longrightarrow> os_sorted f (os_insert f x ys)"
proof (induction f x ys rule: os_insert.induct)
  case (1 f x)
  then show ?case by simp
next
  case (2 f x y ys)
  then show ?case using os_insert_set [of f x ys] by fastforce
qed

lemma os_find_Some: "os_find f k ys = Some y \<Longrightarrow> y \<in> set ys \<and> f y = k"
  by (induction f k ys rule: os_find.induct) (auto split: if_splits)

lemma os_find_None: "os_find f k ys = None \<longleftrightarrow> k \<notin> f ` set ys"
  by (induction f k ys rule: os_find.induct) auto

lemma os_find_insert:
  "os_sorted f ys \<Longrightarrow> os_find f k (os_insert f x ys) =
     (if k = f x \<and> os_find f k ys = None then Some x else os_find f k ys)"
proof (induction f x ys rule: os_insert.induct)
  case (1 f x)
  then show ?case by simp
next
  case (2 f x y ys)
  have "f x < f y \<Longrightarrow> os_find f (f x) ys = None"
    using 2(2) by (force simp: os_find_None)
  with 2 show ?case by auto
qed

lemma os_find_sorted: "os_sorted f ys \<Longrightarrow> y \<in> set ys \<Longrightarrow> os_find f (f y) ys = Some y"
  by (induction ys) force+

end
