(* ===== verification/LogCore.thy ===== *)
theory LogCore
  imports Prelude
begin

text \<open>
  Log levels and log events (\<open>class LogLevel\<close> and \<open>class LogEvent\<close> of log.h, their
  functions in log.cpp).  The enumeration is ordered by its numeric values, as the
  comparisons \<open>level >= m_level\<close> of the sources order it.
\<close>

section \<open>Levels\<close>

datatype level = UNKNOW | DEBUG | INFO | WARN | ERROR | FATAL

fun level_num :: "level \<Rightarrow> nat" where
  "level_num UNKNOW = 0"
| "level_num DEBUG = 1"
| "level_num INFO = 2"
| "level_num WARN = 3"
| "level_num ERROR = 4"
| "level_num FATAL = 5"

lemma level_num_inject: "level_num a = level_num b \<Longrightarrow> a = b"
  by (cases a; cases b; simp)

instantiation level :: linorder
begin

definition less_eq_level :: "level \<Rightarrow> level \<Rightarrow> bool" where
  "less_eq_level a b = (level_num a \<le> level_num b)"

definition less_level :: "level \<Rightarrow> level \<Rightarrow> bool" where
  "less_level a b = (level_num a < level_num b)"

instance
  by intro_classes (auto simp: less_eq_level_def less_level_def intro: level_num_inject)

end

lemma UNKNOW_least [simp]: "UNKNOW \<le> l"
  by (simp add: less_eq_level_def)

lemma FATAL_greatest [simp]: "l \<le> FATAL"
  by (cases l) (simp_all add: less_eq_level_def)

text \<open>\<open>LogLevel::FromString\<close>: the macro's ten comparisons, in the order of the source.\<close>

definition from_string :: "string \<Rightarrow> level" where
  "from_string str =
     (if str = ''debug'' then DEBUG
      else if str = ''info'' then INFO
      else if str = ''warn'' then WARN
      else if str = ''error'' then ERROR
      else if str = ''fatal'' then FATAL
      else if str = ''DEBUG'' then DEBUG
      else if str = ''INFO'' then INFO
      else if str = ''WARN'' then WARN
      else if str = ''ERROR'' then ERROR
      else if str = ''FATAL'' then FATAL
      else UNKNOW)"

text \<open>\<open>LogLevel::ToString\<close>\<close>

fun to_string :: "level \<Rightarrow> string" where
  "to_string DEBUG = ''DEBUG''"
| "to_string INFO = ''INFO''"
| "to_string WARN = ''WARN''"
| "to_string ERROR = ''ERROR''"
| "to_string FATAL = ''FATAL''"
| "to_string UNKNOW = ''UNKNOW''"

lemma to_string_inject: "to_string a = to_string b \<longleftrightarrow> a = b"
  by (cases a; cases b) simp_all

lemma from_string_to_string [simp]: "from_string (to_string l) = l"
  by (cases l) (simp_all add: from_string_def)

section \<open>Events\<close>

text \<open>
  The fields of \<open>LogEvent\<close>: \<open>m_line\<close> is an \<open>int32_t\<close>, \<open>m_elapse\<close>, \<open>m_threadId\<close> and
  \<open>m_fiberId\<close> are \<open>uint32_t\<close>, \<open>m_time\<close> is a \<open>uint64_t\<close>; \<open>m_ss\<close> is the content
  written so far, \<open>m_logger\<close> the address of the logger the event belongs to.
\<close>

record log_event =
  ev_file :: string
  ev_line :: u32
  ev_elapse :: u32
  ev_thread_id :: u32
  ev_fiber_id :: u32
  ev_time :: u64
  ev_ss :: string
  ev_thread_name :: string
  ev_logger :: nat
  ev_level :: level

definition mk_event ::
  "nat \<Rightarrow> level \<Rightarrow> string \<Rightarrow> u32 \<Rightarrow> u32 \<Rightarrow> u32 \<Rightarrow> u32 \<Rightarrow> u64 \<Rightarrow> string \<Rightarrow> log_event" where
  "mk_event logger level file line elapse thread_id fiber_id time thread_name =
     \<lparr>ev_file = file, ev_line = line, ev_elapse = elapse, ev_thread_id = thread_id,
      ev_fiber_id = fiber_id, ev_time = time, ev_ss = [], ev_thread_name = thread_name,
      ev_logger = logger, ev_level = level\<rparr>"

text \<open>\<open>getLine()\<close> and \<open>getElapse()\<close> return \<open>int32_t\<close>: the word is read as signed, although
  \<open>m_elapse\<close> is unsigned.\<close>

definition get_line :: "log_event \<Rightarrow> int" where
  "get_line e = sint (ev_line e)"

definition get_elapse :: "log_event \<Rightarrow> int" where
  "get_elapse e = sint (ev_elapse e)"

definition get_content :: "log_event \<Rightarrow> string" where
  "get_content e = ev_ss e"

text \<open>A write to the event's stream (\<open>getSS() << ...\<close>).\<close>

definition ss_write :: "string \<Rightarrow> log_event \<Rightarrow> log_event" where
  "ss_write s e = e\<lparr>ev_ss := ev_ss e @ s\<rparr>"

text \<open>
  \<open>LogEvent::format(fmt, al)\<close>: \<open>vasprintf\<close> is the C library's; \<open>None\<close> stands for its
  result -1, \<open>Some s\<close> for the text it produced.
\<close>

definition event_format :: "string option \<Rightarrow> log_event \<Rightarrow> log_event" where
  "event_format vasprintf_result e =
     (case vasprintf_result of None \<Rightarrow> e | Some s \<Rightarrow> ss_write s e)"

lemma ss_write_fields [simp]:
  "ev_file (ss_write s e) = ev_file e" "ev_line (ss_write s e) = ev_line e"
  "ev_elapse (ss_write s e) = ev_elapse e" "ev_thread_id (ss_write s e) = ev_thread_id e"
  "ev_fiber_id (ss_write s e) = ev_fiber_id e" "ev_time (ss_write s e) = ev_time e"
  "ev_thread_name (ss_write s e) = ev_thread_name e" "ev_logger (ss_write s e) = ev_logger e"
  "ev_level (ss_write s e) = ev_level e" "ev_ss (ss_write s e) = ev_ss e @ s"
  by (simp_all add: ss_write_def)

lemma mk_event_fields [simp]:
  "ev_logger (mk_event lg l f n e t fb tm tn) = lg"
  "ev_level (mk_event lg l f n e t fb tm tn) = l"
  "ev_ss (mk_event lg l f n e t fb tm tn) = []"
  by (simp_all add: mk_event_def)

end
