(* ===== verification/Formatter.thy ===== *)
theory Formatter
  imports LogCore Containers
begin

text \<open>
  The log formatter (\<open>class LogFormatter\<close> of log.h; the format items, \<open>init\<close> and
  \<open>format\<close> in log.cpp): the pattern parser with its two index loops, the table of format
  items, the rendering of an event, and a grammar of patterns that the parser inverts.
\<close>

section \<open>Format items\<close>

text \<open>One constructor for each subclass of \<open>LogFormatter::FormatItem\<close>, with the members
  the subclass keeps.\<close>

datatype fmt_item =
    MessageItem
  | LevelItem
  | ElapseItem
  | NameItem
  | ThreadIdItem
  | FiberIdItem
  | ThreadNameItem
  | DateTimeItem string
  | FilenameItem
  | LineItem
  | NewLineItem
  | TabItem string
  | StringItem string

text \<open>The constructor of \<open>DateTimeFormatItem\<close> replaces an empty format by the default one.\<close>

definition mk_datetime :: "string \<Rightarrow> fmt_item" where
  "mk_datetime format = DateTimeItem (if format = [] then ''%Y-%m-%d %H:%M:%S'' else format)"

text \<open>
  \<open>FormatItem::format\<close>, one case per subclass.  \<open>name_of\<close> is \<open>getName()\<close> of a logger
  address; \<open>strftime\<close> is \<open>localtime_r\<close> followed by \<open>strftime\<close> into a buffer of 64
  bytes: \<open>None\<close> when the text does not fit, in which case the buffer's contents are
  indeterminate and are printed all the same.
\<close>

fun item_format ::
  "(nat \<Rightarrow> string) \<Rightarrow> (string \<Rightarrow> u64 \<Rightarrow> string option) \<Rightarrow> level \<Rightarrow> log_event \<Rightarrow> fmt_item
   \<Rightarrow> fault + string" where
  "item_format name_of strftime level event MessageItem = Inr (get_content event)"
| "item_format name_of strftime level event LevelItem = Inr (to_string level)"
| "item_format name_of strftime level event ElapseItem = Inr (show_int (get_elapse event))"
| "item_format name_of strftime level event NameItem = Inr (name_of (ev_logger event))"
| "item_format name_of strftime level event ThreadIdItem = Inr (show_nat (unat (ev_thread_id event)))"
| "item_format name_of strftime level event FiberIdItem = Inr (show_nat (unat (ev_fiber_id event)))"
| "item_format name_of strftime level event ThreadNameItem = Inr (ev_thread_name event)"
| "item_format name_of strftime level event (DateTimeItem f) =
     (case strftime f (ev_time event) of None \<Rightarrow> Inl Indeterminate | Some s \<Rightarrow> Inr s)"
| "item_format name_of strftime level event FilenameItem = Inr (ev_file event)"
| "item_format name_of strftime level event LineItem = Inr (show_int (get_line event))"
| "item_format name_of strftime level event NewLineItem = Inr newline"
| "item_format name_of strftime level event (TabItem s) = Inr tab"
| "item_format name_of strftime level event (StringItem s) = Inr s"

text \<open>The table \<open>s_format_items\<close>.\<close>

definition format_items :: "string \<Rightarrow> (string \<Rightarrow> fmt_item) option" where
  "format_items str =
     (if str = ''m'' then Some (\<lambda>_. MessageItem)
      else if str = ''p'' then Some (\<lambda>_. LevelItem)
      else if str = ''r'' then Some (\<lambda>_. ElapseItem)
      else if str = ''c'' then Some (\<lambda>_. NameItem)
      else if str = ''t'' then Some (\<lambda>_. ThreadIdItem)
      else if str = ''n'' then Some (\<lambda>_. NewLineItem)
      else if str = ''d'' then Some mk_datetime
      else if str = ''f'' then Some (\<lambda>_. FilenameItem)
      else if str = ''l'' then Some (\<lambda>_. LineItem)
      else if str = ''T'' then Some TabItem
      else if str = ''F'' then Some (\<lambda>_. FiberIdItem)
      else if str = ''N'' then Some (\<lambda>_. ThreadNameItem)
      else None)"

section \<open>The pattern parser\<close>

text \<open>A parsed piece: name or literal text, the format in braces, and whether it is an item
  (1) or text (0).\<close>

type_synonym piece = "string \<times> string \<times> nat"

text \<open>
  The inner loop: \<open>i\<close> is the index of the percent sign, \<open>n\<close> the current index,
  \<open>fmt_status\<close> is 1 between the braces, \<open>fmt_begin\<close> the index of the opening brace.
  The result is the final \<open>(n, fmt_status, str, fmt)\<close>.
\<close>

function fmt_scan ::
  "string \<Rightarrow> nat \<Rightarrow> nat \<Rightarrow> nat \<Rightarrow> nat \<Rightarrow> string \<Rightarrow> string \<Rightarrow> nat \<times> nat \<times> string \<times> string" where
  "fmt_scan pat i n fmt_status fmt_begin str fmt =
     (if n < length pat then
        if fmt_status = 0 \<and> (\<not> isalpha (pat ! n) \<and> pat ! n \<noteq> CHR ''{'' \<and> pat ! n \<noteq> CHR ''}'') then
          (n, fmt_status, substr pat (i + 1) (n - i - 1), fmt)
        else if fmt_status = 0 \<and> pat ! n = CHR ''{'' then
          fmt_scan pat i (n + 1) 1 n (substr pat (i + 1) (n - i - 1)) fmt
        else if fmt_status = 1 \<and> pat ! n = CHR ''}'' then
          (n + 1, 0, str, substr pat (fmt_begin + 1) (n - fmt_begin - 1))
        else
          fmt_scan pat i (n + 1) fmt_status fmt_begin
            (if n + 1 = length pat \<and> str = [] then drop (i + 1) pat else str) fmt
      else (n, fmt_status, str, fmt))"
  by pat_completeness auto
termination
  by (relation "measure (\<lambda>(pat, i, n, st, b, s, f). length pat - n)") auto

declare fmt_scan.simps [simp del]

lemma fmt_scan_ge: "fst (fmt_scan pat i n st b s f) \<ge> n"
proof (induction pat i n st b s f rule: fmt_scan.induct)
  case (1 pat i n st b s f)
  then show ?case by (subst fmt_scan.simps) auto
qed

text \<open>Pushing the pending literal text, if there is any.\<close>

definition flush :: "string \<Rightarrow> piece list" where
  "flush nstr = (if nstr = [] then [] else [(nstr, [], 0)])"

text \<open>
  The outer loop.  The state is the index \<open>i\<close>, the pending text \<open>nstr\<close>, the pieces, the
  error flag \<open>m_error\<close> and what was printed to the standard output.  After an escaped
  percent sign only the index of the loop moves on, so the second percent sign is looked
  at again; after an unclosed brace the index does not move past the percent sign.
\<close>

function fmt_parse ::
  "string \<Rightarrow> nat \<Rightarrow> string \<Rightarrow> piece list \<Rightarrow> bool \<Rightarrow> string \<Rightarrow> piece list \<times> bool \<times> string" where
  "fmt_parse pat i nstr vec err out =
     (if i < length pat then
        if pat ! i \<noteq> CHR ''%'' then fmt_parse pat (i + 1) (nstr @ [pat ! i]) vec err out
        else if i + 1 < length pat \<and> pat ! (i + 1) = CHR ''%'' then
          fmt_parse pat (i + 1) (nstr @ ''%'') vec err out
        else
          (case fmt_scan pat i (i + 1) 0 0 [] [] of (n, fmt_status, str, fmt) \<Rightarrow>
             if fmt_status = 0 then
               fmt_parse pat (n - 1 + 1) [] (vec @ flush nstr @ [(str, fmt, 1)]) err out
             else
               fmt_parse pat (i + 1) nstr (vec @ [(''<<pattern_error>>'', fmt, 0)]) True
                 (out @ ''pattern parse error: '' @ pat @ '' - '' @ drop i pat @ newline))
      else (vec @ flush nstr, err, out))"
  by pat_completeness auto
termination
proof (relation "measure (\<lambda>(pat, i, n, v, e, o'). length pat - i)", goal_cases)
  case (4 pat i nstr vec err out n y st z str fmt)
  have "fst (n, y) \<ge> i + 1"
    unfolding 4(4) by (rule fmt_scan_ge)
  with 4(1) show ?case by simp
qed auto

declare fmt_parse.simps [simp del]

text \<open>The second loop of \<open>init\<close>: from pieces to items; an unknown item name sets \<open>m_error\<close>.\<close>

fun piece_item :: "piece \<Rightarrow> fmt_item \<times> bool" where
  "piece_item (str, fmt, kind) =
     (if kind = 0 then (StringItem str, False)
      else (case format_items str of
              None \<Rightarrow> (StringItem (''<<error_format %'' @ str @ ''>>''), True)
            | Some mk \<Rightarrow> (mk fmt, False)))"

record formatter =
  fm_pattern :: string
  fm_items :: "fmt_item list"
  fm_error :: bool

text \<open>The constructor \<open>LogFormatter(pattern)\<close> with \<open>init()\<close>: the formatter, and what \<open>init\<close>
  printed to the standard output.\<close>

definition mk_formatter :: "string \<Rightarrow> formatter" where
  "mk_formatter pattern =
     (case fmt_parse pattern 0 [] [] False [] of (vec, err, out) \<Rightarrow>
        \<lparr>fm_pattern = pattern, fm_items = map (fst \<circ> piece_item) vec,
         fm_error = (err \<or> (\<exists>p\<in>set vec. snd (piece_item p)))\<rparr>)"

definition init_output :: "string \<Rightarrow> string" where
  "init_output pattern = snd (snd (fmt_parse pattern 0 [] [] False []))"

text \<open>\<open>LogFormatter::format\<close>: the items' outputs, in order.\<close>

definition formatter_format ::
  "(nat \<Rightarrow> string) \<Rightarrow> (string \<Rightarrow> u64 \<Rightarrow> string option) \<Rightarrow> formatter \<Rightarrow> level \<Rightarrow> log_event
   \<Rightarrow> fault + string" where
  "formatter_format name_of strftime f level event =
     rfold (\<lambda>i ss. rbind (item_format name_of strftime level event i) (\<lambda>t. Inr (ss @ t)))
       (fm_items f) []"

text \<open>\<open>getPattern\<close> and \<open>isError\<close> are the record's fields \<open>fm_pattern\<close> and \<open>fm_error\<close>.\<close>

definition default_pattern :: string where
  "default_pattern = ''%d{%Y-%m-%d %H:%M:%S}%T%t%T%N%T%F%T[%p]%T[%c]%T%f:%l%T%m%n''"

section \<open>The parser as a recursion over the text\<close>

text \<open>
  What the two index loops compute, stated without indices: an item name extends over the
  letters and closing braces after the percent sign; an opening brace right after it starts
  a format, which ends at the next closing brace.
\<close>

definition name_char :: "char \<Rightarrow> bool" where
  "name_char c = (isalpha c \<or> c = CHR ''}'')"

definition prepend :: "piece list \<Rightarrow> piece list \<times> bool \<Rightarrow> piece list \<times> bool" where
  "prepend ps r = (ps @ fst r, snd r)"

lemma prepend_simps [simp]:
  "fst (prepend ps r) = ps @ fst r" "snd (prepend ps r) = snd r"
  by (simp_all add: prepend_def)

lemma length_tl_dropWhile_le [simp]: "length (tl (dropWhile P xs)) \<le> length xs"
  by (rule le_trans [OF _ length_dropWhile_le [of P]]) simp

function spec_parse :: "string \<Rightarrow> string \<Rightarrow> piece list \<times> bool" where
  "spec_parse nstr [] = (flush nstr, False)"
| "spec_parse nstr (c # s) =
     (if c \<noteq> CHR ''%'' then spec_parse (nstr @ [c]) s
      else if take 1 s = ''%'' then spec_parse (nstr @ ''%'') s
      else if take 1 (dropWhile name_char s) = ''{'' then
        (if CHR ''}'' \<in> set (dropWhile name_char s) then
           prepend (flush nstr @
              [(takeWhile name_char s, takeWhile (\<lambda>c. c \<noteq> CHR ''}'') (tl (dropWhile name_char s)), 1)])
             (spec_parse [] (tl (dropWhile (\<lambda>c. c \<noteq> CHR ''}'') (tl (dropWhile name_char s)))))
         else (fst (prepend [(''<<pattern_error>>'', [], 0)] (spec_parse nstr s)), True))
      else prepend (flush nstr @ [(takeWhile name_char s, [], 1)])
             (spec_parse [] (dropWhile name_char s)))"
  by pat_completeness auto
termination
proof (relation "measure (\<lambda>(n, s). length s)", goal_cases)
  case (4 nstr c s)
  have "length (tl (dropWhile (\<lambda>c. c \<noteq> CHR ''}'') (tl (dropWhile name_char s)))) \<le> length s"
    by (metis length_tl_dropWhile_le le_trans)
  then show ?case by simp
next
  case (6 nstr c s)
  then show ?case by (simp add: length_dropWhile_le less_Suc_eq_le)
qed auto

declare spec_parse.simps(2) [simp del]

lemma fmt_scan_name:
  "i < n \<Longrightarrow> n < length pat \<Longrightarrow>
   fmt_scan pat i n 0 b [] f =
     (let m = n + length (takeWhile name_char (drop n pat));
          nm = substr pat (i + 1) (m - i - 1)
      in if m = length pat then (m, 0, nm, f)
         else if pat ! m = CHR ''{'' then fmt_scan pat i (m + 1) 1 m nm f
         else (m, 0, nm, f))"
proof (induction "length pat - n" arbitrary: n)
  case 0
  then show ?case by simp
next
  case (Suc k)
  show ?case
  proof (cases "name_char (pat ! n)")
    case False
    then show ?thesis using Suc.prems
      by (subst fmt_scan.simps) (auto simp: drop_Suc_eq name_char_def isalpha_def)
  next
    case True
    have step: "fmt_scan pat i n 0 b [] f =
      fmt_scan pat i (n + 1) 0 b (if n + 1 = length pat then drop (i + 1) pat else []) f"
      using True Suc.prems
      by (subst fmt_scan.simps) (auto simp: name_char_def isalpha_def)
    show ?thesis
    proof (cases "n + 1 = length pat")
      case last: True
      then show ?thesis using True Suc.prems
        by (subst step, subst fmt_scan.simps) (auto simp: drop_Suc_eq substr_def Let_def)
    next
      case more: False
      then have "n + 1 < length pat" using Suc.prems by simp
      then show ?thesis using Suc.hyps(1) [of "n + 1"] Suc.hyps(2) Suc.prems True more
        by (subst step) (simp add: drop_Suc_eq Let_def)
    qed
  qed
qed

lemma fmt_scan_brace:
  "n \<le> length pat \<Longrightarrow>
   (let m = n + length (takeWhile (\<lambda>c. c \<noteq> CHR ''}'') (drop n pat)) in
    if m = length pat then \<exists>str'. fmt_scan pat i n 1 b str f = (m, 1, str', f)
    else fmt_scan pat i n 1 b str f = (m + 1, 0, str, substr pat (b + 1) (m - b - 1)))"
proof (induction "length pat - n" arbitrary: n str)
  case 0
  then show ?case by (subst fmt_scan.simps) simp
next
  case (Suc k)
  then have n: "n < length pat" by simp
  show ?case
  proof (cases "pat ! n = CHR ''}''")
    case True
    then show ?thesis using n
      by (subst fmt_scan.simps, subst fmt_scan.simps) (simp add: drop_Suc_eq Let_def)
  next
    case False
    define str' where "str' = (if n + 1 = length pat \<and> str = [] then drop (i + 1) pat else str)"
    have step: "fmt_scan pat i n 1 b str f = fmt_scan pat i (n + 1) 1 b str' f"
      using False n by (subst fmt_scan.simps) (simp add: str'_def)
    have tw: "length (takeWhile (\<lambda>c. c \<noteq> CHR ''}'') (drop n pat)) =
        Suc (length (takeWhile (\<lambda>c. c \<noteq> CHR ''}'') (drop (n + 1) pat)))"
      using False n by (simp add: drop_Suc_eq)
    have str': "n + 1 \<noteq> length pat \<Longrightarrow> str' = str" by (simp add: str'_def)
    have "n + 1 + length (takeWhile (\<lambda>c. c \<noteq> CHR ''}'') (drop (n + 1) pat)) \<noteq> length pat
      \<Longrightarrow> n + 1 \<noteq> length pat"
      by (metis add.right_neutral drop_all le_refl list.size(3) takeWhile.simps(1))
    then show ?thesis
      unfolding step tw using Suc.hyps(1) [of "n + 1" str'] Suc.hyps(2) n str'
      by (auto simp: Let_def split: if_splits)
  qed
qed

lemma drop_takeWhile_length: "drop (length (takeWhile P xs)) xs = dropWhile P xs"
  by (simp add: dropWhile_eq_drop)

lemma take_takeWhile_length: "take (length (takeWhile P xs)) xs = takeWhile P xs"
  by (induction xs) auto

lemma drop_add_takeWhile:
  "drop (n + length (takeWhile P (drop n xs))) xs = dropWhile P (drop n xs)"
  by (metis add.commute drop_drop drop_takeWhile_length)

lemma takeWhile_end:
  "n \<le> length xs \<Longrightarrow> n + length (takeWhile P (drop n xs)) = length xs \<longleftrightarrow> dropWhile P (drop n xs) = []"
  by (metis add.commute diff_add_inverse2 drop_takeWhile_length drop_eq_Nil
      le_add_diff_inverse length_drop length_takeWhile_le nle_le)

text \<open>The first half of the inner loop, up to the end of the item name.\<close>

lemma fmt_scan_first:
  assumes "i + 1 < length pat" and m: "m = i + 1 + length (takeWhile name_char (drop (i + 1) pat))"
  shows "fmt_scan pat i (i + 1) 0 0 [] [] =
     (let nm = takeWhile name_char (drop (i + 1) pat)
      in if m = length pat then (m, 0, nm, [])
         else if pat ! m = CHR ''{'' then fmt_scan pat i (m + 1) 1 m nm []
         else (m, 0, nm, []))"
proof -
  have nm: "substr pat (i + 1) (m - i - 1) = takeWhile name_char (drop (i + 1) pat)"
    by (simp add: m substr_def take_takeWhile_length)
  show ?thesis
    using fmt_scan_name [of i "i + 1" pat 0 "[]", unfolded Let_def, folded m] assms(1)
    unfolding nm Let_def by simp
qed

text \<open>The three ways the inner loop ends.\<close>

lemma fmt_scan_plain:
  assumes "i < length pat" "s = drop (i + 1) pat" "take 1 (dropWhile name_char s) \<noteq> ''{''"
  shows "\<exists>m. fmt_scan pat i (i + 1) 0 0 [] [] = (m, 0, takeWhile name_char s, []) \<and> i < m \<and>
    drop m pat = dropWhile name_char s"
proof (cases "i + 1 < length pat")
  case False
  then show ?thesis using assms by (subst fmt_scan.simps) simp
next
  case True
  define m where "m = i + 1 + length (takeWhile name_char (drop (i + 1) pat))"
  have d: "drop m pat = dropWhile name_char s"
    unfolding m_def assms(2) by (rule drop_add_takeWhile)
  have "m < length pat \<Longrightarrow> pat ! m \<noteq> CHR ''{''"
    using assms(3) by (simp add: drop_Suc_eq flip: d)
  moreover have "m \<le> length pat"
    using True length_takeWhile_le [of name_char "drop (i + 1) pat"] by (simp add: m_def)
  ultimately have "fmt_scan pat i (i + 1) 0 0 [] [] = (m, 0, takeWhile name_char s, [])"
    by (simp only: fmt_scan_first [OF True m_def] assms(2) Let_def) (cases "m = length pat"; simp)
  then show ?thesis using d by (auto simp: m_def)
qed

lemma fmt_scan_open:
  assumes "i < length pat" "s = drop (i + 1) pat" "take 1 (dropWhile name_char s) = ''{''"
  obtains m where "fmt_scan pat i (i + 1) 0 0 [] [] =
      fmt_scan pat i (m + 1) 1 m (takeWhile name_char s) []"
    and "i < m" "m < length pat" "drop (m + 1) pat = tl (dropWhile name_char s)"
proof -
  define m where "m = i + 1 + length (takeWhile name_char (drop (i + 1) pat))"
  have d: "drop m pat = dropWhile name_char s"
    unfolding m_def assms(2) by (rule drop_add_takeWhile)
  have m: "m < length pat" "pat ! m = CHR ''{''"
    using assms(3) by (cases "m < length pat"; simp add: drop_Suc_eq flip: d)+
  then have "i + 1 < length pat" by (simp add: m_def)
  then have "fmt_scan pat i (i + 1) 0 0 [] [] =
      fmt_scan pat i (m + 1) 1 m (takeWhile name_char s) []"
    using m by (simp only: fmt_scan_first [OF _ m_def] assms(2) Let_def) simp
  moreover have "drop (m + 1) pat = tl (dropWhile name_char s)"
    by (metis Suc_eq_plus1 d drop_Suc tl_drop)
  moreover have "i < m" by (simp add: m_def)
  ultimately show ?thesis using that m(1) by blast
qed

lemma fmt_scan_closed:
  assumes "i < length pat" "s = drop (i + 1) pat" "take 1 (dropWhile name_char s) = ''{''"
    and "CHR ''}'' \<in> set (dropWhile name_char s)"
  shows "\<exists>m. fmt_scan pat i (i + 1) 0 0 [] [] =
      (m, 0, takeWhile name_char s, takeWhile (\<lambda>c. c \<noteq> CHR ''}'') (tl (dropWhile name_char s))) \<and>
      i < m \<and> drop m pat = tl (dropWhile (\<lambda>c. c \<noteq> CHR ''}'') (tl (dropWhile name_char s)))"
proof -
  let ?nb = "\<lambda>c. c \<noteq> CHR ''}''"
  from assms(1-3) obtain k where k: "fmt_scan pat i (i + 1) 0 0 [] [] =
      fmt_scan pat i (k + 1) 1 k (takeWhile name_char s) []"
    "i < k" "k < length pat" "drop (k + 1) pat = tl (dropWhile name_char s)"
    by (rule fmt_scan_open)
  define m where "m = k + 1 + length (takeWhile ?nb (drop (k + 1) pat))"
  have "CHR ''}'' \<in> set (drop (k + 1) pat)"
    using assms(3,4) k(4) by (cases "dropWhile name_char s") auto
  then have ne: "dropWhile ?nb (drop (k + 1) pat) \<noteq> []" by simp
  then have "m \<noteq> length pat"
    using takeWhile_end [of "k + 1" pat ?nb] k(3) by (simp add: m_def)
  then have "fmt_scan pat i (k + 1) 1 k (takeWhile name_char s) [] =
      (m + 1, 0, takeWhile name_char s, substr pat (k + 1) (m - k - 1))"
    using fmt_scan_brace [of "k + 1" pat i k "takeWhile name_char s" "[]"] k(3)
    by (simp add: Let_def m_def)
  moreover have "substr pat (k + 1) (m - k - 1) = takeWhile ?nb (tl (dropWhile name_char s))"
    by (simp add: substr_def m_def take_takeWhile_length flip: k(4))
  moreover have "drop m pat = dropWhile ?nb (drop (k + 1) pat)"
    unfolding m_def by (rule drop_add_takeWhile)
  then have "drop (m + 1) pat = tl (dropWhile ?nb (tl (dropWhile name_char s)))"
    by (metis Suc_eq_plus1 drop_Suc tl_drop k(4))
  ultimately show ?thesis using k(1,2) by (intro exI [of _ "m + 1"]) (simp add: m_def)
qed

lemma fmt_scan_unclosed:
  assumes "i < length pat" "s = drop (i + 1) pat" "take 1 (dropWhile name_char s) = ''{''"
    and "CHR ''}'' \<notin> set (dropWhile name_char s)"
  shows "\<exists>m str. fmt_scan pat i (i + 1) 0 0 [] [] = (m, 1, str, [])"
proof -
  let ?nb = "\<lambda>c. c \<noteq> CHR ''}''"
  from assms(1-3) obtain k where k: "fmt_scan pat i (i + 1) 0 0 [] [] =
      fmt_scan pat i (k + 1) 1 k (takeWhile name_char s) []"
    "i < k" "k < length pat" "drop (k + 1) pat = tl (dropWhile name_char s)"
    by (rule fmt_scan_open)
  have "CHR ''}'' \<notin> set (drop (k + 1) pat)"
    using assms(4) k(4) by (metis list.set_sel(2) tl_Nil)
  then have "dropWhile ?nb (drop (k + 1) pat) = []" by (intro dropWhile_all) auto
  then have "k + 1 + length (takeWhile ?nb (drop (k + 1) pat)) = length pat"
    using takeWhile_end [of "k + 1" pat ?nb] k(3) by simp
  then show ?thesis
    using fmt_scan_brace [of "k + 1" pat i k "takeWhile name_char s" "[]"] k(1,3)
    by (auto simp: Let_def)
qed

text \<open>The outer loop, one equation for each way its body runs.\<close>

lemma fmt_parse_done:
  "\<not> i < length pat \<Longrightarrow> fmt_parse pat i nstr vec err out = (vec @ flush nstr, err, out)"
  by (subst fmt_parse.simps) simp

lemma fmt_parse_literal:
  "i < length pat \<Longrightarrow> pat ! i \<noteq> CHR ''%'' \<Longrightarrow>
   fmt_parse pat i nstr vec err out = fmt_parse pat (i + 1) (nstr @ [pat ! i]) vec err out"
  by (subst fmt_parse.simps) simp

lemma next_percent:
  "(i + 1 < length pat \<and> pat ! (i + 1) = CHR ''%'') \<longleftrightarrow> take 1 (drop (i + 1) pat) = ''%''"
  by (cases "i + 1 < length pat") (auto simp: drop_Suc_eq)

lemma fmt_parse_escape:
  "i < length pat \<Longrightarrow> pat ! i = CHR ''%'' \<Longrightarrow> take 1 (drop (i + 1) pat) = ''%'' \<Longrightarrow>
   fmt_parse pat i nstr vec err out = fmt_parse pat (i + 1) (nstr @ ''%'') vec err out"
  by (subst fmt_parse.simps, unfold next_percent) simp

lemma fmt_parse_item:
  "i < length pat \<Longrightarrow> pat ! i = CHR ''%'' \<Longrightarrow> take 1 (drop (i + 1) pat) \<noteq> ''%'' \<Longrightarrow>
   fmt_scan pat i (i + 1) 0 0 [] [] = (m, 0, str, fmt) \<Longrightarrow> i < m \<Longrightarrow>
   fmt_parse pat i nstr vec err out = fmt_parse pat m [] (vec @ flush nstr @ [(str, fmt, 1)]) err out"
  by (subst fmt_parse.simps, unfold next_percent) simp

lemma fmt_parse_error:
  "i < length pat \<Longrightarrow> pat ! i = CHR ''%'' \<Longrightarrow> take 1 (drop (i + 1) pat) \<noteq> ''%'' \<Longrightarrow>
   fmt_scan pat i (i + 1) 0 0 [] [] = (m, 1, str, fmt) \<Longrightarrow>
   \<exists>out'. fmt_parse pat i nstr vec err out =
     fmt_parse pat (i + 1) nstr (vec @ [(''<<pattern_error>>'', fmt, 0)]) True out'"
  by (subst fmt_parse.simps, unfold next_percent) auto

lemma fmt_parse_spec:
  "\<exists>out'. fmt_parse pat i nstr vec err out =
     (vec @ fst (spec_parse nstr (drop i pat)), err \<or> snd (spec_parse nstr (drop i pat)), out')"
proof (induction "length pat - i" arbitrary: i nstr vec err out rule: less_induct)
  case less
  show ?case
  proof (cases "i < length pat")
    case False
    then show ?thesis by (simp add: fmt_parse_done)
  next
    case True
    define s where "s = drop (i + 1) pat"
    have d: "drop i pat = pat ! i # s" using True by (simp add: s_def drop_Suc_eq)
    have IH: "i < j \<Longrightarrow> \<exists>out'. fmt_parse pat j nstr vec err out =
     (vec @ fst (spec_parse nstr (drop j pat)), err \<or> snd (spec_parse nstr (drop j pat)), out')"
      for j nstr vec err out using less True by simp
    consider (lit) "pat ! i \<noteq> CHR ''%''"
      | (esc) "pat ! i = CHR ''%''" "take 1 s = ''%''"
      | (plain) "pat ! i = CHR ''%''" "take 1 s \<noteq> ''%''" "take 1 (dropWhile name_char s) \<noteq> ''{''"
      | (closed) "pat ! i = CHR ''%''" "take 1 s \<noteq> ''%''" "take 1 (dropWhile name_char s) = ''{''"
          "CHR ''}'' \<in> set (dropWhile name_char s)"
      | (unclosed) "pat ! i = CHR ''%''" "take 1 s \<noteq> ''%''" "take 1 (dropWhile name_char s) = ''{''"
          "CHR ''}'' \<notin> set (dropWhile name_char s)"
      by blast
    then show ?thesis
    proof cases
      case lit
      show ?thesis using IH [of "i + 1" "nstr @ [pat ! i]" vec err out] lit
        by (simp only: fmt_parse_literal [OF True lit] d flip: s_def) (simp add: spec_parse.simps(2))
    next
      case esc
      show ?thesis using IH [of "i + 1" "nstr @ ''%''" vec err out] esc
        by (simp only: fmt_parse_escape [OF True esc(1) esc(2) [unfolded s_def]] d flip: s_def)
          (simp add: spec_parse.simps(2))
    next
      case plain
      obtain m where m: "fmt_scan pat i (i + 1) 0 0 [] [] = (m, 0, takeWhile name_char s, [])"
        "i < m" "drop m pat = dropWhile name_char s"
        using fmt_scan_plain [OF True s_def plain(3)] by blast
      show ?thesis
        using IH [of m "[]" "vec @ flush nstr @ [(takeWhile name_char s, [], 1)]" err out] plain m(2,3)
        by (simp only: fmt_parse_item [OF True plain(1) plain(2) [unfolded s_def] m(1,2)] d)
          (simp add: spec_parse.simps(2))
    next
      case closed
      let ?f = "takeWhile (\<lambda>c. c \<noteq> CHR ''}'') (tl (dropWhile name_char s))"
      obtain m where m: "fmt_scan pat i (i + 1) 0 0 [] [] = (m, 0, takeWhile name_char s, ?f)"
        "i < m" "drop m pat = tl (dropWhile (\<lambda>c. c \<noteq> CHR ''}'') (tl (dropWhile name_char s)))"
        using fmt_scan_closed [OF True s_def closed(3,4)] by blast
      show ?thesis
        using IH [of m "[]" "vec @ flush nstr @ [(takeWhile name_char s, ?f, 1)]" err out] closed m(2,3)
        by (simp only: fmt_parse_item [OF True closed(1) closed(2) [unfolded s_def] m(1,2)] d)
          (simp add: spec_parse.simps(2))
    next
      case unclosed
      obtain m str where "fmt_scan pat i (i + 1) 0 0 [] [] = (m, 1, str, [])"
        using fmt_scan_unclosed [OF True s_def unclosed(3,4)] by blast
      from fmt_parse_error [OF True unclosed(1) unclosed(2) [unfolded s_def] this, of nstr vec err out]
      obtain out' where e: "fmt_parse pat i nstr vec err out =
          fmt_parse pat (i + 1) nstr (vec @ [(''<<pattern_error>>'', [], 0)]) True out'" ..
      show ?thesis
        using IH [of "i + 1" nstr "vec @ [(''<<pattern_error>>'', [], 0)]" True out'] unclosed
        by (simp only: e d flip: s_def) (simp add: spec_parse.simps(2))
    qed
  qed
qed

section \<open>A grammar of patterns\<close>

text \<open>
  The patterns the parser is meant for: literal text without percent signs, items and items
  with a format.  \<open>render\<close> writes such a sequence as a pattern.
\<close>

datatype seg = Lit string | Item string | ItemFmt string string

fun render_seg :: "seg \<Rightarrow> string" where
  "render_seg (Lit s) = s"
| "render_seg (Item n) = CHR ''%'' # n"
| "render_seg (ItemFmt n f) = CHR ''%'' # n @ CHR ''{'' # f @ ''}''"

definition render :: "seg list \<Rightarrow> string" where
  "render ss = concat (map render_seg ss)"

fun seg_piece :: "seg \<Rightarrow> piece" where
  "seg_piece (Lit s) = (s, [], 0)"
| "seg_piece (Item n) = (n, [], 1)"
| "seg_piece (ItemFmt n f) = (n, f, 1)"

fun starts_text :: "seg list \<Rightarrow> bool" where
  "starts_text (Lit s # ss) = True"
| "starts_text _ = False"

fun ends_name :: "seg list \<Rightarrow> bool" where
  "ends_name (Lit (c # s) # ss) = (\<not> name_char c \<and> c \<noteq> CHR ''{'')"
| "ends_name _ = True"

fun wf_segs :: "seg list \<Rightarrow> bool" where
  "wf_segs [] = True"
| "wf_segs (Lit s # ss) =
     (s \<noteq> [] \<and> CHR ''%'' \<notin> set s \<and> \<not> starts_text ss \<and> wf_segs ss)"
| "wf_segs (Item n # ss) =
     (n \<noteq> [] \<and> list_all isalpha n \<and> ends_name ss \<and> wf_segs ss)"
| "wf_segs (ItemFmt n f # ss) =
     (n \<noteq> [] \<and> list_all isalpha n \<and> CHR ''}'' \<notin> set f \<and> wf_segs ss)"

lemma render_simps [simp]:
  "render [] = []" "render (x # ss) = render_seg x @ render ss"
  by (simp_all add: render_def)

lemma isalpha_not_special [simp]:
  "\<not> isalpha (CHR ''%'')" "\<not> isalpha (CHR ''{'')" "\<not> isalpha (CHR ''}'')"
  by (simp_all add: isalpha_def)

lemma name_char_not_special [simp]: "\<not> name_char (CHR ''%'')" "\<not> name_char (CHR ''{'')"
  by (simp_all add: name_char_def)

lemma spec_parse_literal:
  "CHR ''%'' \<notin> set s \<Longrightarrow> spec_parse nstr (s @ rest) = spec_parse (nstr @ s) rest"
  by (induction s arbitrary: nstr) (auto simp: spec_parse.simps(2))

lemma alpha_name:
  assumes "list_all isalpha n" "n \<noteq> []"
  shows "take 1 (n @ r) \<noteq> ''%''" and "\<forall>c\<in>set n. name_char c"
  using assms by (cases n; force simp: name_char_def list_all_iff)+

lemma take_drop_name:
  assumes "\<forall>c\<in>set n. name_char c" "\<forall>c\<in>set (take 1 r). \<not> name_char c"
  shows "takeWhile name_char (n @ r) = n" and "dropWhile name_char (n @ r) = r"
  using assms by (cases r; simp)+

lemma spec_parse_item:
  assumes n: "list_all isalpha n" "n \<noteq> []"
    and r: "\<forall>c\<in>set (take 1 r). \<not> name_char c" "take 1 r \<noteq> ''{''"
  shows "spec_parse nstr (CHR ''%'' # n @ r) = prepend (flush nstr @ [(n, [], 1)]) (spec_parse [] r)"
proof -
  have "\<forall>c\<in>set n. name_char c" using alpha_name(2) [OF n] .
  from take_drop_name [OF this r(1)] show ?thesis
    using alpha_name(1) [OF n, of r] r(2) by (simp add: spec_parse.simps(2))
qed

lemma spec_parse_item_fmt:
  assumes n: "list_all isalpha n" "n \<noteq> []" and f: "CHR ''}'' \<notin> set f"
  shows "spec_parse nstr (CHR ''%'' # n @ CHR ''{'' # f @ CHR ''}'' # r) =
    prepend (flush nstr @ [(n, f, 1)]) (spec_parse [] r)"
proof -
  let ?r = "CHR ''{'' # f @ CHR ''}'' # r" and ?nb = "\<lambda>c. c \<noteq> CHR ''}''"
  have "\<forall>c\<in>set n. name_char c" using alpha_name(2) [OF n] .
  moreover have "\<forall>c\<in>set (take 1 ?r). \<not> name_char c" by simp
  ultimately have "takeWhile name_char (n @ ?r) = n" "dropWhile name_char (n @ ?r) = ?r"
    by (rule take_drop_name)+
  moreover have "takeWhile ?nb (f @ CHR ''}'' # r) = f" "dropWhile ?nb (f @ CHR ''}'' # r) = CHR ''}'' # r"
    using f by (auto intro!: takeWhile_append_stop dropWhile_append_stop)
  ultimately show ?thesis
    using alpha_name(1) [OF n, of ?r] by (simp add: spec_parse.simps(2))
qed

lemma render_after_item:
  assumes "wf_segs ss" "ends_name ss"
  shows "\<forall>c\<in>set (take 1 (render ss)). \<not> name_char c" "take 1 (render ss) \<noteq> ''{''"
  using assms by (cases ss rule: ends_name.cases; simp)+

lemma spec_parse_render:
  "wf_segs ss \<Longrightarrow> nstr = [] \<or> \<not> starts_text ss \<Longrightarrow>
   spec_parse nstr (render ss) = (flush nstr @ map seg_piece ss, False)"
proof (induction ss arbitrary: nstr rule: wf_segs.induct)
  case 1
  then show ?case by simp
next
  case (2 s ss)
  then have "nstr = []" by simp
  then show ?case using 2 by (simp add: spec_parse_literal) (simp add: flush_def)
next
  case (3 n ss)
  then show ?case using render_after_item [of ss]
    by (simp add: spec_parse_item prepend_def) (simp add: flush_def)
next
  case (4 n f ss)
  then show ?case by (simp add: spec_parse_item_fmt prepend_def) (simp add: flush_def)
qed

section \<open>What the constructor builds\<close>

lemma mk_formatter_spec:
  "mk_formatter pat =
     \<lparr>fm_pattern = pat, fm_items = map (fst \<circ> piece_item) (fst (spec_parse [] pat)),
      fm_error = (snd (spec_parse [] pat) \<or> (\<exists>p\<in>set (fst (spec_parse [] pat)). snd (piece_item p)))\<rparr>"
proof -
  obtain out where "fmt_parse pat 0 [] [] False [] = (fst (spec_parse [] pat), snd (spec_parse [] pat), out)"
    using fmt_parse_spec [of pat 0 "[]" "[]" False "[]"] by auto
  then show ?thesis by (simp add: mk_formatter_def)
qed

lemma mk_formatter_pattern [simp]: "fm_pattern (mk_formatter pat) = pat"
  by (simp add: mk_formatter_spec)

fun seg_item :: "seg \<Rightarrow> fmt_item" where
  "seg_item (Lit s) = StringItem s"
| "seg_item (Item n) =
     (case format_items n of Some mk \<Rightarrow> mk [] | None \<Rightarrow> StringItem (''<<error_format %'' @ n @ ''>>''))"
| "seg_item (ItemFmt n f) =
     (case format_items n of Some mk \<Rightarrow> mk f | None \<Rightarrow> StringItem (''<<error_format %'' @ n @ ''>>''))"

fun seg_known :: "seg \<Rightarrow> bool" where
  "seg_known (Lit s) = True"
| "seg_known (Item n) = (format_items n \<noteq> None)"
| "seg_known (ItemFmt n f) = (format_items n \<noteq> None)"

lemma piece_item_seg: "piece_item (seg_piece x) = (seg_item x, \<not> seg_known x)"
  by (cases x) (auto split: option.splits)

text \<open>C1. Parsing inverts printing: for every sequence of literal texts, items and items with
  a format, the formatter built from its printed pattern has exactly the items of the
  sequence, in order, and reports an error exactly when an item name is not in the table.\<close>

theorem mk_formatter_render:
  assumes "wf_segs ss"
  shows "mk_formatter (render ss) =
    \<lparr>fm_pattern = render ss, fm_items = map seg_item ss, fm_error = (\<not> list_all seg_known ss)\<rparr>"
  using spec_parse_render [OF assms, of "[]"]
  by (auto simp: mk_formatter_spec piece_item_seg flush_def list_all_iff)

definition default_segs :: "seg list" where
  "default_segs =
     [ItemFmt ''d'' ''%Y-%m-%d %H:%M:%S'', Item ''T'', Item ''t'', Item ''T'', Item ''N'', Item ''T'',
      Item ''F'', Item ''T'', Lit ''['', Item ''p'', Lit '']'', Item ''T'', Lit ''['', Item ''c'',
      Lit '']'', Item ''T'', Item ''f'', Lit '':'', Item ''l'', Item ''T'', Item ''m'', Item ''n'']"

theorem mk_formatter_render_witness:
  "wf_segs default_segs \<and> mk_formatter default_pattern =
    \<lparr>fm_pattern = default_pattern, fm_items = map seg_item default_segs, fm_error = False\<rparr>"
proof -
  have wf: "wf_segs default_segs"
    by (simp add: default_segs_def name_char_def isalpha_def)
  have r: "render default_segs = default_pattern"
    by (simp add: default_segs_def default_pattern_def)
  have k: "list_all seg_known default_segs"
    by (simp add: default_segs_def format_items_def)
  show ?thesis using mk_formatter_render [OF wf] wf k unfolding r by simp
qed

text \<open>C27. The two index loops of \<open>init\<close> compute what the recursion over the text says: same
  pieces, in the same order, same error flag, for every pattern.\<close>

theorem init_equiv_spec:
  "(fst (fmt_parse pat 0 [] [] False []), fst (snd (fmt_parse pat 0 [] [] False []))) = spec_parse [] pat"
proof -
  obtain out where "fmt_parse pat 0 [] [] False [] = (fst (spec_parse [] pat), snd (spec_parse [] pat), out)"
    using fmt_parse_spec [of pat 0 "[]" "[]" False "[]"] by auto
  then show ?thesis by simp
qed

text \<open>A doubled percent sign is not an escape: text that ends with one is reported as an
  error, since the second sign is read again as the start of an item with an empty name.\<close>

theorem double_percent_is_error:
  assumes "CHR ''%'' \<notin> set s"
  shows "mk_formatter (s @ ''%%'') =
    \<lparr>fm_pattern = s @ ''%%'',
     fm_items = [StringItem (s @ ''%''), StringItem ''<<error_format %>>''], fm_error = True\<rparr>"
  using spec_parse_literal [OF assms, of "[]" "''%%''"]
  by (simp add: mk_formatter_spec spec_parse.simps(2) flush_def format_items_def)

theorem double_percent_is_error_witness:
  "CHR ''%'' \<notin> set ''100'' \<and> fm_error (mk_formatter ''100%%'')"
  using double_percent_is_error [of "''100''"] by simp

text \<open>A format that is opened and never closed is an error, and the marker is placed before
  the text that precedes the item, not where the item stands.\<close>

theorem unclosed_format_is_error:
  assumes "CHR ''%'' \<notin> set s" "n \<noteq> []" "list_all isalpha n"
    and "CHR ''%'' \<notin> set t" "CHR ''}'' \<notin> set t"
  shows "mk_formatter (s @ ''%'' @ n @ ''{'' @ t) =
    \<lparr>fm_pattern = s @ ''%'' @ n @ ''{'' @ t,
     fm_items = [StringItem ''<<pattern_error>>'', StringItem (s @ n @ ''{'' @ t)], fm_error = True\<rparr>"
proof -
  have n: "\<forall>c\<in>set n. name_char c" using alpha_name(2) [OF assms(3,2)] .
  have tk: "take 1 (n @ CHR ''{'' # t) \<noteq> ''%''" using alpha_name(1) [OF assms(3,2)] .
  have dw: "dropWhile name_char (n @ CHR ''{'' # t) = CHR ''{'' # t"
    using take_drop_name(2) [OF n, of "CHR ''{'' # t"] by simp
  have np: "CHR ''%'' \<notin> set (n @ ''{'' @ t)"
    using assms(3,4) by (auto simp: list_all_iff)
  have "spec_parse [] (s @ ''%'' @ n @ ''{'' @ t) = spec_parse s (''%'' @ n @ ''{'' @ t)"
    using spec_parse_literal [OF assms(1), of "[]"] by simp
  also have "\<dots> = ((''<<pattern_error>>'', [], 0) # fst (spec_parse s (n @ ''{'' @ t)), True)"
    using tk dw assms(5) by (simp add: spec_parse.simps(2))
  also have "spec_parse s (n @ ''{'' @ t) = (flush (s @ n @ ''{'' @ t), False)"
    using spec_parse_literal [OF np, of s "[]"] by simp
  finally show ?thesis by (simp add: mk_formatter_spec flush_def)
qed

theorem unclosed_format_is_error_witness:
  "mk_formatter ''at %d{%'' \<noteq> mk_formatter ''at %d{'' \<and>
   fm_items (mk_formatter ''at %d{ab'') = [StringItem ''<<pattern_error>>'', StringItem ''at d{ab'']"
  using unclosed_format_is_error [of "''at ''" "''d''" "''ab''"]
  by (auto simp: isalpha_def dest: arg_cong [of _ _ fm_pattern])

section \<open>Rendering an event\<close>

fun item_text :: "(nat \<Rightarrow> string) \<Rightarrow> (string \<Rightarrow> u64 \<Rightarrow> string option) \<Rightarrow> level \<Rightarrow> log_event \<Rightarrow>
    fmt_item \<Rightarrow> string" where
  "item_text nm tm l e i = (case item_format nm tm l e i of Inl _ \<Rightarrow> [] | Inr s \<Rightarrow> s)"

definition date_fits :: "(string \<Rightarrow> u64 \<Rightarrow> string option) \<Rightarrow> log_event \<Rightarrow> fmt_item \<Rightarrow> bool" where
  "date_fits tm e i = (case i of DateTimeItem f \<Rightarrow> tm f (ev_time e) \<noteq> None | _ \<Rightarrow> True)"

lemma item_format_cases:
  "item_format nm tm l e i =
     (if date_fits tm e i then Inr (item_text nm tm l e i) else Inl Indeterminate)"
  by (cases i) (auto simp: date_fits_def split: option.splits)

lemma render_items:
  "rfold (\<lambda>i ss. rbind (item_format nm tm l e i) (\<lambda>t. Inr (ss @ t))) is acc =
     (if list_all (date_fits tm e) is then Inr (acc @ concat (map (item_text nm tm l e) is))
      else Inl Indeterminate)"
  by (induction "is" arbitrary: acc) (auto simp: item_format_cases simp del: item_text.simps)

text \<open>A formatter prints the texts of its items, in order, unless a date does not fit the
  64-byte buffer: then, and only then, it prints the contents of a buffer that was not
  written.\<close>

theorem formatter_format_spec:
  "formatter_format nm tm f l e =
     (if list_all (date_fits tm e) (fm_items f)
      then Inr (concat (map (item_text nm tm l e) (fm_items f))) else Inl Indeterminate)"
  by (simp add: formatter_format_def render_items del: item_text.simps)

lemma formatter_format_Inl: "formatter_format nm tm f l e = Inl x \<Longrightarrow> x = Indeterminate"
  by (simp add: formatter_format_def render_items del: item_text.simps split: if_splits)

text \<open>The line the default pattern produces: date, thread id, thread name, fiber id, level,
  logger name, file and line, message, separated by tabs and ended by a line feed.\<close>

theorem default_line:
  assumes "tm ''%Y-%m-%d %H:%M:%S'' (ev_time e) = Some date"
  shows "formatter_format nm tm (mk_formatter default_pattern) l e =
    Inr (date @ tab @ show_nat (unat (ev_thread_id e)) @ tab @ ev_thread_name e @ tab @
         show_nat (unat (ev_fiber_id e)) @ tab @ ''['' @ to_string l @ '']'' @ tab @
         ''['' @ nm (ev_logger e) @ '']'' @ tab @ ev_file e @ '':'' @ show_int (get_line e) @ tab @
         get_content e @ newline)"
proof -
  have wf: "wf_segs default_segs" and r: "render default_segs = default_pattern"
    by (simp_all add: default_segs_def name_char_def isalpha_def default_pattern_def)
  have "fm_items (mk_formatter (render default_segs)) = map seg_item default_segs"
    using spec_parse_render [OF wf, of "[]"]
    by (auto simp: mk_formatter_spec piece_item_seg flush_def)
  then show ?thesis using assms unfolding r
    by (simp add: formatter_format_def default_segs_def format_items_def mk_datetime_def)
qed

theorem default_line_witness:
  "formatter_format (\<lambda>_. ''root'') (\<lambda>_ _. Some ''now'') (mk_formatter default_pattern) INFO
     (ss_write ''hi'' (mk_event 0 INFO ''a.cpp'' 7 0 1 0 0 ''main'')) =
   Inr (''now'' @ tab @ show_nat 1 @ tab @ ''main'' @ tab @ show_nat 0 @ tab @ ''[INFO]'' @ tab @
     ''[root]'' @ tab @ ''a.cpp'' @ '':'' @ show_int 7 @ tab @ ''hi'' @ newline)"
  using default_line [of "\<lambda>_ _. Some ''now''" "ss_write ''hi'' (mk_event 0 INFO ''a.cpp'' 7 0 1 0 0 ''main'')"
     "''now''" "\<lambda>_. ''root''" INFO]
  by (simp add: mk_event_def ss_write_def get_line_def get_content_def)

text \<open>The elapsed time of an event is a \<open>uint32_t\<close> that is returned as an \<open>int32_t\<close>: from
  2147483648 milliseconds on, the item prints a negative number.\<close>

theorem elapse_prints_signed:
  "item_format nm tm l e ElapseItem =
     (if unat (ev_elapse e) < 2 ^ 31 then Inr (show_nat (unat (ev_elapse e)))
      else Inr (CHR ''-'' # show_nat (2 ^ 32 - unat (ev_elapse e))))"
proof -
  obtain k where k: "uint (ev_elapse e) = int k" "unat (ev_elapse e) = k" "k < 2 ^ 32"
    using unsigned_less [of "ev_elapse e"] that [of "unat (ev_elapse e)"] by simp
  show ?thesis
    using sint_u32 [of "ev_elapse e"] k
    by (auto simp: get_elapse_def show_int_def nat_diff_distrib)
qed

end
