(* ===== verification/Yaml.thy ===== *)
theory Yaml
  imports Prelude
begin

text \<open>
  The YAML values the program exchanges with yaml-cpp.  The library is not part of the
  repository: parsing (\<open>YAML::Load\<close>), printing (\<open>ss << node\<close>) and what its accessors do
  on a node of an unexpected kind are the operations of a parameter record.  A node is the
  value of one of the library's documented kinds; the accessors have their documented
  meaning on the kinds they are made for.
\<close>

datatype ynode =
    YUndefined
  | YNull
  | YScalar string
  | YSequence "ynode list"
  | YMap "(ynode \<times> ynode) list"

record yaml_lib =
  yl_load :: "string \<Rightarrow> exc + ynode"
  yl_emit :: "ynode \<Rightarrow> string"
  yl_as_string :: "ynode \<Rightarrow> exc + string"
  yl_field :: "ynode \<Rightarrow> string \<Rightarrow> exc + ynode"
  yl_index :: "ynode \<Rightarrow> nat \<Rightarrow> exc + ynode"
  yl_pairs :: "ynode \<Rightarrow> exc + (string \<times> ynode) list"

fun y_is_defined :: "ynode \<Rightarrow> bool" where
  "y_is_defined YUndefined = False"
| "y_is_defined _ = True"

fun y_is_scalar :: "ynode \<Rightarrow> bool" where
  "y_is_scalar (YScalar s) = True"
| "y_is_scalar _ = False"

text \<open>\<open>Scalar()\<close> of a node that is no scalar is the empty string.\<close>

fun y_scalar :: "ynode \<Rightarrow> string" where
  "y_scalar (YScalar s) = s"
| "y_scalar _ = []"

fun y_size :: "ynode \<Rightarrow> nat" where
  "y_size (YSequence ns) = length ns"
| "y_size (YMap kvs) = length kvs"
| "y_size _ = 0"

fun y_lookup :: "(ynode \<times> ynode) list \<Rightarrow> string \<Rightarrow> ynode" where
  "y_lookup [] k = YUndefined"
| "y_lookup ((a, b) # kvs) k = (if a = YScalar k then b else y_lookup kvs k)"

text \<open>\<open>node[key]\<close>, \<open>node[i]\<close>, \<open>as<std::string>()\<close>, and the pairs of an iteration over a map.\<close>

fun y_field :: "yaml_lib \<Rightarrow> ynode \<Rightarrow> string \<Rightarrow> exc + ynode" where
  "y_field lib (YMap kvs) k = Inr (y_lookup kvs k)"
| "y_field lib n k = yl_field lib n k"

fun y_index :: "yaml_lib \<Rightarrow> ynode \<Rightarrow> nat \<Rightarrow> exc + ynode" where
  "y_index lib (YSequence ns) i = (if i < length ns then Inr (ns ! i) else yl_index lib (YSequence ns) i)"
| "y_index lib n i = yl_index lib n i"

fun y_as_string :: "yaml_lib \<Rightarrow> ynode \<Rightarrow> exc + string" where
  "y_as_string lib (YScalar s) = Inr s"
| "y_as_string lib n = yl_as_string lib n"

fun y_pairs :: "yaml_lib \<Rightarrow> ynode \<Rightarrow> exc + (string \<times> ynode) list" where
  "y_pairs lib (YMap kvs) = Inr (map (\<lambda>(k, v). (y_scalar k, v)) kvs)"
| "y_pairs lib n = yl_pairs lib n"

text \<open>
  Building a node: \<open>node[key] = value\<close> and \<open>node.push_back(value)\<close> on a node that is fresh
  (null) or already of the right kind, as in every use of the sources.
\<close>

fun y_put :: "string \<Rightarrow> ynode \<Rightarrow> (ynode \<times> ynode) list \<Rightarrow> (ynode \<times> ynode) list" where
  "y_put k v [] = [(YScalar k, v)]"
| "y_put k v ((a, b) # kvs) = (if a = YScalar k then (a, v) # kvs else (a, b) # y_put k v kvs)"

fun y_set :: "string \<Rightarrow> ynode \<Rightarrow> ynode \<Rightarrow> ynode" where
  "y_set k v (YMap kvs) = YMap (y_put k v kvs)"
| "y_set k v n = YMap [(YScalar k, v)]"

fun y_push :: "ynode \<Rightarrow> ynode \<Rightarrow> ynode" where
  "y_push v (YSequence ns) = YSequence (ns @ [v])"
| "y_push v n = YSequence [v]"

text \<open>\<open>node[key].push_back(value)\<close>\<close>

fun y_push_field :: "string \<Rightarrow> ynode \<Rightarrow> ynode \<Rightarrow> ynode" where
  "y_push_field k v (YMap kvs) = YMap (y_put k (y_push v (y_lookup kvs k)) kvs)"
| "y_push_field k v n = YMap [(YScalar k, YSequence [v])]"

text \<open>A loop that pushes values one by one builds the sequence, or leaves the node null.\<close>

definition y_seq :: "ynode list \<Rightarrow> ynode" where
  "y_seq ns = (if ns = [] then YNull else YSequence ns)"

lemma y_push_seq: "y_push v (y_seq ms) = y_seq (ms @ [v])"
  by (simp add: y_seq_def)

lemma y_push_fold: "fold y_push ns (y_seq ms) = y_seq (ms @ ns)"
  by (induction ns arbitrary: ms) (simp_all add: y_push_seq)

lemma y_push_fold_Null: "fold y_push ns YNull = y_seq ns"
  using y_push_fold [of ns "[]"] by (simp add: y_seq_def)

lemma y_size_seq [simp]: "y_size (y_seq ns) = length ns"
  by (simp add: y_seq_def)

lemma y_index_seq: "i < length ns \<Longrightarrow> y_index lib (y_seq ns) i = Inr (ns ! i)"
  by (auto simp: y_seq_def)

lemma y_lookup_put [simp]: "y_lookup (y_put k v kvs) k' = (if k' = k then v else y_lookup kvs k')"
  by (induction k v kvs rule: y_put.induct) auto

text \<open>A loop over a list that may throw, collecting the results.\<close>

fun collect :: "('a \<Rightarrow> 'e + 'b) \<Rightarrow> 'a list \<Rightarrow> 'e + 'b list" where
  "collect f [] = Inr []"
| "collect f (x # xs) = rbind (f x) (\<lambda>y. rbind (collect f xs) (\<lambda>ys. Inr (y # ys)))"

lemma collect_Inr: "collect f xs = Inr ys \<longleftrightarrow> list_all2 (\<lambda>x y. f x = Inr y) xs ys"
  by (induction xs arbitrary: ys) (auto simp: list_all2_Cons1)

lemma collect_map_Inr: "(\<And>x. x \<in> set xs \<Longrightarrow> f x = Inr (g x)) \<Longrightarrow> collect f xs = Inr (map g xs)"
  by (induction xs) auto

lemma collect_map: "collect f (map g xs) = collect (f \<circ> g) xs"
  by (induction xs) auto

lemma collect_cong [fundef_cong]:
  "xs = ys \<Longrightarrow> (\<And>x. x \<in> set ys \<Longrightarrow> f x = g x) \<Longrightarrow> collect f xs = collect g ys"
proof (induction ys arbitrary: xs)
  case (Cons y ys)
  then have "collect f ys = collect g ys" by simp
  with Cons.prems show ?case by simp
qed simp

end
