(* ===== verification/Appenders.thy ===== *)
theory Appenders
  imports Formatter Yaml
begin

text \<open>
  The log appenders (\<open>class LogAppender\<close>, \<open>StdoutLogAppender\<close> and \<open>FileLogAppender\<close> of
  log.h and log.cpp) and the world they write to: the standard output and the files.  The
  spinlock of an appender is taken and released inside each operation and never held
  across a call that takes it again, so the operations are modelled as the critical
  sections they are.
\<close>

section \<open>The output file stream\<close>

text \<open>
  The two facts of a \<open>std::ofstream\<close> that decide what its operations do: whether the file
  buffer is open, and whether neither \<open>failbit\<close> nor \<open>badbit\<close> is set (\<open>bool(stream)\<close>).
\<close>

record fstream =
  fs_open :: bool
  fs_ok :: bool

definition fs_init :: fstream where
  "fs_init = \<lparr>fs_open = False, fs_ok = True\<rparr>"

text \<open>\<open>close()\<close> sets \<open>failbit\<close> when the buffer is not open.\<close>

definition fs_close :: "fstream \<Rightarrow> fstream" where
  "fs_close s = (if fs_open s then s\<lparr>fs_open := False\<rparr> else s\<lparr>fs_ok := False\<rparr>)"

text \<open>\<open>open(name, out | app)\<close> fails on a buffer that is open already and where the system
  cannot open the file; it clears the state when it succeeds and sets \<open>failbit\<close> otherwise.\<close>

definition fs_open_app :: "bool \<Rightarrow> fstream \<Rightarrow> fstream" where
  "fs_open_app can s =
     (if \<not> fs_open s \<and> can then \<lparr>fs_open = True, fs_ok = True\<rparr> else s\<lparr>fs_ok := False\<rparr>)"

text \<open>\<open>stream << text\<close>: whether the text reached the file, and the stream afterwards.\<close>

definition fs_write :: "bool \<Rightarrow> fstream \<Rightarrow> bool \<times> fstream" where
  "fs_write can s =
     (if fs_ok s \<and> fs_open s \<and> can then (True, s) else (False, s\<lparr>fs_ok := False\<rparr>))"

section \<open>Appenders\<close>

datatype appender_kind = StdoutLogAppender | FileLogAppender

text \<open>\<open>m_formatter\<close> is a pointer to an immutable object, so its value stands for it; \<open>None\<close>
  is the null pointer.  The last three fields belong to \<open>FileLogAppender\<close>.\<close>

record appender =
  ap_kind :: appender_kind
  ap_level :: level
  ap_formatter :: "formatter option"
  ap_hasFormatter :: bool
  ap_filename :: string
  ap_filestream :: fstream
  ap_lastTime :: u64

record logger =
  lg_name :: string
  lg_level :: level
  lg_appenders :: "addr list"
  lg_formatter :: "formatter option"
  lg_root :: "addr option"

text \<open>
  The state of the log component: the heaps of loggers and appenders, the logger manager's
  \<open>m_loggers\<close> and \<open>m_root\<close>, the text written to the standard output and to each file.
\<close>

record log_world =
  w_loggers :: "logger list"
  w_appenders :: "appender list"
  w_names :: "(string, addr) omap"
  w_root :: "addr option"
  w_stdout :: string
  w_files :: "string \<Rightarrow> string"

text \<open>
  The environment of an operation: the clock (\<open>time(0)\<close>), the date formatting of the C
  library, and whether the system opens and writes a file.
\<close>

record env =
  e_now :: u64
  e_strftime :: "string \<Rightarrow> u64 \<Rightarrow> string option"
  e_can_open :: "string \<Rightarrow> bool"
  e_can_write :: "string \<Rightarrow> bool"

definition set_appender :: "addr \<Rightarrow> appender \<Rightarrow> log_world \<Rightarrow> log_world" where
  "set_appender a ap w = w\<lparr>w_appenders := hset (w_appenders w) a ap\<rparr>"

definition print :: "string \<Rightarrow> log_world \<Rightarrow> log_world" where
  "print s w = w\<lparr>w_stdout := w_stdout w @ s\<rparr>"

definition write_file :: "string \<Rightarrow> string \<Rightarrow> log_world \<Rightarrow> log_world" where
  "write_file name s w = w\<lparr>w_files := (w_files w)(name := w_files w name @ s)\<rparr>"

definition name_of :: "log_world \<Rightarrow> addr \<Rightarrow> string" where
  "name_of w a = (case hget (w_loggers w) a of None \<Rightarrow> [] | Some l \<Rightarrow> lg_name l)"

text \<open>The members' initial values, for the two constructors.\<close>

definition mk_stdout_appender :: appender where
  "mk_stdout_appender =
     \<lparr>ap_kind = StdoutLogAppender, ap_level = DEBUG, ap_formatter = None, ap_hasFormatter = False,
      ap_filename = [], ap_filestream = fs_init, ap_lastTime = 0\<rparr>"

text \<open>\<open>FileLogAppender::reopen\<close>: the stream is closed only when it is in a good state.\<close>

definition reopen :: "env \<Rightarrow> appender \<Rightarrow> bool \<times> appender" where
  "reopen env ap =
     (let s = (if fs_ok (ap_filestream ap) then fs_close (ap_filestream ap) else ap_filestream ap);
          s' = fs_open_app (e_can_open env (ap_filename ap)) s
      in (fs_ok s', ap\<lparr>ap_filestream := s'\<rparr>))"

definition mk_file_appender :: "env \<Rightarrow> string \<Rightarrow> appender" where
  "mk_file_appender env filename =
     snd (reopen env
       \<lparr>ap_kind = FileLogAppender, ap_level = DEBUG, ap_formatter = None, ap_hasFormatter = False,
        ap_filename = filename, ap_filestream = fs_init, ap_lastTime = 0\<rparr>)"

text \<open>\<open>LogAppender::setFormatter\<close> and \<open>setLevel\<close>\<close>

definition appender_setFormatter :: "formatter option \<Rightarrow> appender \<Rightarrow> appender" where
  "appender_setFormatter val ap = ap\<lparr>ap_formatter := val, ap_hasFormatter := (val \<noteq> None)\<rparr>"

definition appender_setLevel :: "level \<Rightarrow> appender \<Rightarrow> appender" where
  "appender_setLevel level ap = ap\<lparr>ap_level := level\<rparr>"

text \<open>\<open>StdoutLogAppender::log\<close>\<close>

definition stdout_log :: "env \<Rightarrow> appender \<Rightarrow> level \<Rightarrow> log_event \<Rightarrow> log_world \<Rightarrow> fault + log_world" where
  "stdout_log env ap level event w =
     (if ap_level ap \<le> level then
        (case ap_formatter ap of
           None \<Rightarrow> Inl Null_deref
         | Some f \<Rightarrow> rbind (formatter_format (name_of w) (e_strftime env) f level event)
                      (\<lambda>s. Inr (print s w)))
      else Inr w)"

text \<open>\<open>FileLogAppender::log\<close>: the file is reopened when the second has changed; a write that
  fails is reported on the standard output.\<close>

definition file_log :: "env \<Rightarrow> addr \<Rightarrow> appender \<Rightarrow> level \<Rightarrow> log_event \<Rightarrow> log_world \<Rightarrow> fault + log_world" where
  "file_log env a ap level event w =
     (if ap_level ap \<le> level then
        let ap1 = (if e_now env \<noteq> ap_lastTime ap
                   then (snd (reopen env ap))\<lparr>ap_lastTime := e_now env\<rparr> else ap)
        in (case ap_formatter ap1 of
              None \<Rightarrow> Inl Null_deref
            | Some f \<Rightarrow>
                rbind (formatter_format (name_of w) (e_strftime env) f level event) (\<lambda>s.
                  (case fs_write (e_can_write env (ap_filename ap1)) (ap_filestream ap1) of
                     (True, fs) \<Rightarrow>
                       Inr (write_file (ap_filename ap1) s
                             (set_appender a (ap1\<lparr>ap_filestream := fs\<rparr>) w))
                   | (False, fs) \<Rightarrow>
                       Inr (print (''error'' @ newline)
                             (set_appender a (ap1\<lparr>ap_filestream := fs\<rparr>) w)))))
      else Inr w)"

text \<open>The virtual call \<open>appender->log(...)\<close> on the appender at an address.\<close>

definition appender_log :: "env \<Rightarrow> level \<Rightarrow> log_event \<Rightarrow> addr \<Rightarrow> log_world \<Rightarrow> fault + log_world" where
  "appender_log env level event a w =
     (case hget (w_appenders w) a of
        None \<Rightarrow> Inl Null_deref
      | Some ap \<Rightarrow>
          (case ap_kind ap of
             StdoutLogAppender \<Rightarrow> stdout_log env ap level event w
           | FileLogAppender \<Rightarrow> file_log env a ap level event w))"

text \<open>\<open>toYamlString\<close> of the two appenders\<close>

definition stdout_yaml :: "yaml_lib \<Rightarrow> appender \<Rightarrow> string" where
  "stdout_yaml lib ap =
     (let n1 = y_set ''type'' (YScalar ''StdoutLogAppender'') YNull;
          n2 = (if ap_level ap \<noteq> UNKNOW then y_set ''level'' (YScalar (to_string (ap_level ap))) n1 else n1);
          n3 = (case ap_formatter ap of
                  Some f \<Rightarrow> if ap_hasFormatter ap then y_set ''formatter'' (YScalar (fm_pattern f)) n2 else n2
                | None \<Rightarrow> n2)
      in yl_emit lib n3)"

definition file_yaml :: "yaml_lib \<Rightarrow> appender \<Rightarrow> string" where
  "file_yaml lib ap =
     (let n0 = y_set ''type'' (YScalar ''FileLogAppender'') YNull;
          n1 = y_set ''file'' (YScalar (ap_filename ap)) n0;
          n2 = (if ap_level ap \<noteq> UNKNOW then y_set ''level'' (YScalar (to_string (ap_level ap))) n1 else n1);
          n3 = (case ap_formatter ap of
                  Some f \<Rightarrow> if ap_hasFormatter ap then y_set ''formatter'' (YScalar (fm_pattern f)) n2 else n2
                | None \<Rightarrow> n2)
      in yl_emit lib n3)"

definition appender_yaml :: "yaml_lib \<Rightarrow> appender \<Rightarrow> string" where
  "appender_yaml lib ap =
     (case ap_kind ap of StdoutLogAppender \<Rightarrow> stdout_yaml lib ap | FileLogAppender \<Rightarrow> file_yaml lib ap)"

end
