(* ===== verification/Loggers.thy ===== *)
theory Loggers
  imports Appenders
begin

text \<open>
  Loggers and the logger manager (\<open>class Logger\<close>, \<open>class LoggerManager\<close>, \<open>LogEventWrap\<close>
  and the logging macros of log.h, their functions in log.cpp).
\<close>

section \<open>Operations of a logger\<close>

definition set_logger :: "addr \<Rightarrow> logger \<Rightarrow> log_world \<Rightarrow> log_world" where
  "set_logger a l w = w\<lparr>w_loggers := hset (w_loggers w) a l\<rparr>"

text \<open>\<open>Logger(name)\<close>\<close>

definition mk_logger :: "string \<Rightarrow> logger" where
  "mk_logger name =
     \<lparr>lg_name = name, lg_level = DEBUG, lg_appenders = [],
      lg_formatter = Some (mk_formatter default_pattern), lg_root = None\<rparr>"

definition new_logger :: "string \<Rightarrow> log_world \<Rightarrow> addr \<times> log_world" where
  "new_logger name w = (hfresh (w_loggers w), w\<lparr>w_loggers := halloc (w_loggers w) (mk_logger name)\<rparr>)"

definition new_appender :: "appender \<Rightarrow> log_world \<Rightarrow> addr \<times> log_world" where
  "new_appender ap w = (hfresh (w_appenders w), w\<lparr>w_appenders := halloc (w_appenders w) ap\<rparr>)"

text \<open>A method call through a pointer: a null or dangling pointer is a fault.\<close>

definition on_logger :: "addr \<Rightarrow> (logger \<Rightarrow> log_world \<Rightarrow> fault + log_world) \<Rightarrow> log_world \<Rightarrow> fault + log_world" where
  "on_logger a f w = (case hget (w_loggers w) a of None \<Rightarrow> Inl Null_deref | Some l \<Rightarrow> f l w)"

definition on_appender :: "addr \<Rightarrow> (appender \<Rightarrow> log_world \<Rightarrow> fault + log_world) \<Rightarrow> log_world \<Rightarrow> fault + log_world" where
  "on_appender a f w = (case hget (w_appenders w) a of None \<Rightarrow> Inl Null_deref | Some ap \<Rightarrow> f ap w)"

text \<open>\<open>addAppender\<close>: an appender without a formatter is given the logger's.\<close>

definition addAppender :: "addr \<Rightarrow> addr \<Rightarrow> log_world \<Rightarrow> fault + log_world" where
  "addAppender lg a =
     on_logger lg (\<lambda>l. on_appender a (\<lambda>ap w.
       let w1 = (if ap_formatter ap = None
                 then set_appender a (ap\<lparr>ap_formatter := lg_formatter l\<rparr>) w else w)
       in Inr (set_logger lg (l\<lparr>lg_appenders := lg_appenders l @ [a]\<rparr>) w1)))"

text \<open>\<open>delAppender\<close>: the first occurrence of the pointer is erased.\<close>

definition delAppender :: "addr \<Rightarrow> addr \<Rightarrow> log_world \<Rightarrow> fault + log_world" where
  "delAppender lg a =
     on_logger lg (\<lambda>l w. Inr (set_logger lg (l\<lparr>lg_appenders := remove1 a (lg_appenders l)\<rparr>) w))"

definition clearAppenders :: "addr \<Rightarrow> log_world \<Rightarrow> fault + log_world" where
  "clearAppenders lg = on_logger lg (\<lambda>l w. Inr (set_logger lg (l\<lparr>lg_appenders := []\<rparr>) w))"

definition logger_setLevel :: "addr \<Rightarrow> level \<Rightarrow> log_world \<Rightarrow> fault + log_world" where
  "logger_setLevel lg val = on_logger lg (\<lambda>l w. Inr (set_logger lg (l\<lparr>lg_level := val\<rparr>) w))"

text \<open>\<open>setFormatter(LogFormatter::ptr)\<close>: the appenders without a formatter of their own follow
  the logger.\<close>

definition inherit_formatter :: "formatter option \<Rightarrow> addr \<Rightarrow> log_world \<Rightarrow> fault + log_world" where
  "inherit_formatter val a =
     on_appender a (\<lambda>ap w.
       Inr (if \<not> ap_hasFormatter ap then set_appender a (ap\<lparr>ap_formatter := val\<rparr>) w else w))"

definition logger_setFormatter :: "addr \<Rightarrow> formatter option \<Rightarrow> log_world \<Rightarrow> fault + log_world" where
  "logger_setFormatter lg val =
     on_logger lg (\<lambda>l w.
       rfold (inherit_formatter val) (lg_appenders l) (set_logger lg (l\<lparr>lg_formatter := val\<rparr>) w))"

text \<open>\<open>setFormatter(const std::string&)\<close>: an invalid pattern is reported and changes nothing.\<close>

definition logger_setPattern :: "addr \<Rightarrow> string \<Rightarrow> log_world \<Rightarrow> fault + log_world" where
  "logger_setPattern lg val =
     on_logger lg (\<lambda>l w.
       let new_val = mk_formatter val; w1 = print (init_output val) w
       in if fm_error new_val then
            Inr (print (''Logger setFormatter name='' @ lg_name l @ '' value='' @ val @
                        '' invalid formatter'' @ newline) w1)
          else logger_setFormatter lg (Some new_val) w1)"

section \<open>Logging\<close>

text \<open>
  \<open>Logger::log\<close>.  The logger's spinlock is held while its appenders print, and also while
  the call is passed on to \<open>m_root\<close>; \<open>held\<close> are the loggers whose spinlock the calling
  thread holds, and taking one of them again never returns.
\<close>

function logger_log ::
  "env \<Rightarrow> addr list \<Rightarrow> addr \<Rightarrow> level \<Rightarrow> log_event \<Rightarrow> log_world \<Rightarrow> fault + log_world" where
  "logger_log env held lg level event w =
     (case hget (w_loggers w) lg of
        None \<Rightarrow> Inl Null_deref
      | Some l \<Rightarrow>
          if lg_level l \<le> level then
            if lg \<in> set held then Inl Self_deadlock
            else if lg_appenders l \<noteq> [] then rfold (appender_log env level event) (lg_appenders l) w
            else (case lg_root l of
                    None \<Rightarrow> Inl Null_deref
                  | Some r \<Rightarrow> logger_log env (lg # held) r level event w)
          else Inr w)"
  by pat_completeness auto
termination
proof (relation "measure (\<lambda>(env, held, lg, level, event, w). card ({..<length (w_loggers w)} - set held))",
    goal_cases)
  case 1
  show ?case by simp
next
  case (2 env held lg level event w l r)
  then have "lg \<in> {..<length (w_loggers w)} - set held" by (simp add: hget_Some_iff)
  then have "{..<length (w_loggers w)} - set (lg # held) \<subset> {..<length (w_loggers w)} - set held" by auto
  then show ?case by (simp add: psubset_card_mono)
qed

declare logger_log.simps [simp del]

text \<open>\<open>debug\<close>, \<open>info\<close>, \<open>warn\<close>, \<open>error\<close> and \<open>fatal\<close>\<close>

definition logger_debug :: "env \<Rightarrow> addr \<Rightarrow> log_event \<Rightarrow> log_world \<Rightarrow> fault + log_world" where
  "logger_debug env lg event = logger_log env [] lg DEBUG event"
definition logger_info :: "env \<Rightarrow> addr \<Rightarrow> log_event \<Rightarrow> log_world \<Rightarrow> fault + log_world" where
  "logger_info env lg event = logger_log env [] lg INFO event"
definition logger_warn :: "env \<Rightarrow> addr \<Rightarrow> log_event \<Rightarrow> log_world \<Rightarrow> fault + log_world" where
  "logger_warn env lg event = logger_log env [] lg WARN event"
definition logger_error :: "env \<Rightarrow> addr \<Rightarrow> log_event \<Rightarrow> log_world \<Rightarrow> fault + log_world" where
  "logger_error env lg event = logger_log env [] lg ERROR event"
definition logger_fatal :: "env \<Rightarrow> addr \<Rightarrow> log_event \<Rightarrow> log_world \<Rightarrow> fault + log_world" where
  "logger_fatal env lg event = logger_log env [] lg FATAL event"

text \<open>\<open>LogEventWrap::~LogEventWrap\<close>\<close>

definition wrap_dtor :: "env \<Rightarrow> log_event \<Rightarrow> log_world \<Rightarrow> fault + log_world" where
  "wrap_dtor env event = logger_log env [] (ev_logger event) (ev_level event) event"

text \<open>
  A logging statement, \<open>ATPDXY_LOG_LEVEL(logger, level) << text\<close>: below the logger's level
  nothing is built, otherwise the event is filled and logged by the wrapper's destructor.
  \<open>ctx\<close> makes the event of the statement's place and thread.
\<close>

definition log_stmt ::
  "env \<Rightarrow> (addr \<Rightarrow> level \<Rightarrow> log_event) \<Rightarrow> addr \<Rightarrow> level \<Rightarrow> string \<Rightarrow> log_world \<Rightarrow> fault + log_world" where
  "log_stmt env ctx lg level text =
     on_logger lg (\<lambda>l w.
       if lg_level l \<le> level then wrap_dtor env (ss_write text (ctx lg level)) w else Inr w)"

text \<open>\<open>ATPDXY_LOG_FMT_LEVEL(logger, level, fmt, ...)\<close>\<close>

definition log_fmt_stmt ::
  "env \<Rightarrow> (addr \<Rightarrow> level \<Rightarrow> log_event) \<Rightarrow> addr \<Rightarrow> level \<Rightarrow> string option \<Rightarrow> log_world \<Rightarrow> fault + log_world" where
  "log_fmt_stmt env ctx lg level vasprintf_result =
     on_logger lg (\<lambda>l w.
       if lg_level l \<le> level then wrap_dtor env (event_format vasprintf_result (ctx lg level)) w
       else Inr w)"

section \<open>The logger manager\<close>

text \<open>The constructor: the root logger with one appender on the standard output.\<close>

definition mgr_ctor :: "log_world \<Rightarrow> fault + log_world" where
  "mgr_ctor w =
     (let (r, w1) = new_logger ''root'' w;
          w2 = w1\<lparr>w_root := Some r\<rparr>;
          (a, w3) = new_appender mk_stdout_appender w2
      in rbind (addAppender r a w3)
           (\<lambda>w4. Inr (w4\<lparr>w_names := om_set (name_of w4 r) r (w_names w4)\<rparr>)))"

text \<open>\<open>LoggerManager::init\<close> has an empty body.\<close>

definition mgr_init :: "log_world \<Rightarrow> log_world" where
  "mgr_init w = w"

text \<open>\<open>getLogger\<close>: found by name, or created with \<open>m_root\<close> as its root.\<close>

definition getLogger :: "string \<Rightarrow> log_world \<Rightarrow> addr \<times> log_world" where
  "getLogger name w =
     (case om_find (w_names w) name of
        Some a \<Rightarrow> (a, w)
      | None \<Rightarrow>
          let (a, w1) = new_logger name w;
              w2 = set_logger a ((mk_logger name)\<lparr>lg_root := w_root w\<rparr>) w1
          in (a, w2\<lparr>w_names := om_set name a (w_names w2)\<rparr>))"

text \<open>\<open>Logger::toYamlString\<close> and \<open>LoggerManager::toYamlString\<close>\<close>

definition logger_yaml :: "yaml_lib \<Rightarrow> log_world \<Rightarrow> logger \<Rightarrow> exc + string" where
  "logger_yaml lib w l =
     (let n1 = y_set ''name'' (YScalar (lg_name l)) YNull;
          n2 = (if lg_level l \<noteq> UNKNOW then y_set ''level'' (YScalar (to_string (lg_level l))) n1 else n1);
          n3 = (case lg_formatter l of
                  Some f \<Rightarrow> y_set ''formatter'' (YScalar (fm_pattern f)) n2 | None \<Rightarrow> n2)
      in rbind (rfold (\<lambda>a n.
                  case hget (w_appenders w) a of
                    None \<Rightarrow> Inr n
                  | Some ap \<Rightarrow> rbind (yl_load lib (appender_yaml lib ap))
                                 (\<lambda>m. Inr (y_push_field ''appenders'' m n)))
                (lg_appenders l) n3)
           (\<lambda>n. Inr (yl_emit lib n)))"

definition mgr_yaml :: "yaml_lib \<Rightarrow> log_world \<Rightarrow> exc + string" where
  "mgr_yaml lib w =
     rbind (rfold (\<lambda>(name, a) n.
              case hget (w_loggers w) a of
                None \<Rightarrow> Inr n
              | Some l \<Rightarrow> rbind (logger_yaml lib w l)
                             (\<lambda>s. rbind (yl_load lib s) (\<lambda>m. Inr (y_push m n))))
            (w_names w) YNull)
       (\<lambda>n. Inr (yl_emit lib n))"

definition empty_world :: log_world where
  "empty_world =
     \<lparr>w_loggers = [], w_appenders = [], w_names = [], w_root = None, w_stdout = [], w_files = (\<lambda>_. [])\<rparr>"

end
