(* ===== verification/LoggerInvariants.thy ===== *)
theory LoggerInvariants
  imports Loggers
begin

text \<open>
  What the log component guarantees: logging leaves the configuration of loggers and
  appenders alone, the invariant of the logger manager holds in every state its interface
  can reach, and from it follow the outcomes of logging, of changing formatters, and of
  writing to a file whose stream has failed.
\<close>


section \<open>What the operations leave alone\<close>

lemmas world_defs = set_appender_def set_logger_def print_def write_file_def

lemma set_logger_simps [simp]:
  "w_loggers (set_logger a l w) = hset (w_loggers w) a l"
  "w_appenders (set_logger a l w) = w_appenders w" "w_names (set_logger a l w) = w_names w"
  "w_root (set_logger a l w) = w_root w" "w_stdout (set_logger a l w) = w_stdout w"
  "w_files (set_logger a l w) = w_files w"
  by (simp_all add: world_defs)

lemma set_appender_simps [simp]:
  "w_appenders (set_appender a ap w) = hset (w_appenders w) a ap"
  "w_loggers (set_appender a ap w) = w_loggers w" "w_names (set_appender a ap w) = w_names w"
  "w_root (set_appender a ap w) = w_root w" "w_stdout (set_appender a ap w) = w_stdout w"
  "w_files (set_appender a ap w) = w_files w"
  by (simp_all add: world_defs)

lemma print_simps [simp]:
  "w_loggers (print s w) = w_loggers w" "w_appenders (print s w) = w_appenders w"
  "w_names (print s w) = w_names w" "w_root (print s w) = w_root w"
  "w_stdout (print s w) = w_stdout w @ s" "w_files (print s w) = w_files w"
  by (simp_all add: world_defs)

lemma write_file_simps [simp]:
  "w_loggers (write_file n s w) = w_loggers w" "w_appenders (write_file n s w) = w_appenders w"
  "w_names (write_file n s w) = w_names w" "w_root (write_file n s w) = w_root w"
  "w_stdout (write_file n s w) = w_stdout w"
  "w_files (write_file n s w) = (w_files w)(n := w_files w n @ s)"
  by (simp_all add: world_defs)

text \<open>The parts of an appender that logging never changes.\<close>

definition ap_config :: "appender \<Rightarrow> appender_kind \<times> level \<times> formatter option \<times> bool \<times> string" where
  "ap_config ap = (ap_kind ap, ap_level ap, ap_formatter ap, ap_hasFormatter ap, ap_filename ap)"

lemma ap_config_simps [simp]:
  "ap_config (ap\<lparr>ap_filestream := s\<rparr>) = ap_config ap"
  "ap_config (ap\<lparr>ap_lastTime := t\<rparr>) = ap_config ap"
  by (simp_all add: ap_config_def)

lemma ap_config_reopen [simp]: "ap_config (snd (reopen env ap)) = ap_config ap"
  by (simp add: reopen_def Let_def)

definition same_config :: "log_world \<Rightarrow> log_world \<Rightarrow> bool" where
  "same_config w w' \<longleftrightarrow> w_loggers w' = w_loggers w \<and> w_names w' = w_names w \<and> w_root w' = w_root w \<and>
     map ap_config (w_appenders w') = map ap_config (w_appenders w)"

lemma same_config_refl [simp]: "same_config w w"
  by (simp add: same_config_def)

lemma same_config_trans: "same_config u v \<Longrightarrow> same_config v w \<Longrightarrow> same_config u w"
  by (simp add: same_config_def)

lemma same_config_print [simp]: "same_config w (print s v) = same_config w v"
  by (simp add: same_config_def)

lemma same_config_write [simp]: "same_config w (write_file n s v) = same_config w v"
  by (simp add: same_config_def)

lemma same_config_set_appender:
  "hget (w_appenders w) a = Some ap \<Longrightarrow> ap_config ap' = ap_config ap \<Longrightarrow>
   same_config w (set_appender a ap' w)"
  by (auto simp: same_config_def hset_def hget_Some_iff intro!: map_update_same)

lemma appender_log_same_config:
  "appender_log env level e a w = Inr w' \<Longrightarrow> same_config w w'"
  by (auto simp: appender_log_def stdout_log_def file_log_def Let_def intro!: same_config_set_appender
      split: option.splits appender_kind.splits if_splits prod.splits bool.splits)

interpretation printing: keeps "appender_log env level e" "same_config w" for env level e w
  by unfold_locales (rule same_config_trans, assumption, rule appender_log_same_config)

lemma appenders_log_same_config:
  "rfold (appender_log env level e) as w = Inr w' \<Longrightarrow> same_config w w'"
  by (rule printing.loop_keeps [OF _ same_config_refl])

lemma logger_log_same_config: "logger_log env held lg level e w = Inr w' \<Longrightarrow> same_config w w'"
proof (induction env held lg level e w rule: logger_log.induct)
  case (1 env held lg level event w)
  from "1.prems" show ?case
    by (subst (asm) logger_log.simps)
      (auto split: option.splits if_splits intro: appenders_log_same_config "1.IH")
qed

section \<open>The invariant of the logger manager\<close>

text \<open>
  The root logger exists, is registered and has no root of its own; every registered logger
  has the name it is registered under and, but for the root, the root as its \<open>m_root\<close>;
  every attached appender exists and has a formatter.
\<close>

definition names_inv :: "log_world \<Rightarrow> addr \<Rightarrow> bool" where
  "names_inv w r \<longleftrightarrow> r < length (w_loggers w) \<and> lg_root (w_loggers w ! r) = None \<and>
     om_find (w_names w) ''root'' = Some r \<and> om_sorted (w_names w) \<and>
     (\<forall>n a. om_find (w_names w) n = Some a \<longrightarrow> a < length (w_loggers w) \<and>
        lg_name (w_loggers w ! a) = n \<and> (a \<noteq> r \<longrightarrow> lg_root (w_loggers w ! a) = Some r))"

definition has_formatter :: "log_world \<Rightarrow> addr \<Rightarrow> bool" where
  "has_formatter w a \<longleftrightarrow> a < length (w_appenders w) \<and> ap_formatter (w_appenders w ! a) \<noteq> None"

definition ptrs_inv :: "log_world \<Rightarrow> bool" where
  "ptrs_inv w \<longleftrightarrow>
     (\<forall>l\<in>set (w_loggers w). lg_formatter l \<noteq> None \<and> (\<forall>a\<in>set (lg_appenders l). has_formatter w a))"

definition mgr_inv :: "log_world \<Rightarrow> bool" where
  "mgr_inv w \<longleftrightarrow> (\<exists>r. w_root w = Some r \<and> names_inv w r) \<and> ptrs_inv w"

lemma same_config_formatter:
  assumes "same_config w w'" shows "has_formatter w' a = has_formatter w a"
proof -
  have m: "map ap_config (w_appenders w') = map ap_config (w_appenders w)"
    using assms by (simp add: same_config_def)
  then have "length (w_appenders w') = length (w_appenders w)" by (metis length_map)
  moreover have "ap_config (w_appenders w' ! a) = ap_config (w_appenders w ! a)"
    if "a < length (w_appenders w)" using m calculation that by (metis nth_map)
  then have "ap_formatter (w_appenders w' ! a) = ap_formatter (w_appenders w ! a)"
    if "a < length (w_appenders w)" using that by (simp add: ap_config_def)
  ultimately show ?thesis unfolding has_formatter_def by metis
qed

lemma mgr_inv_same_config: "same_config w w' \<Longrightarrow> mgr_inv w' = mgr_inv w"
  by (simp add: mgr_inv_def names_inv_def ptrs_inv_def same_config_formatter)
    (simp add: same_config_def)

lemma has_formatter_set_logger [simp]: "has_formatter (set_logger lg l w) a = has_formatter w a"
  by (simp add: has_formatter_def)

lemma mgr_inv_set_logger:
  assumes inv: "mgr_inv w" and lg: "hget (w_loggers w) lg = Some l"
    and l': "lg_name l' = lg_name l" "lg_root l' = lg_root l" "lg_formatter l' \<noteq> None"
      "\<forall>a\<in>set (lg_appenders l'). has_formatter w a"
  shows "mgr_inv (set_logger lg l' w)"
proof -
  from inv obtain r where r: "w_root w = Some r" "names_inv w r" "ptrs_inv w"
    by (auto simp: mgr_inv_def)
  have "names_inv (set_logger lg l' w) r"
    using r(2) lg l'(1,2) by (auto simp: names_inv_def hset_def hget_Some_iff nth_list_update)
  moreover have "ptrs_inv (set_logger lg l' w)"
    using r(3) l'(3,4) set_update_subset_insert [of "w_loggers w" lg l']
    unfolding ptrs_inv_def by (auto simp: hset_def)
  ultimately show ?thesis using r(1) by (auto simp: mgr_inv_def)
qed

lemma mgr_inv_set_appender:
  assumes inv: "mgr_inv w" and "hget (w_appenders w) a = Some ap"
    and "ap_formatter ap \<noteq> None \<Longrightarrow> ap_formatter ap' \<noteq> None"
  shows "mgr_inv (set_appender a ap' w)"
proof -
  have "has_formatter w b \<Longrightarrow> has_formatter (set_appender a ap' w) b" for b
    using assms(2,3) by (auto simp: has_formatter_def hset_def hget_Some_iff nth_list_update)
  then show ?thesis using inv
    by (auto simp: mgr_inv_def names_inv_def ptrs_inv_def)
qed

lemma ptrs_invD: "ptrs_inv w \<Longrightarrow> hget (w_loggers w) lg = Some l \<Longrightarrow>
    lg_formatter l \<noteq> None \<and> (\<forall>a\<in>set (lg_appenders l). has_formatter w a)"
  by (auto simp: ptrs_inv_def hget_Some_iff)

lemma mgr_inv_ptrs: "mgr_inv w \<Longrightarrow> ptrs_inv w"
  by (simp add: mgr_inv_def)

lemma mgr_inv_new_appender: "mgr_inv w \<Longrightarrow> mgr_inv (snd (new_appender ap w))"
proof -
  have "has_formatter w b \<Longrightarrow> has_formatter (snd (new_appender ap w)) b" for b
    by (auto simp: has_formatter_def new_appender_def halloc_def nth_append)
  then show "mgr_inv w \<Longrightarrow> ?thesis"
    by (auto simp: mgr_inv_def names_inv_def ptrs_inv_def) (auto simp: new_appender_def)
qed

lemma mk_logger_simps [simp]:
  "lg_name (mk_logger n) = n" "lg_appenders (mk_logger n) = []"
  "lg_formatter (mk_logger n) = Some (mk_formatter default_pattern)"
  "lg_root (mk_logger n) = None" "lg_level (mk_logger n) = DEBUG"
  by (simp_all add: mk_logger_def)

lemma mgr_inv_new_logger: "mgr_inv w \<Longrightarrow> mgr_inv (snd (new_logger n w))"
  unfolding mgr_inv_def names_inv_def ptrs_inv_def has_formatter_def
  by (fastforce simp: new_logger_def halloc_def nth_append)

lemma on_logger_InrE [inversion]:
  assumes "on_logger lg f w = Inr w'"
  obtains l where "hget (w_loggers w) lg = Some l" "f l w = Inr w'"
  using assms by (auto simp: on_logger_def split: option.splits)

lemma on_appender_InrE [inversion]:
  assumes "on_appender a f w = Inr w'"
  obtains ap where "hget (w_appenders w) a = Some ap" "f ap w = Inr w'"
  using assms by (auto simp: on_appender_def split: option.splits)

lemma mgr_inv_addAppender:
  assumes inv: "mgr_inv w" and add: "addAppender lg a w = Inr w'"
  shows "mgr_inv w'"
proof -
  from add obtain l ap where l: "hget (w_loggers w) lg = Some l"
    and ap: "hget (w_appenders w) a = Some ap"
    and w': "w' = set_logger lg (l\<lparr>lg_appenders := lg_appenders l @ [a]\<rparr>)
       (if ap_formatter ap = None then set_appender a (ap\<lparr>ap_formatter := lg_formatter l\<rparr>) w else w)"
    by (auto simp: addAppender_def Let_def elim!: inversion)
  let ?w1 = "if ap_formatter ap = None then set_appender a (ap\<lparr>ap_formatter := lg_formatter l\<rparr>) w else w"
  have f: "lg_formatter l \<noteq> None" "\<forall>b\<in>set (lg_appenders l). has_formatter w b"
    using ptrs_invD [OF mgr_inv_ptrs [OF inv] l] by auto
  have inv1: "mgr_inv ?w1"
    using inv ap by (auto intro!: mgr_inv_set_appender)
  have hf: "has_formatter ?w1 a"
    using ap f(1) by (auto simp: has_formatter_def hget_Some_iff hset_def)
  have hb: "has_formatter w b \<Longrightarrow> has_formatter ?w1 b" for b
    using ap f(1) by (auto simp: has_formatter_def hget_Some_iff hset_def nth_list_update)
  show ?thesis unfolding w'
    using f hf hb l by (intro mgr_inv_set_logger [OF inv1, of lg l]) auto
qed

lemma mgr_inv_inherit:
  "mgr_inv w \<Longrightarrow> inherit_formatter (Some f) a w = Inr w' \<Longrightarrow> mgr_inv w'"
  by (auto simp: inherit_formatter_def split: if_splits elim!: inversion)
    (rule mgr_inv_set_appender; simp)

interpretation inheriting: keeps "inherit_formatter (Some f)" mgr_inv for f
  by unfold_locales (rule mgr_inv_inherit)

lemma mgr_inv_setFormatter:
  assumes inv: "mgr_inv w" and set: "logger_setFormatter lg (Some f) w = Inr w'"
  shows "mgr_inv w'"
proof -
  from set obtain l where l: "hget (w_loggers w) lg = Some l"
    and r: "rfold (inherit_formatter (Some f)) (lg_appenders l)
       (set_logger lg (l\<lparr>lg_formatter := Some f\<rparr>) w) = Inr w'"
    by (auto simp: logger_setFormatter_def elim!: inversion)
  have "mgr_inv (set_logger lg (l\<lparr>lg_formatter := Some f\<rparr>) w)"
    using ptrs_invD [OF mgr_inv_ptrs [OF inv] l] by (intro mgr_inv_set_logger [OF inv l]) auto
  then show ?thesis by (rule inheriting.loop_keeps [OF r])
qed


lemma mgr_inv_print [simp]: "mgr_inv (print s w) = mgr_inv w"
  by (rule mgr_inv_same_config) simp

lemma mgr_inv_setPattern:
  "mgr_inv w \<Longrightarrow> logger_setPattern lg p w = Inr w' \<Longrightarrow> mgr_inv w'"
  by (auto simp: logger_setPattern_def Let_def elim!: inversion split: if_splits)
    (rule mgr_inv_setFormatter; simp)

lemma mgr_inv_logger_update:
  assumes "mgr_inv w" "on_logger lg (\<lambda>l w. Inr (set_logger lg (f l) w)) w = Inr w'"
    and "\<And>l. lg_name (f l) = lg_name l \<and> lg_root (f l) = lg_root l \<and> lg_formatter (f l) = lg_formatter l \<and>
      set (lg_appenders (f l)) \<subseteq> set (lg_appenders l)"
  shows "mgr_inv w'"
proof -
  from assms(2) obtain l where l: "hget (w_loggers w) lg = Some l" and w': "w' = set_logger lg (f l) w"
    by (auto elim!: inversion)
  show ?thesis unfolding w'
    using assms(3) [of l] ptrs_invD [OF mgr_inv_ptrs [OF assms(1)] l]
    by (intro mgr_inv_set_logger [OF assms(1) l]) auto
qed

lemma mgr_inv_delAppender: "mgr_inv w \<Longrightarrow> delAppender lg a w = Inr w' \<Longrightarrow> mgr_inv w'"
  unfolding delAppender_def by (erule mgr_inv_logger_update) (auto dest: set_remove1_subset [THEN subsetD])

lemma mgr_inv_clearAppenders: "mgr_inv w \<Longrightarrow> clearAppenders lg w = Inr w' \<Longrightarrow> mgr_inv w'"
  unfolding clearAppenders_def by (erule mgr_inv_logger_update) auto

lemma mgr_inv_setLevel: "mgr_inv w \<Longrightarrow> logger_setLevel lg v w = Inr w' \<Longrightarrow> mgr_inv w'"
  unfolding logger_setLevel_def by (erule mgr_inv_logger_update) auto

lemma mgr_inv_log: "mgr_inv w \<Longrightarrow> logger_log env held lg level e w = Inr w' \<Longrightarrow> mgr_inv w'"
  using mgr_inv_same_config [OF logger_log_same_config] by blast

lemma getLogger_cases:
  "getLogger n w = (case om_find (w_names w) n of Some a \<Rightarrow> (a, w)
     | None \<Rightarrow> (length (w_loggers w), w\<lparr>w_loggers := w_loggers w @ [(mk_logger n)\<lparr>lg_root := w_root w\<rparr>],
         w_names := om_set n (length (w_loggers w)) (w_names w)\<rparr>))"
  by (auto simp: getLogger_def new_logger_def set_logger_def hset_def halloc_def hfresh_def Let_def
      split: option.splits)

lemma mgr_inv_getLogger: "mgr_inv w \<Longrightarrow> mgr_inv (snd (getLogger n w))"
  unfolding mgr_inv_def names_inv_def ptrs_inv_def has_formatter_def
  by (fastforce simp: getLogger_cases nth_append om_find_set om_sorted_set split: option.splits)

lemma mgr_inv_ctor:
  assumes "w_loggers w = []" "w_names w = []"
  shows "\<exists>w'. mgr_ctor w = Inr w' \<and> mgr_inv w'"
  using assms
  by (auto simp: mgr_ctor_def new_logger_def new_appender_def addAppender_def on_logger_def on_appender_def
      hget_def halloc_def hfresh_def hset_def Let_def name_of_def mgr_inv_def names_inv_def ptrs_inv_def
      has_formatter_def mk_stdout_appender_def)

section \<open>Every state the interface can reach\<close>

inductive log_step :: "log_world \<Rightarrow> log_world \<Rightarrow> bool" where
  step_getLogger: "log_step w (snd (getLogger n w))"
| step_new_logger: "log_step w (snd (new_logger n w))"
| step_new_stdout: "log_step w (snd (new_appender mk_stdout_appender w))"
| step_new_file: "log_step w (snd (new_appender (mk_file_appender env fn) w))"
| step_ap_formatter: "hget (w_appenders w) a = Some ap \<Longrightarrow>
    log_step w (set_appender a (appender_setFormatter (Some f) ap) w)"
| step_ap_level: "hget (w_appenders w) a = Some ap \<Longrightarrow>
    log_step w (set_appender a (appender_setLevel v ap) w)"
| step_add: "addAppender lg a w = Inr w' \<Longrightarrow> log_step w w'"
| step_del: "delAppender lg a w = Inr w' \<Longrightarrow> log_step w w'"
| step_clear: "clearAppenders lg w = Inr w' \<Longrightarrow> log_step w w'"
| step_level: "logger_setLevel lg v w = Inr w' \<Longrightarrow> log_step w w'"
| step_formatter: "logger_setFormatter lg (Some f) w = Inr w' \<Longrightarrow> log_step w w'"
| step_pattern: "logger_setPattern lg p w = Inr w' \<Longrightarrow> log_step w w'"
| step_log: "logger_log env [] lg level e w = Inr w' \<Longrightarrow> log_step w w'"

text \<open>The states after the manager was constructed and any sequence of calls returned.\<close>

inductive log_reachable :: "log_world \<Rightarrow> bool" where
  reach_ctor: "mgr_ctor empty_world = Inr w \<Longrightarrow> log_reachable w"
| reach_step: "log_reachable w \<Longrightarrow> log_step w w' \<Longrightarrow> log_reachable w'"

lemma mgr_inv_step: "log_step w w' \<Longrightarrow> mgr_inv w \<Longrightarrow> mgr_inv w'"
  by (induction rule: log_step.induct)
    (auto intro: mgr_inv_getLogger mgr_inv_new_logger mgr_inv_new_appender mgr_inv_addAppender
      mgr_inv_delAppender mgr_inv_clearAppenders mgr_inv_setLevel mgr_inv_setFormatter
      mgr_inv_setPattern mgr_inv_log
      intro!: mgr_inv_set_appender simp: appender_setFormatter_def appender_setLevel_def)

lemma reachable_inv: "log_reachable w \<Longrightarrow> mgr_inv w"
proof (induction rule: log_reachable.induct)
  case (reach_ctor w)
  then show ?case using mgr_inv_ctor [of empty_world] by (simp add: empty_world_def)
next
  case (reach_step w w')
  then show ?case by (blast intro: mgr_inv_step)
qed


section \<open>Concrete states for the witnesses\<close>

definition boot_world :: log_world where
  "boot_world = (case mgr_ctor empty_world of Inl _ \<Rightarrow> empty_world | Inr w \<Rightarrow> w)"

lemma boot_world_eq:
  "boot_world = \<lparr>w_loggers = [(mk_logger ''root'')\<lparr>lg_appenders := [0]\<rparr>],
     w_appenders = [mk_stdout_appender\<lparr>ap_formatter := Some (mk_formatter default_pattern)\<rparr>],
     w_names = [(''root'', 0)], w_root = Some 0, w_stdout = [], w_files = (\<lambda>_. [])\<rparr>"
  by (simp add: boot_world_def mgr_ctor_def empty_world_def new_logger_def new_appender_def addAppender_def
      on_logger_def on_appender_def hget_def halloc_def hfresh_def hset_def Let_def name_of_def
      set_logger_def set_appender_def mk_stdout_appender_def)

lemma boot_world_ctor: "mgr_ctor empty_world = Inr boot_world"
  using mgr_inv_ctor [of empty_world] by (auto simp: boot_world_def empty_world_def)

lemma boot_reachable: "log_reachable boot_world"
  by (rule reach_ctor [OF boot_world_ctor])

definition plain_env :: env where
  "plain_env = \<lparr>e_now = 5, e_strftime = (\<lambda>_ _. Some ''now''), e_can_open = (\<lambda>_. True),
     e_can_write = (\<lambda>_. True)\<rparr>"

definition bare_root_world :: log_world where
  "bare_root_world = set_logger 0 (mk_logger ''root'') boot_world"

lemma bare_root_reachable: "log_reachable bare_root_world"
proof (rule reach_step [OF boot_reachable])
  have "clearAppenders 0 boot_world = Inr bare_root_world"
    by (simp add: clearAppenders_def on_logger_def boot_world_eq bare_root_world_def hget_def mk_logger_def)
  then show "log_step boot_world bare_root_world" by (rule step_clear)
qed

section \<open>Properties\<close>



text \<open>\<open>getLogger\<close> returns a logger of the asked name, the same one on every call, and
  leaves every other registered logger as it was.\<close>

theorem getLogger_correct:
  assumes "log_reachable w" and "getLogger n w = (a, w')"
  shows "om_find (w_names w') n = Some a \<and> (\<exists>l. hget (w_loggers w') a = Some l \<and> lg_name l = n) \<and>
    getLogger n w' = (a, w') \<and>
    (\<forall>m b l. m \<noteq> n \<and> om_find (w_names w) m = Some b \<and> hget (w_loggers w) b = Some l \<longrightarrow>
       b \<noteq> a \<and> om_find (w_names w') m = Some b \<and> hget (w_loggers w') b = Some l)"
proof -
  have inv: "mgr_inv w" by (rule reachable_inv [OF assms(1)])
  then have nm: "om_find (w_names w) m = Some b \<Longrightarrow> b < length (w_loggers w) \<and> lg_name (w_loggers w ! b) = m" for m b
    by (auto simp: mgr_inv_def names_inv_def)
  show ?thesis
  proof (cases "om_find (w_names w) n")
    case (Some b)
    then have e: "a = b" "w' = w" using assms(2) by (auto simp: getLogger_cases)
    have "\<exists>l. hget (w_loggers w) b = Some l \<and> lg_name l = n"
      using nm [OF Some] by (simp add: hget_def)
    moreover have "c \<noteq> b" if "m \<noteq> n" "om_find (w_names w) m = Some c" for m c
      using nm [OF that(2)] nm [OF Some] that(1) by auto
    ultimately show ?thesis unfolding e using Some assms(2) e by auto
  next
    case None
    then have "a = length (w_loggers w)" and w': "w' = w\<lparr>w_loggers := w_loggers w @ [(mk_logger n)\<lparr>lg_root := w_root w\<rparr>],
         w_names := om_set n (length (w_loggers w)) (w_names w)\<rparr>"
      using assms(2) by (auto simp: getLogger_cases)
    then show ?thesis using nm by (auto simp: getLogger_cases om_find_set hget_def nth_append)
  qed
qed

theorem getLogger_correct_witness:
  "getLogger ''system'' boot_world = (1, snd (getLogger ''system'' boot_world)) \<and>
   om_find (w_names (snd (getLogger ''system'' boot_world))) ''system'' = Some 1"
proof -
  have g: "getLogger ''system'' boot_world = (1, snd (getLogger ''system'' boot_world))"
    by (simp add: getLogger_cases boot_world_eq)
  show ?thesis using getLogger_correct [OF boot_reachable g] g by simp
qed

definition dates_fit :: "env \<Rightarrow> bool" where
  "dates_fit env = (\<forall>f t. e_strftime env f t \<noteq> None)"

lemma formatter_format_total:
  "dates_fit env \<Longrightarrow> formatter_format nm (e_strftime env) f l e = Inr (concat (map (item_text nm (e_strftime env) l e) (fm_items f)))"
  by (auto simp: formatter_format_def render_items dates_fit_def date_fits_def list_all_iff
      simp del: item_text.simps split: fmt_item.splits)

lemma appender_log_total:
  "dates_fit env \<Longrightarrow> has_formatter w a \<Longrightarrow> \<exists>w'. appender_log env level e a w = Inr w'"
  by (auto simp: has_formatter_def appender_log_def hget_def stdout_log_def file_log_def Let_def
      formatter_format_total reopen_def split: appender_kind.splits prod.splits bool.splits option.splits)

lemma appenders_log_total:
  assumes "dates_fit env" "\<forall>a\<in>set as. has_formatter w a"
  shows "\<exists>w'. rfold (appender_log env level e) as w = Inr w'"
proof -
  have "\<exists>w'. rfold (appender_log env level e) as w = Inr w' \<and> same_config w w'"
  proof (rule rfold_total)
    fix a v assume "a \<in> set as" "same_config w v"
    then have "has_formatter v a" using assms(2) same_config_formatter by blast
    with assms(1) obtain v' where "appender_log env level e a v = Inr v'"
      using appender_log_total by blast
    with \<open>same_config w v\<close> show "\<exists>v'. appender_log env level e a v = Inr v' \<and> same_config w v'"
      by (blast intro: appender_log_same_config same_config_trans)
  qed simp
  then show ?thesis by blast
qed

lemma named_logger_inv:
  assumes "mgr_inv w" "om_find (w_names w) n = Some lg" "w_root w = Some r"
  shows "r < length (w_loggers w)" "lg_root (w_loggers w ! r) = None"
    "lg < length (w_loggers w)" "lg \<noteq> r \<Longrightarrow> lg_root (w_loggers w ! lg) = Some r" "ptrs_inv w"
  using assms by (auto simp: mgr_inv_def names_inv_def)

lemmas named_logger = named_logger_inv [OF reachable_inv]

lemma log_delegates_inv:
  assumes "mgr_inv w" "om_find (w_names w) n = Some lg" "w_root w = Some r" "lg \<noteq> r"
    and "lg_appenders (w_loggers w ! lg) = []" "lg_level (w_loggers w ! lg) \<le> level"
  shows "logger_log env [] lg level e w = logger_log env [] r level e w"
proof -
  note r = named_logger_inv [OF assms(1-3)]
  have "logger_log env [] lg level e w = logger_log env [lg] r level e w"
    using r assms(4-6) by (subst logger_log.simps) (simp add: hget_def)
  also have "\<dots> = logger_log env [] r level e w"
    using r assms(4) by (simp add: logger_log.simps [of _ _ r] hget_def)
  finally show ?thesis .
qed

lemma ptrs_inv_nth: "ptrs_inv w \<Longrightarrow> a < length (w_loggers w) \<Longrightarrow>
   \<forall>b\<in>set (lg_appenders (w_loggers w ! a)). has_formatter w b"
  by (auto simp: ptrs_inv_def)

lemma log_never_faults_inv:
  assumes "mgr_inv w" "om_find (w_names w) n = Some lg" "w_root w = Some r"
    and "lg_appenders (w_loggers w ! r) \<noteq> []" "dates_fit env"
  shows "\<exists>w'. logger_log env [] lg level e w = Inr w'"
proof -
  note r = named_logger_inv [OF assms(1-3)]
  have ap: "\<exists>w'. rfold (appender_log env level e) (lg_appenders (w_loggers w ! a)) w = Inr w'"
    if "a < length (w_loggers w)" for a
    using appenders_log_total [OF assms(5) ptrs_inv_nth [OF r(5) that]] .
  have root: "\<exists>w'. logger_log env held r level e w = Inr w'" if "r \<notin> set held" for held
    using that r(1) ap [OF r(1)] assms(4) by (subst logger_log.simps) (simp add: hget_def)
  show ?thesis
    using r ap [OF r(3)] root [of "[lg]"] root [of "[]"]
    by (cases "lg = r") (simp, subst logger_log.simps, auto simp: hget_def)
qed



text \<open>A registered logger without appenders hands the event to the root logger: the
  outcome is the one of logging to the root logger directly.\<close>

theorem log_delegates_to_root:
  assumes "log_reachable w" "om_find (w_names w) n = Some lg" "w_root w = Some r" "lg \<noteq> r"
    and "lg_appenders (w_loggers w ! lg) = []" "lg_level (w_loggers w ! lg) \<le> level"
  shows "logger_log env [] lg level e w = logger_log env [] r level e w"
  by (rule log_delegates_inv [OF reachable_inv [OF assms(1)] assms(2-6)])

definition system_world :: log_world where
  "system_world = snd (getLogger ''system'' boot_world)"

lemma system_world_eq:
  "system_world = boot_world
     \<lparr>w_loggers := w_loggers boot_world @ [(mk_logger ''system'')\<lparr>lg_root := Some 0\<rparr>],
      w_names := [(''root'', 0), (''system'', 1)]\<rparr>"
  by (simp add: system_world_def getLogger_cases boot_world_eq)

lemma system_reachable: "log_reachable system_world"
  unfolding system_world_def by (rule reach_step [OF boot_reachable step_getLogger])

theorem log_delegates_to_root_witness:
  "logger_log plain_env [] 1 INFO (mk_event 1 INFO ''f'' 1 0 0 0 0 ''t'') system_world =
   logger_log plain_env [] 0 INFO (mk_event 1 INFO ''f'' 1 0 0 0 0 ''t'') system_world"
  by (rule log_delegates_to_root [OF system_reachable, of "''system''" 1 0])
    (simp_all add: system_world_eq boot_world_eq less_eq_level_def)

text \<open>When the root logger has lost its appenders, an event that passes the levels ends in
  a call through the root logger's null \<open>m_root\<close>.\<close>

theorem root_without_appenders_faults:
  assumes "log_reachable w" "om_find (w_names w) n = Some lg" "w_root w = Some r"
    and "lg_appenders (w_loggers w ! lg) = []" "lg_appenders (w_loggers w ! r) = []"
    and "lg_level (w_loggers w ! lg) \<le> level" "lg_level (w_loggers w ! r) \<le> level"
  shows "logger_log env [] lg level e w = Inl Null_deref"
proof -
  note r = named_logger [OF assms(1-3)]
  have root: "logger_log env held r level e w = Inl Null_deref" if "r \<notin> set held" for held
    using r that assms(5,7) by (subst logger_log.simps) (simp add: hget_def)
  show ?thesis
    using r assms(4,6) root [of "[]"] root [of "[lg]"]
    by (cases "lg = r") (simp, subst logger_log.simps, simp add: hget_def)
qed

theorem root_without_appenders_faults_witness:
  "logger_log plain_env [] 0 INFO (mk_event 0 INFO ''f'' 1 0 0 0 0 ''t'') bare_root_world = Inl Null_deref"
  by (rule root_without_appenders_faults [OF bare_root_reachable, of "''root''" 0 0])
    (simp_all add: bare_root_world_def boot_world_eq set_logger_def hset_def mk_logger_def less_eq_level_def)

lemma print_Nil [simp]: "print [] w = w"
  by (simp add: print_def)

lemma print_print [simp]: "print t (print s w) = print (s @ t) w"
  by (simp add: print_def)

definition stdout_text :: "env \<Rightarrow> level \<Rightarrow> log_event \<Rightarrow> log_world \<Rightarrow> addr \<Rightarrow> string" where
  "stdout_text env level e w a =
     (case hget (w_appenders w) a of None \<Rightarrow> [] | Some ap \<Rightarrow>
        if ap_level ap \<le> level then
          (case ap_formatter ap of None \<Rightarrow> []
           | Some f \<Rightarrow> concat (map (item_text (name_of w) (e_strftime env) level e) (fm_items f)))
        else [])"

lemma name_of_print [simp]: "name_of (print s w) = name_of w"
  by (rule ext) (simp add: name_of_def)

lemma stdout_text_print [simp]: "stdout_text env level e (print s w) = stdout_text env level e w"
  by (rule ext) (simp add: stdout_text_def split: option.splits)

lemma has_formatter_print [simp]: "has_formatter (print s w) a = has_formatter w a"
  by (simp add: has_formatter_def)

lemma stdout_appender_log:
  "dates_fit env \<Longrightarrow> has_formatter w a \<Longrightarrow> ap_kind (w_appenders w ! a) = StdoutLogAppender \<Longrightarrow>
   appender_log env level e a w = Inr (print (stdout_text env level e w a) w)"
  by (auto simp: appender_log_def stdout_log_def has_formatter_def hget_def stdout_text_def
      formatter_format_total)

lemma stdout_appenders_log:
  assumes "dates_fit env"
    and "\<forall>a\<in>set as. has_formatter w a \<and> ap_kind (w_appenders w ! a) = StdoutLogAppender"
  shows "rfold (appender_log env level e) as w = Inr (print (concat (map (stdout_text env level e w) as)) w)"
  using assms(2) by (induction "as" arbitrary: w) (simp_all add: stdout_appender_log assms(1))

text \<open>C17. With appenders on the standard output, an event is printed once by each appender
  whose level it reaches, in the order of attachment, each time in that appender's format,
  and nothing else changes.\<close>

theorem log_prints_once_per_appender:
  assumes "log_reachable w" "hget (w_loggers w) lg = Some l" "lg_level l \<le> level"
    and "lg_appenders l \<noteq> []" "dates_fit env"
    and "\<forall>a\<in>set (lg_appenders l). ap_kind (w_appenders w ! a) = StdoutLogAppender"
  shows "logger_log env [] lg level e w =
    Inr (print (concat (map (stdout_text env level e w) (lg_appenders l))) w)"
proof -
  have "\<forall>a\<in>set (lg_appenders l). has_formatter w a"
    using ptrs_invD [OF mgr_inv_ptrs [OF reachable_inv [OF assms(1)]] assms(2)] by blast
  then show ?thesis using assms
    by (subst logger_log.simps) (simp add: stdout_appenders_log)
qed

theorem log_prints_once_per_appender_witness:
  "logger_log plain_env [] 0 INFO (mk_event 0 INFO ''f'' 1 0 0 0 0 ''t'') boot_world =
   Inr (print (stdout_text plain_env INFO (mk_event 0 INFO ''f'' 1 0 0 0 0 ''t'') boot_world 0) boot_world)"
  using log_prints_once_per_appender [OF boot_reachable, of 0 _ INFO plain_env "mk_event 0 INFO ''f'' 1 0 0 0 0 ''t''"]
  by (simp add: boot_world_eq hget_def mk_logger_def less_eq_level_def dates_fit_def plain_env_def mk_stdout_appender_def)


lemma inherit_formatter_eq:
  "a < length (w_appenders w) \<Longrightarrow> inherit_formatter val a w =
     Inr (if ap_hasFormatter (w_appenders w ! a) then w
          else set_appender a ((w_appenders w ! a)\<lparr>ap_formatter := val\<rparr>) w)"
  by (simp add: inherit_formatter_def on_appender_def hget_def)

lemma inherit_all:
  assumes "rfold (inherit_formatter val) as w = Inr w'"
  shows "length (w_appenders w') = length (w_appenders w) \<and> w_loggers w' = w_loggers w \<and>
    (\<forall>a < length (w_appenders w). w_appenders w' ! a =
       (if a \<in> set as \<and> \<not> ap_hasFormatter (w_appenders w ! a)
        then (w_appenders w ! a)\<lparr>ap_formatter := val\<rparr> else w_appenders w ! a))"
  using assms
proof (induction "as" arbitrary: w)
  case Nil
  then show ?case by simp
next
  case (Cons b bs)
  then obtain w1 where w1: "inherit_formatter val b w = Inr w1" "rfold (inherit_formatter val) bs w1 = Inr w'"
    by auto
  have b: "b < length (w_appenders w)"
    using w1(1) by (auto simp: inherit_formatter_def hget_Some_iff elim!: inversion)
  then have w1': "w1 = (if ap_hasFormatter (w_appenders w ! b) then w
          else set_appender b ((w_appenders w ! b)\<lparr>ap_formatter := val\<rparr>) w)"
    using w1(1) inherit_formatter_eq [OF b, of val] by simp
  show ?case using Cons.IH [OF w1(2)] b unfolding w1'
    by (auto simp: hset_def nth_list_update split: if_splits)
qed

text \<open>C32. Setting a logger's formatter reaches every attached appender that has no formatter of
  its own, and no other appender; only that logger changes.\<close>

theorem setFormatter_propagates:
  assumes "logger_setFormatter lg val w = Inr w'" "hget (w_loggers w) lg = Some l"
  shows "hget (w_loggers w') lg = Some (l\<lparr>lg_formatter := val\<rparr>) \<and>
    (\<forall>b. b \<noteq> lg \<longrightarrow> hget (w_loggers w') b = hget (w_loggers w) b) \<and>
    (\<forall>a ap. hget (w_appenders w) a = Some ap \<longrightarrow> hget (w_appenders w') a =
       Some (if a \<in> set (lg_appenders l) \<and> \<not> ap_hasFormatter ap then ap\<lparr>ap_formatter := val\<rparr> else ap))"
proof -
  let ?w1 = "set_logger lg (l\<lparr>lg_formatter := val\<rparr>) w"
  have r: "rfold (inherit_formatter val) (lg_appenders l) ?w1 = Inr w'"
    using assms by (simp add: logger_setFormatter_def on_logger_def)
  have lg: "lg < length (w_loggers w)" using assms(2) by (simp add: hget_Some_iff)
  show ?thesis using inherit_all [OF r] lg
    by (auto simp: hget_def hset_def)
qed

theorem setFormatter_propagates_witness:
  "logger_setFormatter 0 (Some (mk_formatter ''%m%n'')) boot_world =
     Inr (set_appender 0 (mk_stdout_appender\<lparr>ap_formatter := Some (mk_formatter ''%m%n'')\<rparr>)
            (set_logger 0 ((mk_logger ''root'')\<lparr>lg_appenders := [0], lg_formatter := Some (mk_formatter ''%m%n'')\<rparr>) boot_world)) \<and>
   hget (w_appenders (set_appender 0 (mk_stdout_appender\<lparr>ap_formatter := Some (mk_formatter ''%m%n'')\<rparr>)
            (set_logger 0 ((mk_logger ''root'')\<lparr>lg_appenders := [0], lg_formatter := Some (mk_formatter ''%m%n'')\<rparr>) boot_world))) 0 =
     Some (mk_stdout_appender\<lparr>ap_formatter := Some (mk_formatter ''%m%n'')\<rparr>)"
proof -
  let ?w = "set_appender 0 (mk_stdout_appender\<lparr>ap_formatter := Some (mk_formatter ''%m%n'')\<rparr>)
            (set_logger 0 ((mk_logger ''root'')\<lparr>lg_appenders := [0], lg_formatter := Some (mk_formatter ''%m%n'')\<rparr>) boot_world)"
  have e: "logger_setFormatter 0 (Some (mk_formatter ''%m%n'')) boot_world = Inr ?w"
    by (simp add: logger_setFormatter_def on_logger_def inherit_formatter_def on_appender_def boot_world_eq
        hget_def hset_def set_logger_def set_appender_def mk_stdout_appender_def)
  have l: "hget (w_loggers boot_world) 0 = Some ((mk_logger ''root'')\<lparr>lg_appenders := [0]\<rparr>)"
    by (simp add: boot_world_eq hget_def)
  show ?thesis using setFormatter_propagates [OF e l] e
    by (simp add: boot_world_eq hget_def hset_def mk_stdout_appender_def)
qed

text \<open>A pattern with an error is reported on the standard output and changes nothing else; a
  valid pattern becomes the logger's formatter.\<close>

theorem setPattern_checks:
  assumes "hget (w_loggers w) lg = Some l"
  shows "logger_setPattern lg p w =
    (if fm_error (mk_formatter p)
     then Inr (print (init_output p @ ''Logger setFormatter name='' @ lg_name l @ '' value='' @ p @
            '' invalid formatter'' @ newline) w)
     else logger_setFormatter lg (Some (mk_formatter p)) (print (init_output p) w))"
  using assms by (simp add: logger_setPattern_def on_logger_def Let_def)

section \<open>A file stream that failed\<close>

definition stuck :: "addr \<Rightarrow> log_world \<Rightarrow> bool" where
  "stuck a w = (\<exists>ap. hget (w_appenders w) a = Some ap \<and> ap_kind ap = FileLogAppender \<and>
     fs_open (ap_filestream ap) \<and> \<not> fs_ok (ap_filestream ap))"

lemma reopen_stuck:
  "fs_open (ap_filestream ap) \<Longrightarrow> \<not> fs_ok (ap_filestream ap) \<Longrightarrow> reopen env ap = (False, ap)"
  by (simp add: reopen_def fs_open_app_def)

lemma stuck_step:
  assumes "stuck a w" "appender_log env level e a w = Inr w'"
  shows "stuck a w' \<and> w_files w' = w_files w"
proof -
  from assms(1) obtain ap where ap: "hget (w_appenders w) a = Some ap" "ap_kind ap = FileLogAppender"
     "fs_open (ap_filestream ap)" "\<not> fs_ok (ap_filestream ap)" by (auto simp: stuck_def)
  then have len: "a < length (w_appenders w)" by (simp add: hget_Some_iff)
  show ?thesis using assms(2) ap len assms(1)
    by (auto simp: appender_log_def file_log_def Let_def reopen_stuck fs_write_def stuck_def hget_hset
        split: if_splits option.splits)
qed

interpretation stuck: keeps "\<lambda>(env, level, e). appender_log env level e a" "\<lambda>w. stuck a w \<and> w_files w = files" for a files
  by unfold_locales (auto dest: stuck_step)

text \<open>A file appender never recovers from a failed write: its stream is left open and not
  good, \<open>reopen\<close> closes only good streams, and opening an open stream fails, so no later
  event reaches the file, whatever the system would allow.\<close>

theorem failed_write_is_permanent:
  assumes "stuck a w"
    and "rfold (\<lambda>(env, level, e). appender_log env level e a) events w = Inr w'"
  shows "w_files w' = w_files w \<and> stuck a w'"
proof -
  have "stuck a w' \<and> w_files w' = w_files w"
    by (rule stuck.loop_keeps [OF assms(2)]) (simp add: assms(1))
  then show ?thesis by simp
qed

text \<open>A stream that is not open recovers: at the next event in a new second that the system
  lets the appender open and write, the event is appended to the file.\<close>

theorem failed_open_recovers:
  assumes "hget (w_appenders w) a = Some ap" "ap_kind ap = FileLogAppender"
    and "\<not> fs_open (ap_filestream ap)" "ap_level ap \<le> level" "ap_formatter ap = Some f"
    and "e_now env \<noteq> ap_lastTime ap" "e_can_open env (ap_filename ap)" "e_can_write env (ap_filename ap)"
    and "formatter_format (name_of w) (e_strftime env) f level e = Inr s"
  shows "\<exists>w'. appender_log env level e a w = Inr w' \<and>
    w_files w' = (w_files w)(ap_filename ap := w_files w (ap_filename ap) @ s)"
proof -
  have "snd (reopen env ap) = ap\<lparr>ap_filestream := \<lparr>fs_open = True, fs_ok = True\<rparr>\<rparr>"
    using assms(3,7) by (simp add: reopen_def fs_close_def fs_open_app_def Let_def)
  then show ?thesis using assms
    by (simp add: appender_log_def file_log_def Let_def fs_write_def)
qed

definition file_appender_at :: "bool \<Rightarrow> bool \<Rightarrow> appender" where
  "file_appender_at opened ok =
     \<lparr>ap_kind = FileLogAppender, ap_level = DEBUG, ap_formatter = Some (mk_formatter ''%m''),
      ap_hasFormatter = True, ap_filename = ''a.log'', ap_filestream = \<lparr>fs_open = opened, fs_ok = ok\<rparr>,
      ap_lastTime = 0\<rparr>"

lemma mk_formatter_m: "mk_formatter ''%m'' = \<lparr>fm_pattern = ''%m'', fm_items = [MessageItem], fm_error = False\<rparr>"
  by (simp add: mk_formatter_spec spec_parse.simps(2) name_char_def isalpha_def flush_def format_items_def)

theorem failed_write_is_permanent_witness:
  "stuck 0 (empty_world\<lparr>w_appenders := [file_appender_at True False]\<rparr>) \<and>
   (\<exists>w'. rfold (\<lambda>(env, level, e). appender_log env level e 0)
      [(plain_env, INFO, ss_write ''x'' (mk_event 0 INFO ''f'' 1 0 0 0 0 ''t''))]
      (empty_world\<lparr>w_appenders := [file_appender_at True False]\<rparr>) = Inr w' \<and>
      w_files w' ''a.log'' = [])"
proof -
  let ?w = "empty_world\<lparr>w_appenders := [file_appender_at True False]\<rparr>"
  let ?es = "[(plain_env, INFO, ss_write ''x'' (mk_event 0 INFO ''f'' 1 0 0 0 0 ''t''))]"
  have st: "stuck 0 ?w" by (simp add: stuck_def hget_def file_appender_at_def)
  have "\<exists>w'. rfold (\<lambda>(env, level, e). appender_log env level e 0) ?es ?w = Inr w'"
    by (simp add: appender_log_def file_log_def Let_def reopen_def fs_open_app_def fs_write_def hget_def
        file_appender_at_def mk_formatter_m formatter_format_def less_eq_level_def split: if_splits)
  then obtain w' where w': "rfold (\<lambda>(env, level, e). appender_log env level e 0) ?es ?w = Inr w'" ..
  show ?thesis using failed_write_is_permanent [OF st w'] st w' by (auto simp: empty_world_def)
qed

theorem failed_open_recovers_witness:
  "\<exists>w'. appender_log plain_env INFO (ss_write ''x'' (mk_event 0 INFO ''f'' 1 0 0 0 0 ''t'')) 0
      (empty_world\<lparr>w_appenders := [file_appender_at False False]\<rparr>) = Inr w' \<and> w_files w' ''a.log'' = ''x''"
  using failed_open_recovers [of "empty_world\<lparr>w_appenders := [file_appender_at False False]\<rparr>" 0
      "file_appender_at False False" INFO _ plain_env "ss_write ''x'' (mk_event 0 INFO ''f'' 1 0 0 0 0 ''t'')" "''x''"]
  by (auto simp: hget_def file_appender_at_def mk_formatter_m formatter_format_def less_eq_level_def plain_env_def
      empty_world_def get_content_def mk_event_def ss_write_def)

end
