(* ===== verification/LogConcurrency.thy ===== *)
theory LogConcurrency
  imports LoggerInvariants
begin

text \<open>
  Loggers used by several threads (log.cpp).  \<open>Logger::log\<close> holds the spinlock of its logger while the
  appenders print, each under a spinlock of its own, and while it hands the event to the root
  logger.  The other operations of \<open>Logger\<close> take the logger's lock too, but for \<open>clearAppenders\<close> and
  \<open>setLevel\<close>, which take none; those that go through the appenders take the lock of each in turn.
  The steps of the threads interleave at the locks and at the accesses in between; a critical
  section of an appender that stores or reads once is one step.  The appenders are those for the
  standard output, whose \<open>log\<close> takes its lock once.
\<close>

section \<open>State\<close>

text \<open>
  Where a thread stands in \<open>Logger::log\<close>: the loggers whose locks it has, innermost first, the
  logger the call is on, and in the loop over the list \<open>m_appenders\<close> the number of
  erasures there had been when the loop began and the position; then the other operations.
\<close>

datatype 'e log_pc =
    N_idle
  | N_enter "addr list" addr level 'e
  | N_lock "addr list" addr level 'e
  | N_begin "addr list" addr level 'e
  | N_next "addr list" addr nat nat level 'e
  | N_app "addr list" addr nat nat addr level 'e
  | N_print "addr list" addr nat nat addr level 'e
  | N_unlock "addr list"
  | N_clear addr
  | N_add_lock addr addr
  | N_add_read addr addr
  | N_add_give addr addr
  | N_add_push addr addr
  | N_del_lock addr addr
  | N_del_erase addr addr
  | N_fmt_lock addr "formatter option"
  | N_fmt_store addr "formatter option"
  | N_fmt_next addr nat nat
  | N_fmt_give addr nat nat addr
  | N_apfmt addr "formatter option"
  | N_get_lock addr
  | N_yaml_lock addr
  | N_yaml_begin addr
  | N_yaml_next addr nat nat

text \<open>
  The members of the loggers and appenders that the operations use (\<open>lt_own\<close>: \<open>m_hasFormatter\<close>), with
  a count of the erasures in each list of appenders; the holders of the spinlocks; and the lines printed, as
  thread, appender and event.
\<close>

record 'e log_threads =
  lt_apps :: "addr \<Rightarrow> addr list"
  lt_ver :: "addr \<Rightarrow> nat"
  lt_root :: "addr \<Rightarrow> addr option"
  lt_level :: "addr \<Rightarrow> level"
  lt_aplevel :: "addr \<Rightarrow> level"
  lt_fmt :: "addr \<Rightarrow> formatter option"
  lt_apfmt :: "addr \<Rightarrow> formatter option"
  lt_own :: "addr \<Rightarrow> bool"
  lt_lg :: "addr \<Rightarrow> nat option"
  lt_ap :: "addr \<Rightarrow> nat option"
  lt_pc :: "nat \<Rightarrow> 'e log_pc"
  lt_out :: "(nat \<times> addr \<times> 'e) list"

definition lt_at :: "nat \<Rightarrow> 'e log_pc \<Rightarrow> 'e log_threads \<Rightarrow> 'e log_threads" where
  "lt_at t pc s = s\<lparr>lt_pc := (lt_pc s)(t := pc)\<rparr>"

definition set_apps :: "addr \<Rightarrow> addr list \<Rightarrow> 'e log_threads \<Rightarrow> 'e log_threads" where
  "set_apps lg as s = s\<lparr>lt_apps := (lt_apps s)(lg := as), lt_ver := (lt_ver s)(lg := lt_ver s lg + 1)\<rparr>"

section \<open>Steps\<close>

text \<open>A thread that waits for a spinlock spins: its step changes nothing.\<close>

definition with_lg :: "addr \<Rightarrow> nat \<Rightarrow> 'e log_pc \<Rightarrow> 'e log_threads \<Rightarrow> 'e log_threads" where
  "with_lg a t pc s = (if lt_lg s a = None then lt_at t pc (s\<lparr>lt_lg := (lt_lg s)(a := Some t)\<rparr>) else s)"

definition with_ap :: "addr \<Rightarrow> nat \<Rightarrow> 'e log_pc \<Rightarrow> 'e log_threads \<Rightarrow> 'e log_threads" where
  "with_ap a t pc s = (if lt_ap s a = None then lt_at t pc (s\<lparr>lt_ap := (lt_ap s)(a := Some t)\<rparr>) else s)"

text \<open>\<open>StdoutLogAppender::log\<close> from its first line to the lock, and behind it.\<close>

definition appender_enter ::
  "addr list \<Rightarrow> addr \<Rightarrow> nat \<Rightarrow> nat \<Rightarrow> addr \<Rightarrow> level \<Rightarrow> 'e \<Rightarrow> 'e log_threads \<Rightarrow> 'e log_pc" where
  "appender_enter h lg v i a l e s = (if lt_aplevel s a \<le> l then N_app h lg v i a l e else N_next h lg v (Suc i) l e)"

definition appender_print :: "nat \<Rightarrow> addr \<Rightarrow> 'e \<Rightarrow> 'e log_pc \<Rightarrow> 'e log_threads \<Rightarrow> 'e log_threads" where
  "appender_print t a e next s = lt_at t next (s\<lparr>lt_out := lt_out s @ [(t, a, e)], lt_ap := (lt_ap s)(a := None)\<rparr>)"

text \<open>A critical section of an appender that gives it the formatter of a logger, and the one of its
  own \<open>setFormatter\<close>: the thread goes on when the lock is free.\<close>

definition give_formatter :: "addr \<Rightarrow> addr \<Rightarrow> nat \<Rightarrow> 'e log_pc \<Rightarrow> 'e log_threads \<Rightarrow> 'e log_threads" where
  "give_formatter lg a t pc s =
     (if lt_ap s a = None then lt_at t pc (s\<lparr>lt_apfmt := (lt_apfmt s)(a := lt_fmt s lg)\<rparr>) else s)"

definition own_formatter :: "addr \<Rightarrow> formatter option \<Rightarrow> nat \<Rightarrow> 'e log_threads \<Rightarrow> 'e log_threads" where
  "own_formatter a f t s =
     (if lt_ap s a = None
      then lt_at t N_idle (s\<lparr>lt_apfmt := (lt_apfmt s)(a := f), lt_own := (lt_own s)(a := (f \<noteq> None))\<rparr>) else s)"

definition store_formatter :: "addr \<Rightarrow> formatter option \<Rightarrow> 'e log_threads \<Rightarrow> 'e log_threads" where
  "store_formatter lg f s = s\<lparr>lt_fmt := (lt_fmt s)(lg := f)\<rparr>"

text \<open>The accesses of \<open>addAppender\<close>, \<open>delAppender\<close> and \<open>clearAppenders\<close> to the list.\<close>

definition push_appender :: "addr \<Rightarrow> addr \<Rightarrow> 'e log_threads \<Rightarrow> 'e log_threads" where
  "push_appender lg a s = s\<lparr>lt_apps := (lt_apps s)(lg := lt_apps s lg @ [a])\<rparr>"

definition erase_appender :: "addr \<Rightarrow> addr \<Rightarrow> 'e log_threads \<Rightarrow> 'e log_threads" where
  "erase_appender lg a s = (if a \<in> set (lt_apps s lg) then set_apps lg (remove1 a (lt_apps s lg)) s else s)"

definition clear_list :: "addr \<Rightarrow> 'e log_threads \<Rightarrow> 'e log_threads" where
  "clear_list lg s = (if lt_apps s lg = [] then s else set_apps lg [] s)"

text \<open>\<open>Logger::log\<close>, and the steps of the others.  An iterator to an element that has been
  erased is invalid; adding at the end leaves iterators valid.\<close>

definition thread_log_step :: "nat \<Rightarrow> 'e log_threads \<Rightarrow> fault + 'e log_threads" where
  "thread_log_step t s =
     (case lt_pc s t of
        N_idle \<Rightarrow> Inr s
      | N_enter h lg l e \<Rightarrow> Inr (lt_at t (if lt_level s lg \<le> l then N_lock h lg l e else N_unlock h) s)
      | N_lock h lg l e \<Rightarrow> Inr (with_lg lg t (N_begin (lg # h) lg l e) s)
      | N_begin h lg l e \<Rightarrow>
          if lt_apps s lg \<noteq> [] then Inr (lt_at t (N_next h lg (lt_ver s lg) 0 l e) s)
          else (case lt_root s lg of None \<Rightarrow> Inl Null_deref | Some r \<Rightarrow> Inr (lt_at t (N_enter h r l e) s))
      | N_next h lg v i l e \<Rightarrow>
          if lt_ver s lg \<noteq> v then Inl Indeterminate
          else if i < length (lt_apps s lg) then
            let a = lt_apps s lg ! i
            in Inr (lt_at t (appender_enter h lg v i a l e s) s)
          else Inr (lt_at t (N_unlock h) s)
      | N_app h lg v i a l e \<Rightarrow> Inr (with_ap a t (N_print h lg v i a l e) s)
      | N_print h lg v i a l e \<Rightarrow>
          if lt_apfmt s a = None then Inl Null_deref
          else Inr (appender_print t a e (N_next h lg v (Suc i) l e) s)
      | N_unlock h \<Rightarrow>
          (case h of [] \<Rightarrow> Inr (lt_at t N_idle s)
           | lg # h' \<Rightarrow> Inr (lt_at t (N_unlock h') (s\<lparr>lt_lg := (lt_lg s)(lg := None)\<rparr>)))
      | N_clear lg \<Rightarrow> Inr (lt_at t N_idle (clear_list lg s))
      | N_add_lock lg a \<Rightarrow> Inr (with_lg lg t (N_add_read lg a) s)
      | N_add_read lg a \<Rightarrow>
          Inr (if lt_ap s a = None then lt_at t (if lt_apfmt s a = None then N_add_give lg a else N_add_push lg a) s else s)
      | N_add_give lg a \<Rightarrow> Inr (give_formatter lg a t (N_add_push lg a) s)
      | N_add_push lg a \<Rightarrow> Inr (lt_at t (N_unlock [lg]) (push_appender lg a s))
      | N_del_lock lg a \<Rightarrow> Inr (with_lg lg t (N_del_erase lg a) s)
      | N_del_erase lg a \<Rightarrow> Inr (lt_at t (N_unlock [lg]) (erase_appender lg a s))
      | N_fmt_lock lg f \<Rightarrow> Inr (with_lg lg t (N_fmt_store lg f) s)
      | N_fmt_store lg f \<Rightarrow> Inr (lt_at t (N_fmt_next lg (lt_ver s lg) 0) (store_formatter lg f s))
      | N_fmt_next lg v i \<Rightarrow>
          if lt_ver s lg \<noteq> v then Inl Indeterminate
          else if i < length (lt_apps s lg) then
            let a = lt_apps s lg ! i
            in Inr (lt_at t (if lt_own s a then N_fmt_next lg v (Suc i) else N_fmt_give lg v i a) s)
          else Inr (lt_at t (N_unlock [lg]) s)
      | N_fmt_give lg v i a \<Rightarrow>
          if lt_ver s lg \<noteq> v then Inl Indeterminate
          else Inr (give_formatter lg a t (N_fmt_next lg v (Suc i)) s)
      | N_apfmt a f \<Rightarrow> Inr (own_formatter a f t s)
      | N_get_lock lg \<Rightarrow> Inr (with_lg lg t (N_unlock [lg]) s)
      | N_yaml_lock lg \<Rightarrow> Inr (with_lg lg t (N_yaml_begin lg) s)
      | N_yaml_begin lg \<Rightarrow> Inr (lt_at t (N_yaml_next lg (lt_ver s lg) 0) s)
      | N_yaml_next lg v i \<Rightarrow>
          if lt_ver s lg \<noteq> v then Inl Indeterminate
          else if i < length (lt_apps s lg) then
            Inr (if lt_ap s (lt_apps s lg ! i) = None then lt_at t (N_yaml_next lg v (Suc i)) s else s)
          else Inr (lt_at t (N_unlock [lg]) s))"

datatype 'e log_act =
    Log_call nat addr level 'e
  | Clear_call nat addr
  | Add_call nat addr addr
  | Del_call nat addr addr
  | Format_call nat addr "formatter option"
  | Own_format_call nat addr "formatter option"
  | Get_call nat addr
  | Yaml_call nat addr
  | Level_call nat addr level
  | Own_level_call nat addr level
  | Log_go nat

text \<open>A thread calls an operation when it is in none.  The two \<open>setLevel\<close> are one store each.\<close>

definition log_act :: "'e log_act \<Rightarrow> 'e log_threads \<Rightarrow> fault + 'e log_threads" where
  "log_act act s =
     (let call = (\<lambda>t pc. Inr (if lt_pc s t = N_idle then lt_at t pc s else s))
      in (case act of
            Log_call t lg l e \<Rightarrow> call t (N_enter [] lg l e)
          | Clear_call t lg \<Rightarrow> call t (N_clear lg)
          | Add_call t lg a \<Rightarrow> call t (N_add_lock lg a)
          | Del_call t lg a \<Rightarrow> call t (N_del_lock lg a)
          | Format_call t lg f \<Rightarrow> call t (N_fmt_lock lg f)
          | Own_format_call t a f \<Rightarrow> call t (N_apfmt a f)
          | Get_call t lg \<Rightarrow> call t (N_get_lock lg)
          | Yaml_call t lg \<Rightarrow> call t (N_yaml_lock lg)
          | Level_call t lg l \<Rightarrow> Inr (if lt_pc s t = N_idle then s\<lparr>lt_level := (lt_level s)(lg := l)\<rparr> else s)
          | Own_level_call t a l \<Rightarrow> Inr (if lt_pc s t = N_idle then s\<lparr>lt_aplevel := (lt_aplevel s)(a := l)\<rparr> else s)
          | Log_go t \<Rightarrow> thread_log_step t s))"

text \<open>Threads that have not begun, on given loggers and appenders.\<close>

definition quiet_threads ::
  "(addr \<Rightarrow> addr list) \<Rightarrow> (addr \<Rightarrow> addr option) \<Rightarrow> (addr \<Rightarrow> level) \<Rightarrow> (addr \<Rightarrow> level) \<Rightarrow> (addr \<Rightarrow> formatter option) \<Rightarrow>
   (addr \<Rightarrow> formatter option) \<Rightarrow> (addr \<Rightarrow> bool) \<Rightarrow> 'e log_threads" where
  "quiet_threads apps root lv aplv fmt apfmt own =
     \<lparr>lt_apps = apps, lt_ver = (\<lambda>_. 0), lt_root = root, lt_level = lv, lt_aplevel = aplv,
      lt_fmt = fmt, lt_apfmt = apfmt, lt_own = own, lt_lg = (\<lambda>_. None), lt_ap = (\<lambda>_. None), lt_pc = (\<lambda>_. N_idle), lt_out = []\<rparr>"

section \<open>The invariant\<close>

text \<open>The locks a thread has.\<close>

fun held :: "'e log_pc \<Rightarrow> addr list" where
  "held (N_enter h lg l e) = h"
| "held (N_lock h lg l e) = h"
| "held (N_begin h lg l e) = h"
| "held (N_next h lg v i l e) = h"
| "held (N_app h lg v i a l e) = h"
| "held (N_print h lg v i a l e) = h"
| "held (N_unlock h) = h"
| "held (N_add_read lg a) = [lg]"
| "held (N_add_give lg a) = [lg]"
| "held (N_add_push lg a) = [lg]"
| "held (N_del_erase lg a) = [lg]"
| "held (N_fmt_store lg f) = [lg]"
| "held (N_fmt_next lg v i) = [lg]"
| "held (N_fmt_give lg v i a) = [lg]"
| "held (N_yaml_begin lg) = [lg]"
| "held (N_yaml_next lg v i) = [lg]"
| "held _ = []"

fun held_ap :: "'e log_pc \<Rightarrow> addr option" where
  "held_ap (N_print h lg v i a l e) = Some a"
| "held_ap _ = None"

text \<open>A call comes from outside, or from another logger to the root logger \<open>r\<close>.\<close>

definition comes_from :: "addr \<Rightarrow> addr list \<Rightarrow> addr \<Rightarrow> bool" where
  "comes_from r h lg \<longleftrightarrow> h = [] \<or> (\<exists>l. h = [l] \<and> lg = r \<and> l \<noteq> r)"

definition inside_of :: "addr \<Rightarrow> addr list \<Rightarrow> addr \<Rightarrow> bool" where
  "inside_of r h lg \<longleftrightarrow> (\<exists>h'. h = lg # h' \<and> comes_from r h' lg)"

fun pc_fits :: "addr \<Rightarrow> 'e log_threads \<Rightarrow> 'e log_pc \<Rightarrow> bool" where
  "pc_fits r s (N_enter h lg l e) = comes_from r h lg"
| "pc_fits r s (N_lock h lg l e) = comes_from r h lg"
| "pc_fits r s (N_begin h lg l e) = inside_of r h lg"
| "pc_fits r s (N_next h lg v i l e) = (inside_of r h lg \<and> v = lt_ver s lg \<and> i \<le> length (lt_apps s lg))"
| "pc_fits r s (N_app h lg v i a l e) = (inside_of r h lg \<and> v = lt_ver s lg \<and> i < length (lt_apps s lg) \<and>
     a = lt_apps s lg ! i \<and> lt_aplevel s a \<le> l)"
| "pc_fits r s (N_print h lg v i a l e) = (inside_of r h lg \<and> v = lt_ver s lg \<and> i < length (lt_apps s lg) \<and>
     a = lt_apps s lg ! i \<and> lt_aplevel s a \<le> l)"
| "pc_fits r s (N_unlock h) = True"
| "pc_fits r s (N_clear lg) = False"
| "pc_fits r s (N_del_lock lg a) = (lg \<noteq> r)"
| "pc_fits r s (N_del_erase lg a) = (lg \<noteq> r)"
| "pc_fits r s (N_add_push lg a) = (lt_apfmt s a \<noteq> None)"
| "pc_fits r s (N_fmt_lock lg f) = (f \<noteq> None)"
| "pc_fits r s (N_fmt_store lg f) = (f \<noteq> None)"
| "pc_fits r s (N_fmt_next lg v i) = (v = lt_ver s lg)"
| "pc_fits r s (N_fmt_give lg v i a) = (v = lt_ver s lg)"
| "pc_fits r s (N_apfmt a f) = (f \<noteq> None)"
| "pc_fits r s (N_yaml_next lg v i) = (v = lt_ver s lg)"
| "pc_fits r s _ = True"

text \<open>What a thread has printed in the loop it is in: one line for each appender that takes the
  event, in the order of the list.\<close>

definition lines_of :: "nat \<Rightarrow> 'e log_threads \<Rightarrow> (nat \<times> addr \<times> 'e) list" where
  "lines_of t s = filter (\<lambda>x. fst x = t) (lt_out s)"

definition printed :: "nat \<Rightarrow> addr list \<Rightarrow> level \<Rightarrow> 'e \<Rightarrow> 'e log_threads \<Rightarrow> bool" where
  "printed t as l e s \<longleftrightarrow> (\<exists>pre. lines_of t s = pre @ map (\<lambda>a. (t, a, e)) (filter (\<lambda>a. lt_aplevel s a \<le> l) as))"

fun pc_printed :: "nat \<Rightarrow> 'e log_threads \<Rightarrow> 'e log_pc \<Rightarrow> bool" where
  "pc_printed t s (N_next h lg v i l e) = printed t (take i (lt_apps s lg)) l e s"
| "pc_printed t s (N_app h lg v i a l e) = printed t (take i (lt_apps s lg)) l e s"
| "pc_printed t s (N_print h lg v i a l e) = printed t (take i (lt_apps s lg)) l e s"
| "pc_printed t s _ = True"

definition locks_ok :: "'e log_threads \<Rightarrow> bool" where
  "locks_ok s \<longleftrightarrow> (\<forall>a t. lt_lg s a = Some t \<longleftrightarrow> a \<in> set (held (lt_pc s t))) \<and>
     (\<forall>a t. lt_ap s a = Some t \<longleftrightarrow> held_ap (lt_pc s t) = Some a) \<and> (\<forall>t. distinct (held (lt_pc s t)))"

definition rooted :: "addr \<Rightarrow> 'e log_threads \<Rightarrow> bool" where
  "rooted r s \<longleftrightarrow> (\<forall>lg. lg \<noteq> r \<longrightarrow> lt_root s lg = Some r) \<and> lt_apps s r \<noteq> []"

text \<open>Loggers and attached appenders have formatters.\<close>

definition dressed :: "'e log_threads \<Rightarrow> bool" where
  "dressed s \<longleftrightarrow> (\<forall>lg. lt_fmt s lg \<noteq> None) \<and> (\<forall>lg. \<forall>a\<in>set (lt_apps s lg). lt_apfmt s a \<noteq> None)"

definition threads_inv :: "addr \<Rightarrow> 'e log_threads \<Rightarrow> bool" where
  "threads_inv r s \<longleftrightarrow> rooted r s \<and> dressed s \<and> locks_ok s \<and> (\<forall>t. pc_fits r s (lt_pc s t) \<and> pc_printed t s (lt_pc s t))"

text \<open>A thread depends on the lists of the loggers whose locks it has, and on its own lines.\<close>

lemma pc_frame:
  assumes "pc_fits r s pc" "pc_printed t s pc" "\<forall>lg\<in>set (held pc). lt_apps s' lg = lt_apps s lg \<and> lt_ver s' lg = lt_ver s lg"
    and "lt_aplevel s' = lt_aplevel s" "lines_of t s' = lines_of t s" "\<forall>a. lt_apfmt s a \<noteq> None \<longrightarrow> lt_apfmt s' a \<noteq> None"
  shows "pc_fits r s' pc \<and> pc_printed t s' pc"
  using assms by (cases pc) (auto simp: inside_of_def printed_def)

lemma inv_move:
  assumes inv: "threads_inv r s"
    and pc: "lt_pc s' = (lt_pc s)(t := pc')" and cfg: "lt_root s' = lt_root s" "lt_aplevel s' = lt_aplevel s"
    and lg: "\<forall>a. lt_lg s' a = (if a \<in> set (held pc') then Some t else if a \<in> set (held (lt_pc s t)) then None else lt_lg s a)"
    and new: "\<forall>a\<in>set (held pc') - set (held (lt_pc s t)). lt_lg s a = None"
    and ap: "\<forall>a. lt_ap s' a = (if held_ap pc' = Some a then Some t else if held_ap (lt_pc s t) = Some a then None else lt_ap s a)"
    and new_ap: "\<forall>a. held_ap pc' = Some a \<and> held_ap (lt_pc s t) \<noteq> Some a \<longrightarrow> lt_ap s a = None"
    and dist: "distinct (held pc')"
    and apps: "\<forall>lg. lg \<notin> set (held (lt_pc s t)) \<longrightarrow> lt_apps s' lg = lt_apps s lg \<and> lt_ver s' lg = lt_ver s lg" "lt_apps s' r \<noteq> []"
    and lines: "\<forall>u. u \<noteq> t \<longrightarrow> lines_of u s' = lines_of u s"
    and fmt: "\<forall>a. lt_apfmt s a \<noteq> None \<longrightarrow> lt_apfmt s' a \<noteq> None" "dressed s'"
    and here: "pc_fits r s' pc'" "pc_printed t s' pc'"
  shows "threads_inv r s'"
proof -
  have l: "lt_lg s a = Some u \<longleftrightarrow> a \<in> set (held (lt_pc s u))" "lt_ap s a = Some u \<longleftrightarrow> held_ap (lt_pc s u) = Some a" for a u
    using inv by (simp_all add: threads_inv_def locks_ok_def)
  have "locks_ok s'" unfolding locks_ok_def
  proof (intro conjI allI)
    fix a u
    show "lt_lg s' a = Some u \<longleftrightarrow> a \<in> set (held (lt_pc s' u))"
    proof (cases "u = t")
      case True
      then show ?thesis using l(1) [of a t] by (simp add: pc lg)
    next
      case False
      have "a \<in> set (held pc') \<Longrightarrow> a \<notin> set (held (lt_pc s u))"
        using new l(1) [of a t] l(1) [of a u] False by (cases "a \<in> set (held (lt_pc s t))") auto
      then show ?thesis using l(1) [of a t] l(1) [of a u] False by (auto simp: pc lg)
    qed
    show "lt_ap s' a = Some u \<longleftrightarrow> held_ap (lt_pc s' u) = Some a"
    proof (cases "u = t")
      case True
      then show ?thesis using l(2) [of a t] by (simp add: pc ap)
    next
      case False
      have "held_ap pc' = Some a \<Longrightarrow> held_ap (lt_pc s u) \<noteq> Some a"
        using new_ap l(2) [of a t] l(2) [of a u] False by (cases "held_ap (lt_pc s t) = Some a") auto
      then show ?thesis using l(2) [of a t] l(2) [of a u] False by (auto simp: pc ap)
    qed
  next
    fix u show "distinct (held (lt_pc s' u))" using dist inv by (simp add: pc threads_inv_def locks_ok_def)
  qed
  moreover have "pc_fits r s' (lt_pc s u) \<and> pc_printed u s' (lt_pc s u)" if "u \<noteq> t" for u
  proof (rule pc_frame [of r s])
    show "pc_fits r s (lt_pc s u)" "pc_printed u s (lt_pc s u)" using inv by (simp_all add: threads_inv_def)
    have "a \<notin> set (held (lt_pc s t))" if "a \<in> set (held (lt_pc s u))" for a
      using l(1) [of a t] l(1) [of a u] \<open>u \<noteq> t\<close> that by auto
    then show "\<forall>lg\<in>set (held (lt_pc s u)). lt_apps s' lg = lt_apps s lg \<and> lt_ver s' lg = lt_ver s lg" using apps(1) by blast
    show "lt_aplevel s' = lt_aplevel s" by (rule cfg)
    show "lines_of u s' = lines_of u s" using lines that by blast
    show "\<forall>a. lt_apfmt s a \<noteq> None \<longrightarrow> lt_apfmt s' a \<noteq> None" by (rule fmt(1))
  qed
  ultimately show ?thesis using inv here apps(2) fmt(2) by (simp add: threads_inv_def rooted_def pc cfg)
qed

section \<open>Every step keeps it\<close>

lemmas thread_updates = lt_at_def set_apps_def lines_of_def push_appender_def erase_appender_def store_formatter_def dressed_def

lemma printed_cong:
  "lines_of t s' = lines_of t s \<Longrightarrow> lt_aplevel s' = lt_aplevel s \<Longrightarrow> printed t as l e s' = printed t as l e s"
  by (simp add: printed_def)

lemma printed_Nil [simp]: "printed t [] l e s"
  by (simp add: printed_def)

text \<open>A thread goes on without touching anything, takes the lock of a logger, or works in the critical section
  of an appender that stores its formatter.\<close>

lemma inv_locks:
  assumes "threads_inv r s"
  shows "distinct (held (lt_pc s t))" "held_ap (lt_pc s t) = Some a \<longleftrightarrow> lt_ap s a = Some t"
    "a \<in> set (held (lt_pc s t)) \<longleftrightarrow> lt_lg s a = Some t"
  using assms by (simp_all add: threads_inv_def locks_ok_def)

lemma inv_fits:
  assumes "threads_inv r s"
  shows "pc_fits r s (lt_pc s t)" "pc_printed t s (lt_pc s t)"
  using assms by (simp_all add: threads_inv_def)

lemma inv_members:
  assumes "threads_inv r s"
  shows "lt_apps s r \<noteq> []" "lt_fmt s lg \<noteq> None" "a \<in> set (lt_apps s lg) \<Longrightarrow> lt_apfmt s a \<noteq> None"
  using assms by (simp_all add: threads_inv_def rooted_def dressed_def)

lemma pc_same:
  assumes "pc_fits r s pc" "pc_printed t s pc" "lt_apps s' = lt_apps s" "lt_ver s' = lt_ver s" "lt_aplevel s' = lt_aplevel s"
    "lt_out s' = lt_out s" "\<forall>a. lt_apfmt s a \<noteq> None \<longrightarrow> lt_apfmt s' a \<noteq> None"
  shows "pc_fits r s' pc \<and> pc_printed t s' pc"
  by (rule pc_frame [OF assms(1,2)]) (use assms(3-) in \<open>simp_all add: lines_of_def\<close>)

lemma inv_at:
  assumes inv: "threads_inv r s" and "held pc = held (lt_pc s t)" "held_ap pc = None" "held_ap (lt_pc s t) = None"
    and fits: "pc_fits r s pc" "pc_printed t s pc"
  shows "threads_inv r (lt_at t pc s)"
proof -
  note own = inv_locks [OF inv, where t = t] inv_members [OF inv]
  have "pc_fits r (lt_at t pc s) pc \<and> pc_printed t (lt_at t pc s) pc" by (rule pc_same [OF fits]) (simp_all add: lt_at_def)
  then show ?thesis
    by (intro inv_move [OF inv, where t = t and pc' = pc]) (use assms(2-4) own in \<open>auto simp: thread_updates\<close>)
qed

lemma inv_lock:
  assumes inv: "threads_inv r s" and "held pc = lg # held (lt_pc s t)" "held_ap pc = None" "held_ap (lt_pc s t) = None"
    and fits: "pc_fits r s pc" "pc_printed t s pc"
  shows "threads_inv r (with_lg lg t pc s)"
proof (cases "lt_lg s lg = None")
  case True
  note own = inv_locks [OF inv, where t = t] inv_members [OF inv]
  let ?s = "lt_at t pc (s\<lparr>lt_lg := (lt_lg s)(lg := Some t)\<rparr>)"
  have "pc_fits r ?s pc \<and> pc_printed t ?s pc" by (rule pc_same [OF fits]) (simp_all add: lt_at_def)
  then have "threads_inv r ?s"
    by (intro inv_move [OF inv, where t = t and pc' = pc]) (use True assms(2-4) own in \<open>auto simp: thread_updates\<close>)
  then show ?thesis by (simp add: with_lg_def True)
qed (use inv in \<open>auto simp: with_lg_def\<close>)

lemma inv_formatter:
  assumes inv: "threads_inv r s" and "held pc = held (lt_pc s t)" "held_ap pc = None" "held_ap (lt_pc s t) = None" "f \<noteq> None"
    and fits: "pc_fits r (s\<lparr>lt_apfmt := (lt_apfmt s)(a := f)\<rparr>) pc" "pc_printed t s pc"
  shows "threads_inv r (lt_at t pc (s\<lparr>lt_apfmt := (lt_apfmt s)(a := f), lt_own := ow\<rparr>))"
proof -
  note own = inv_locks [OF inv, where t = t] inv_members [OF inv]
  let ?s = "lt_at t pc (s\<lparr>lt_apfmt := (lt_apfmt s)(a := f), lt_own := ow\<rparr>)"
  have "pc_printed t (s\<lparr>lt_apfmt := (lt_apfmt s)(a := f)\<rparr>) pc"
    using fits(2) by (cases pc) (simp_all add: printed_def lines_of_def)
  then have "pc_fits r ?s pc \<and> pc_printed t ?s pc" by (rule pc_same [OF fits(1)]) (simp_all add: lt_at_def)
  then show ?thesis
    by (intro inv_move [OF inv, where t = t and pc' = pc]) (use assms(2-5) own in \<open>auto simp: thread_updates\<close>)
qed

lemma inv_give:
  assumes inv: "threads_inv r s" and "held pc = held (lt_pc s t)" "held_ap pc = None" "held_ap (lt_pc s t) = None"
    and fits: "\<And>f. f \<noteq> None \<Longrightarrow> pc_fits r (s\<lparr>lt_apfmt := (lt_apfmt s)(a := f)\<rparr>) pc" "pc_printed t s pc"
  shows "threads_inv r (give_formatter lg a t pc s)"
proof -
  have f: "lt_fmt s lg \<noteq> None" by (rule inv_members(2) [OF inv])
  have "threads_inv r (lt_at t pc (s\<lparr>lt_apfmt := (lt_apfmt s)(a := lt_fmt s lg), lt_own := lt_own s\<rparr>))"
    by (rule inv_formatter [OF inv assms(2-4) f fits(1) [OF f] fits(2)])
  then show ?thesis using inv by (simp add: give_formatter_def)
qed

lemma step_next:
  assumes inv: "threads_inv r s" and pc: "lt_pc s t = N_next h lg v i l e"
  shows "\<exists>s'. thread_log_step t s = Inr s' \<and> threads_inv r s'"
proof -
  note fits = inv_fits [OF inv, of t, unfolded pc, simplified]
  let ?a = "lt_apps s lg ! i"
  show ?thesis
  proof (cases "i < length (lt_apps s lg)")
    case True
    have skip: "printed t (take (Suc i) (lt_apps s lg)) l e s" if "\<not> lt_aplevel s ?a \<le> l"
      using fits True that by (simp add: printed_def take_Suc_conv_app_nth)
    have "threads_inv r (lt_at t (appender_enter h lg v i ?a l e s) s)"
      by (rule inv_at [OF inv]) (use fits True skip in \<open>simp_all add: pc appender_enter_def\<close>)
    then show ?thesis using True fits by (simp add: thread_log_step_def pc Let_def)
  next
    case False
    have "threads_inv r (lt_at t (N_unlock h) s)" by (rule inv_at [OF inv]) (simp_all add: pc)
    then show ?thesis using False fits by (simp add: thread_log_step_def pc)
  qed
qed

lemma step_print:
  assumes inv: "threads_inv r s" and pc: "lt_pc s t = N_print h lg v i a l e"
  shows "\<exists>s'. thread_log_step t s = Inr s' \<and> threads_inv r s'"
proof -
  note own = inv_locks [OF inv, where t = t] inv_members [OF inv] and fits = inv_fits [OF inv, of t, unfolded pc, simplified]
  let ?s = "lt_at t (N_next h lg v (Suc i) l e) (s\<lparr>lt_out := lt_out s @ [(t, a, e)], lt_ap := (lt_ap s)(a := None)\<rparr>)"
  have "printed t (take (Suc i) (lt_apps s lg)) l e ?s"
    using fits by (auto simp: printed_def thread_updates take_Suc_conv_app_nth)
  moreover have "lt_ap s b \<noteq> Some t" if "b \<noteq> a" for b using own(2) [of b] that by (auto simp: pc)
  ultimately have "threads_inv r ?s"
    by (intro inv_move [OF inv, where t = t]) (use fits own(1,3-) in \<open>auto simp: thread_updates pc\<close>)
  moreover have "a \<in> set (lt_apps s lg)" using fits nth_mem [of i "lt_apps s lg"] by simp
  then have "lt_apfmt s a \<noteq> None" by (rule own(6))
  ultimately show ?thesis by (simp add: thread_log_step_def appender_print_def pc)
qed

lemma step_app:
  assumes inv: "threads_inv r s" and pc: "lt_pc s t = N_app h lg v i a l e"
  shows "\<exists>s'. thread_log_step t s = Inr s' \<and> threads_inv r s'"
proof -
  note own = inv_locks [OF inv, where t = t] inv_members [OF inv] and fits = inv_fits [OF inv, of t, unfolded pc, simplified]
  have "threads_inv r (with_ap a t (N_print h lg v i a l e) s)"
  proof (cases "lt_ap s a = None")
    case True
    show ?thesis unfolding with_ap_def if_P [OF True]
      by (rule inv_move [OF inv, where t = t])
        (use True fits own in \<open>auto simp: thread_updates printed_def pc\<close>)
  qed (use inv in \<open>auto simp: with_ap_def\<close>)
  then show ?thesis by (simp add: thread_log_step_def pc)
qed

lemma step_unlock:
  assumes inv: "threads_inv r s" and pc: "lt_pc s t = N_unlock h"
  shows "\<exists>s'. thread_log_step t s = Inr s' \<and> threads_inv r s'"
proof (cases h)
  case Nil
  have "threads_inv r (lt_at t N_idle s)" by (rule inv_at [OF inv]) (simp_all add: pc Nil)
  then show ?thesis by (simp add: thread_log_step_def pc Nil)
next
  case (Cons lg h')
  note own = inv_locks [OF inv, where t = t] inv_members [OF inv]
  have mine: "a \<in> set h' \<longleftrightarrow> a \<noteq> lg \<and> lt_lg s a = Some t" for a
    using own(1) own(3) [of a] by (auto simp: pc Cons)
  have "threads_inv r (lt_at t (N_unlock h') (s\<lparr>lt_lg := (lt_lg s)(lg := None)\<rparr>))"
    by (rule inv_move [OF inv, where t = t])
      (use own(1,2,4-) mine in \<open>auto simp: thread_updates pc Cons\<close>)
  then show ?thesis by (simp add: thread_log_step_def pc Cons)
qed

text \<open>The steps that change the list of a logger or store its formatter, under its lock.\<close>

lemma step_list:
  assumes inv: "threads_inv r s"
    and pc: "lt_pc s t = N_add_push lg a \<or> lt_pc s t = N_del_erase lg a \<or> lt_pc s t = N_fmt_store lg f"
  shows "\<exists>s'. thread_log_step t s = Inr s' \<and> threads_inv r s'"
proof -
  note own = inv_locks [OF inv, where t = t] inv_members [OF inv] and fits = inv_fits [OF inv, of t]
  from pc show ?thesis
  proof (elim disjE)
    assume pc: "lt_pc s t = N_add_push lg a"
    have "threads_inv r (lt_at t (N_unlock [lg]) (push_appender lg a s))"
      by (rule inv_move [OF inv, where t = t]) (use fits own in \<open>auto simp: thread_updates pc\<close>)
    then show ?thesis by (simp add: thread_log_step_def pc)
  next
    assume pc: "lt_pc s t = N_del_erase lg a"
    have "lt_lg s r \<noteq> Some t" using own(3) [of r] fits by (simp add: pc)
    then have "threads_inv r (lt_at t (N_unlock [lg]) (erase_appender lg a s))"
      by (intro inv_move [OF inv, where t = t and pc' = "N_unlock [lg]"])
        (use fits own in \<open>auto simp: thread_updates pc dest: notin_set_remove1 set_remove1_subset [THEN subsetD]\<close>)
    then show ?thesis by (simp add: thread_log_step_def pc)
  next
    assume pc: "lt_pc s t = N_fmt_store lg f"
    have "threads_inv r (lt_at t (N_fmt_next lg (lt_ver s lg) 0) (store_formatter lg f s))"
      by (rule inv_move [OF inv, where t = t]) (use fits own in \<open>auto simp: thread_updates pc\<close>)
    then show ?thesis by (simp add: thread_log_step_def pc)
  qed
qed

lemma thread_step_inv:
  assumes inv: "threads_inv r s"
  shows "\<exists>s'. thread_log_step t s = Inr s' \<and> threads_inv r s'"
proof (cases "lt_pc s t")
  case (N_begin h lg l e)
  have "lt_apps s lg = [] \<Longrightarrow> lt_root s lg = Some r \<and> lg \<noteq> r" using inv by (auto simp: threads_inv_def rooted_def)
  then show ?thesis using inv_at [OF inv, of _ t] inv_fits(1) [OF inv, of t]
    by (auto simp: thread_log_step_def N_begin inside_of_def comes_from_def)
next
  case (N_fmt_next lg v i)
  then show ?thesis using inv_at [OF inv, of _ t] inv_fits(1) [OF inv, of t] by (auto simp: thread_log_step_def Let_def)
next
  case (N_fmt_give lg v i a)
  have "threads_inv r (give_formatter lg a t (N_fmt_next lg v (Suc i)) s)"
    by (rule inv_give [OF inv]) (use inv_fits(1) [OF inv, of t] in \<open>simp_all add: N_fmt_give\<close>)
  then show ?thesis using inv_fits(1) [OF inv, of t] by (simp add: thread_log_step_def N_fmt_give)
next
  case (N_add_give lg a)
  have "threads_inv r (give_formatter lg a t (N_add_push lg a) s)" by (rule inv_give [OF inv]) (simp_all add: N_add_give)
  then show ?thesis by (simp add: thread_log_step_def N_add_give)
next
  case (N_apfmt a f)
  then have "f \<noteq> None" using inv_fits(1) [OF inv, of t] by simp
  then have "threads_inv r (lt_at t N_idle (s\<lparr>lt_apfmt := (lt_apfmt s)(a := f), lt_own := (lt_own s)(a := (f \<noteq> None))\<rparr>))"
    by (intro inv_formatter [OF inv]) (simp_all add: N_apfmt)
  then show ?thesis using inv by (simp add: thread_log_step_def N_apfmt own_formatter_def)
next
  case (N_yaml_next lg v i)
  then show ?thesis using inv inv_at [OF inv, of _ t] inv_fits(1) [OF inv, of t] by (auto simp: thread_log_step_def)
next
  case (N_add_read lg a)
  then show ?thesis using inv inv_at [OF inv, of _ t] by (auto simp: thread_log_step_def)
next
  case (N_lock h lg l e)
  then show ?thesis using inv_lock [OF inv, of _ lg t] inv_fits(1) [OF inv, of t]
    by (simp add: thread_log_step_def inside_of_def)
next
  case (N_enter h lg l e)
  then show ?thesis using inv_at [OF inv, of _ t] inv_fits(1) [OF inv, of t] by (simp add: thread_log_step_def)
next
  case (N_clear lg)
  then show ?thesis using inv_fits(1) [OF inv, of t] by simp
next
  case (N_next h lg v i l e)
  then show ?thesis by (rule step_next [OF inv])
next
  case (N_app h lg v i a l e)
  then show ?thesis by (rule step_app [OF inv])
next
  case (N_print h lg v i a l e)
  then show ?thesis by (rule step_print [OF inv])
next
  case (N_unlock h)
  then show ?thesis by (rule step_unlock [OF inv])
next
  case (N_add_push lg a)
  then show ?thesis using step_list [OF inv] by blast
next
  case (N_del_erase lg a)
  then show ?thesis using step_list [OF inv] by blast
next
  case (N_fmt_store lg f)
  then show ?thesis using step_list [OF inv] by blast
qed (use inv inv_at [OF inv, of _ t] inv_lock [OF inv, of _ _ t] inv_fits(1) [OF inv, of t] in \<open>simp_all add: thread_log_step_def\<close>)

section \<open>Logging by many threads\<close>

text \<open>Nobody clears a logger, takes an appender from the root logger, sets a null formatter or the level
  of an appender.\<close>

fun no_clear :: "addr \<Rightarrow> 'e log_act \<Rightarrow> 'e log_threads \<Rightarrow> bool" where
  "no_clear r (Clear_call t lg) s = False"
| "no_clear r (Del_call t lg a) s = (lg \<noteq> r)"
| "no_clear r (Format_call t lg f) s = (f \<noteq> None)"
| "no_clear r (Own_format_call t a f) s = (f \<noteq> None)"
| "no_clear r (Own_level_call t a l) s = False"
| "no_clear r _ s = True"

lemma inv_level:
  assumes "threads_inv r s"
  shows "threads_inv r (s\<lparr>lt_level := lv\<rparr>)"
proof -
  have "pc_fits r (s\<lparr>lt_level := lv\<rparr>) (lt_pc s t) \<and> pc_printed t (s\<lparr>lt_level := lv\<rparr>) (lt_pc s t)" for t
    by (rule pc_frame [of r s]) (use assms in \<open>simp_all add: threads_inv_def lines_of_def\<close>)
  then show ?thesis using assms by (simp add: threads_inv_def rooted_def dressed_def locks_ok_def)
qed

interpretation logging: safe_steps log_act "no_clear r" "threads_inv r" for r
proof (unfold_locales, goal_cases)
  case (1 s act)
  note inv = 1(1)
  have call: "threads_inv r (if lt_pc s t = N_idle then lt_at t pc s else s)"
    if "pc_fits r s pc" "held pc = []" "held_ap pc = None" "pc_printed t s pc" for t pc
  proof (cases "lt_pc s t = N_idle")
    case True
    have "pc_fits r (lt_at t pc s) pc \<and> pc_printed t (lt_at t pc s) pc"
      by (rule pc_frame [OF that(1,4)]) (simp_all add: that(2) thread_updates)
    then have "threads_inv r (lt_at t pc s)"
      by (intro inv_move [OF inv, where t = t])
        (use True that inv in \<open>auto simp: thread_updates threads_inv_def rooted_def dressed_def\<close>)
    then show ?thesis using True by simp
  qed (use inv in simp)
  show ?case
  proof (cases act)
    case (Log_call t lg l e)
    then show ?thesis using call [of "N_enter [] lg l e" t] by (simp add: log_act_def comes_from_def)
  next
    case (Clear_call t lg)
    then show ?thesis using 1(2) by simp
  next
    case (Add_call t lg a)
    then show ?thesis using call [of "N_add_lock lg a" t] by (simp add: log_act_def)
  next
    case (Del_call t lg a)
    then show ?thesis using call [of "N_del_lock lg a" t] 1(2) by (simp add: log_act_def)
  next
    case (Format_call t lg f)
    then show ?thesis using call [of "N_fmt_lock lg f" t] 1(2) by (simp add: log_act_def)
  next
    case (Own_format_call t a f)
    then show ?thesis using call [of "N_apfmt a f" t] 1(2) by (simp add: log_act_def)
  next
    case (Get_call t lg)
    then show ?thesis using call [of "N_get_lock lg" t] by (simp add: log_act_def)
  next
    case (Yaml_call t lg)
    then show ?thesis using call [of "N_yaml_lock lg" t] by (simp add: log_act_def)
  next
    case (Level_call t lg l)
    then show ?thesis using inv inv_level [OF inv] by (simp add: log_act_def)
  next
    case (Own_level_call t a l)
    then show ?thesis using 1(2) by simp
  next
    case (Log_go t)
    then show ?thesis using thread_step_inv [OF inv, of t] by (simp add: log_act_def)
  qed
qed

lemma quiet_inv:
  assumes "\<forall>lg. lg \<noteq> r \<longrightarrow> root lg = Some r" "apps r \<noteq> []" "\<forall>lg. fmt lg \<noteq> None \<and> (\<forall>a\<in>set (apps lg). apfmt a \<noteq> None)"
  shows "threads_inv r (quiet_threads apps root lv aplv fmt apfmt own)"
  using assms by (simp add: threads_inv_def rooted_def dressed_def locks_ok_def quiet_threads_def)

text \<open>A thread spins when the lock it wants is taken.\<close>

fun spins :: "'e log_threads \<Rightarrow> 'e log_pc \<Rightarrow> bool" where
  "spins s (N_lock h lg l e) = (lt_lg s lg \<noteq> None)"
| "spins s (N_app h lg v i a l e) = (lt_ap s a \<noteq> None)"
| "spins s (N_add_lock lg a) = (lt_lg s lg \<noteq> None)"
| "spins s (N_add_read lg a) = (lt_ap s a \<noteq> None)"
| "spins s (N_add_give lg a) = (lt_ap s a \<noteq> None)"
| "spins s (N_del_lock lg a) = (lt_lg s lg \<noteq> None)"
| "spins s (N_fmt_lock lg f) = (lt_lg s lg \<noteq> None)"
| "spins s (N_fmt_give lg v i a) = (lt_ap s a \<noteq> None)"
| "spins s (N_apfmt a f) = (lt_ap s a \<noteq> None)"
| "spins s (N_get_lock lg) = (lt_lg s lg \<noteq> None)"
| "spins s (N_yaml_lock lg) = (lt_lg s lg \<noteq> None)"
| "spins s (N_yaml_next lg v i) = (i < length (lt_apps s lg) \<and> lt_ap s (lt_apps s lg ! i) \<noteq> None)"
| "spins s _ = False"

text \<open>Locks are taken in the order logger, root logger, appender, so some thread goes on.\<close>

lemma some_thread_goes_on:
  assumes inv: "threads_inv r s" and t: "lt_pc s t \<noteq> N_idle"
  shows "\<exists>u. lt_pc s u \<noteq> N_idle \<and> \<not> spins s (lt_pc s u)"
proof (rule ccontr)
  assume "\<not> ?thesis"
  then have all: "spins s (lt_pc s u)" if "lt_pc s u \<noteq> N_idle" for u using that by blast
  have locks: "lt_lg s a = Some u \<longleftrightarrow> a \<in> set (held (lt_pc s u))" "lt_ap s a = Some u \<longleftrightarrow> held_ap (lt_pc s u) = Some a" for a u
    using inv by (simp_all add: threads_inv_def locks_ok_def)
  have fits: "pc_fits r s (lt_pc s u)" for u using inv by (simp add: threads_inv_def)
  have ap: "lt_ap s a = None" for a
  proof (cases "lt_ap s a")
    case (Some u)
    then have "held_ap (lt_pc s u) = Some a" using locks(2) by blast
    then show ?thesis using all [of u] by (cases "lt_pc s u") auto
  qed
  have waits: "(\<exists>h lg l e. lt_pc s u = N_lock h lg l e) \<or> (\<exists>lg. (\<exists>a. lt_pc s u = N_add_lock lg a \<or> lt_pc s u = N_del_lock lg a) \<or>
      (\<exists>f. lt_pc s u = N_fmt_lock lg f) \<or> lt_pc s u = N_get_lock lg \<or> lt_pc s u = N_yaml_lock lg)" if "lt_pc s u \<noteq> N_idle" for u
    using all [OF that] that ap by (cases "lt_pc s u") auto
  have root_free: "lt_lg s r = None"
  proof (cases "lt_lg s r")
    case (Some u)
    then have u: "r \<in> set (held (lt_pc s u))" using locks(1) by blast
    then have "lt_pc s u \<noteq> N_idle" by auto
    from u waits [OF this] fits [of u] show ?thesis by (auto simp: comes_from_def)
  qed
  have free: "lt_lg s a = None" for a
  proof (cases "lt_lg s a")
    case (Some u)
    then have u: "a \<in> set (held (lt_pc s u))" using locks(1) by blast
    then have ne: "lt_pc s u \<noteq> N_idle" by auto
    from u waits [OF ne] fits [of u] obtain l e where "lt_pc s u = N_lock [a] r l e" by (auto simp: comes_from_def)
    then show ?thesis using all [OF ne] root_free by simp
  qed
  from waits [OF t] all [OF t] free show False by auto
qed


text \<open>Two threads log to a logger without appenders; the second waits while the first is in the root
  logger, which prints.\<close>

definition two_threads :: "string log_act list" where
  "two_threads = [Log_call 1 5 INFO ''a'', Log_call 2 5 INFO ''b'', Log_go 1, Log_go 1, Log_go 2, Log_go 2] @ replicate 7 (Log_go 1) @ [Log_go 2]"

abbreviation two_loggers :: "string log_threads" where
  "two_loggers \<equiv> quiet_threads (\<lambda>lg. if lg = 0 then [3] else []) (\<lambda>lg. if lg = 0 then None else Some 0) (\<lambda>_. DEBUG) (\<lambda>_. DEBUG)
     (\<lambda>_. Some (mk_formatter ''%m'')) (\<lambda>_. Some (mk_formatter ''%m'')) (\<lambda>_. False)"

lemma two_threads_run:
  "\<exists>s. rfold log_act two_threads two_loggers = Inr s \<and> lt_pc s 1 = N_next [0, 5] 0 0 1 INFO ''a'' \<and>
     lt_pc s 2 = N_lock [] 5 INFO ''b'' \<and> lt_apps s 0 = [3] \<and> lt_aplevel s 3 = DEBUG"
  by (simp add: two_threads_def numeral_eq_Suc log_act_def thread_log_step_def appender_enter_def appender_print_def clear_list_def quiet_threads_def lt_at_def with_lg_def with_ap_def
      less_eq_level_def)


text \<open>C40. \<open>clearAppenders\<close> takes no lock: when it runs while another thread is in the loop of \<open>Logger::log\<close>, that
  thread goes on with an iterator to an erased element.\<close>

theorem clear_invalidates_iterators:
  assumes "apps lg \<noteq> []" "lv lg \<le> l" "t \<noteq> u"
  shows "rfold log_act [Log_call t lg l e, Log_go t, Log_go t, Log_go t, Clear_call u lg, Log_go u, Log_go t]
    (quiet_threads apps root lv aplv fmt apfmt own) = Inl Indeterminate"
  using assms by (simp add: log_act_def thread_log_step_def appender_enter_def appender_print_def clear_list_def quiet_threads_def lt_at_def with_lg_def set_apps_def)

theorem clear_invalidates_iterators_witness:
  "rfold log_act [Log_call 1 0 INFO ''e'', Log_go 1, Log_go 1, Log_go 1, Clear_call 2 0, Log_go 2, Log_go 1]
    (quiet_threads (\<lambda>_. [0, 1]) (\<lambda>_. None) (\<lambda>_. DEBUG) (\<lambda>_. DEBUG) (\<lambda>_. None) (\<lambda>_. None) (\<lambda>_. False)) = Inl Indeterminate"
  by (rule clear_invalidates_iterators) (simp_all add: less_eq_level_def)

text \<open>\<open>Logger::setFormatter\<close> looks at \<open>m_hasFormatter\<close> before it takes the appender's lock: an appender that is given a
  formatter of its own in between ends with the formatter of the logger, marked as its own.\<close>

theorem own_formatter_overwritten:
  assumes "apps lg = [a]" "\<not> own a" "f' \<noteq> None" "t \<noteq> u"
  shows "\<exists>s. rfold log_act [Format_call t lg f, Log_go t, Log_go t, Log_go t, Own_format_call u a f', Log_go u, Log_go t, Log_go t, Log_go t, Log_go t]
      (quiet_threads apps root lv aplv fmt apfmt own) = Inr s \<and>
    lt_pc s t = N_idle \<and> lt_pc s u = N_idle \<and> lt_own s a \<and> lt_apfmt s a = f"
  using assms by (simp add: log_act_def thread_log_step_def give_formatter_def own_formatter_def store_formatter_def
    quiet_threads_def lt_at_def with_lg_def)

theorem own_formatter_overwritten_witness:
  "\<exists>s. rfold log_act [Format_call 1 0 None, Log_go 1, Log_go 1, Log_go 1, Own_format_call 2 3 (Some (mk_formatter ''%m'')),
        Log_go 2, Log_go 1, Log_go 1, Log_go 1, Log_go 1]
      (quiet_threads (\<lambda>_. [3]) (\<lambda>_. None) (\<lambda>_. DEBUG) (\<lambda>_. DEBUG) (\<lambda>_. None) (\<lambda>_. None) (\<lambda>_. False)) = Inr s \<and>
    lt_own s 3 \<and> lt_apfmt s 3 = None"
  using own_formatter_overwritten [of "\<lambda>_. [3]" 0 3 "\<lambda>_. False" "Some (mk_formatter ''%m'')" 1 2 None "\<lambda>_. None"
    "\<lambda>_. DEBUG" "\<lambda>_. DEBUG" "\<lambda>_. None" "\<lambda>_. None"] by (auto simp del: rfold.simps)

end
