(* ===== verification/FileThreads.thy ===== *)
theory FileThreads
  imports Appenders
begin

text \<open>
  A file appender used by several threads (\<open>FileLogAppender\<close> of log.cpp).  Loggers call an appender they share
  under locks of their own, so \<open>log\<close> runs on several threads: it reads the clock and compares it with
  \<open>m_lastTime\<close> without the appender's spinlock, reopens the file under the lock, gives the lock back, stores
  \<open>m_lastTime\<close>, and takes the lock again to format and write the line.  The steps of the threads interleave.
\<close>

section \<open>The appender and its threads\<close>

text \<open>Where a thread stands: in \<open>log\<close>; in \<open>reopen\<close>, with the event and the time \<open>log\<close> goes on with, or
  called alone; in \<open>setFormatter\<close>; in an operation that reads under the lock.\<close>

datatype 'e file_pc =
    F_idle
  | F_time 'e
  | F_check 'e u64
  | F_reopen "('e \<times> u64) option"
  | F_close "('e \<times> u64) option"
  | F_open "('e \<times> u64) option"
  | F_opened "('e \<times> u64) option"
  | F_stamp 'e u64
  | F_lock 'e
  | F_write 'e
  | F_format_lock "formatter option"
  | F_format "formatter option"
  | F_read
  | F_unlock

text \<open>
  The members of the appender, the text in its file, the holder of the spinlock, and how often the clock was
  read and the system asked to open or write.  The lines so far, as thread, event and the formatter the line was written
  with, \<open>None\<close> where the write failed and the thread printed \<open>error\<close> instead; and the calls of \<open>log\<close> that passed
  the level.
\<close>

record 'e file_threads =
  fa_level :: level
  fa_formatter :: "formatter option"
  fa_stream :: fstream
  fa_last :: u64
  fa_file :: string
  fa_lock :: "nat option"
  fa_reads :: nat
  fa_asked :: nat
  fa_pc :: "nat \<Rightarrow> 'e file_pc"
  fa_lines :: "(nat \<times> 'e \<times> formatter option) list"
  fa_calls :: "(nat \<times> 'e) list"

text \<open>The answers of the clock and of the system in the order they are asked, and the text of an event.\<close>

record 'e file_env =
  fe_clock :: "nat \<Rightarrow> u64"
  fe_can :: "nat \<Rightarrow> bool"
  fe_format :: "formatter \<Rightarrow> 'e \<Rightarrow> fault + string"

definition fa_at :: "nat \<Rightarrow> 'e file_pc \<Rightarrow> 'e file_threads \<Rightarrow> 'e file_threads" where
  "fa_at t pc s = s\<lparr>fa_pc := (fa_pc s)(t := pc)\<rparr>"

text \<open>A thread that waits for the spinlock spins: its step changes nothing.\<close>

definition fa_acquire :: "nat \<Rightarrow> 'e file_pc \<Rightarrow> 'e file_threads \<Rightarrow> 'e file_threads" where
  "fa_acquire t pc s = (if fa_lock s = None then fa_at t pc (s\<lparr>fa_lock := Some t\<rparr>) else s)"

definition fa_release :: "nat \<Rightarrow> 'e file_pc \<Rightarrow> 'e file_threads \<Rightarrow> 'e file_threads" where
  "fa_release t pc s = fa_at t pc (s\<lparr>fa_lock := None\<rparr>)"

definition write_line :: "'e file_env \<Rightarrow> nat \<Rightarrow> 'e \<Rightarrow> formatter \<Rightarrow> string \<Rightarrow> 'e file_threads \<Rightarrow> 'e file_threads" where
  "write_line env t e f str s =
     (case fs_write (fe_can env (fa_asked s)) (fa_stream s) of
        (True, fs) \<Rightarrow> s\<lparr>fa_stream := fs, fa_asked := Suc (fa_asked s), fa_file := fa_file s @ str, fa_lines := fa_lines s @ [(t, e, Some f)]\<rparr>
      | (False, fs) \<Rightarrow> s\<lparr>fa_stream := fs, fa_asked := Suc (fa_asked s), fa_lines := fa_lines s @ [(t, e, None)]\<rparr>)"

definition file_step :: "'e file_env \<Rightarrow> nat \<Rightarrow> 'e file_threads \<Rightarrow> fault + 'e file_threads" where
  "file_step env t s =
     (case fa_pc s t of
        F_idle \<Rightarrow> Inr s
      | F_time e \<Rightarrow> Inr (fa_at t (F_check e (fe_clock env (fa_reads s))) (s\<lparr>fa_reads := Suc (fa_reads s)\<rparr>))
      | F_check e now \<Rightarrow> Inr (fa_at t (if now \<noteq> fa_last s then F_reopen (Some (e, now)) else F_lock e) s)
      | F_reopen r \<Rightarrow> Inr (fa_acquire t (F_close r) s)
      | F_close r \<Rightarrow> Inr (fa_at t (F_open r) (if fs_ok (fa_stream s) then s\<lparr>fa_stream := fs_close (fa_stream s)\<rparr> else s))
      | F_open r \<Rightarrow>
          Inr (fa_at t (F_opened r)
            (s\<lparr>fa_stream := fs_open_app (fe_can env (fa_asked s)) (fa_stream s), fa_asked := Suc (fa_asked s)\<rparr>))
      | F_opened r \<Rightarrow> Inr (fa_release t (case r of None \<Rightarrow> F_idle | Some (e, now) \<Rightarrow> F_stamp e now) s)
      | F_stamp e now \<Rightarrow> Inr (fa_at t (F_lock e) (s\<lparr>fa_last := now\<rparr>))
      | F_lock e \<Rightarrow> Inr (fa_acquire t (F_write e) s)
      | F_write e \<Rightarrow>
          (case fa_formatter s of
             None \<Rightarrow> Inl Null_deref
           | Some f \<Rightarrow> rbind (fe_format env f e) (\<lambda>str. Inr (fa_at t F_unlock (write_line env t e f str s))))
      | F_format_lock f \<Rightarrow> Inr (fa_acquire t (F_format f) s)
      | F_format f \<Rightarrow> Inr (fa_at t F_unlock (s\<lparr>fa_formatter := f\<rparr>))
      | F_read \<Rightarrow> Inr (fa_acquire t F_unlock s)
      | F_unlock \<Rightarrow> Inr (fa_release t F_idle s))"

text \<open>What the threads do: call \<open>log\<close>, \<open>reopen\<close>, \<open>setFormatter\<close>, one of \<open>getFormatter\<close> and \<open>toYamlString\<close>, or
  \<open>setLevel\<close> (one store), or go on.\<close>

datatype 'e file_act =
    File_log nat level 'e
  | File_reopen nat
  | File_format nat "formatter option"
  | File_read nat
  | File_level level
  | File_go nat

definition file_act :: "'e file_env \<Rightarrow> 'e file_act \<Rightarrow> 'e file_threads \<Rightarrow> fault + 'e file_threads" where
  "file_act env act s =
     (let call = (\<lambda>t s'. Inr (if fa_pc s t = F_idle then s' else s))
      in (case act of
            File_log t l e \<Rightarrow> call t (if fa_level s \<le> l then fa_at t (F_time e) (s\<lparr>fa_calls := fa_calls s @ [(t, e)]\<rparr>) else s)
          | File_reopen t \<Rightarrow> call t (fa_at t (F_reopen None) s)
          | File_format t f \<Rightarrow> call t (fa_at t (F_format_lock f) s)
          | File_read t \<Rightarrow> call t (fa_at t F_read s)
          | File_level l \<Rightarrow> Inr (s\<lparr>fa_level := l\<rparr>)
          | File_go t \<Rightarrow> file_step env t s))"

definition file_start :: "level \<Rightarrow> formatter option \<Rightarrow> fstream \<Rightarrow> u64 \<Rightarrow> string \<Rightarrow> 'e file_threads" where
  "file_start l f st stamp text =
     \<lparr>fa_level = l, fa_formatter = f, fa_stream = st, fa_last = stamp, fa_file = text, fa_lock = None, fa_reads = 0,
      fa_asked = 0, fa_pc = (\<lambda>_. F_idle), fa_lines = [], fa_calls = []\<rparr>"

section \<open>The invariant\<close>

fun locked :: "'e file_pc \<Rightarrow> bool" where
  "locked (F_close r) = True"
| "locked (F_open r) = True"
| "locked (F_opened r) = True"
| "locked (F_write e) = True"
| "locked (F_format f) = True"
| "locked F_unlock = True"
| "locked _ = False"

text \<open>The event a thread has not written yet.\<close>

fun pending :: "'e file_pc \<Rightarrow> 'e list" where
  "pending (F_time e) = [e]"
| "pending (F_check e now) = [e]"
| "pending (F_reopen r) = (case r of None \<Rightarrow> [] | Some (e, now) \<Rightarrow> [e])"
| "pending (F_close r) = (case r of None \<Rightarrow> [] | Some (e, now) \<Rightarrow> [e])"
| "pending (F_open r) = (case r of None \<Rightarrow> [] | Some (e, now) \<Rightarrow> [e])"
| "pending (F_opened r) = (case r of None \<Rightarrow> [] | Some (e, now) \<Rightarrow> [e])"
| "pending (F_stamp e now) = [e]"
| "pending (F_lock e) = [e]"
| "pending (F_write e) = [e]"
| "pending _ = []"

fun formats :: "'e file_pc \<Rightarrow> bool" where
  "formats (F_format_lock f) = (f \<noteq> None)"
| "formats (F_format f) = (f \<noteq> None)"
| "formats _ = True"

definition event_lines :: "nat \<Rightarrow> 'e file_threads \<Rightarrow> 'e list" where
  "event_lines t s = map (\<lambda>(u, e, f). e) (filter (\<lambda>(u, e, f). u = t) (fa_lines s))"

definition event_calls :: "nat \<Rightarrow> 'e file_threads \<Rightarrow> 'e list" where
  "event_calls t s = map snd (filter (\<lambda>(u, e). u = t) (fa_calls s))"

text \<open>The text of the lines that reached the file.\<close>

fun text_of :: "'e file_env \<Rightarrow> nat \<times> 'e \<times> formatter option \<Rightarrow> string" where
  "text_of env (t, e, None) = []"
| "text_of env (t, e, Some f) = (case fe_format env f e of Inl _ \<Rightarrow> [] | Inr str \<Rightarrow> str)"

definition lock_ok :: "'e file_threads \<Rightarrow> bool" where
  "lock_ok s \<longleftrightarrow>
     (case fa_lock s of None \<Rightarrow> (\<forall>t. \<not> locked (fa_pc s t)) | Some h \<Rightarrow> (\<forall>t. locked (fa_pc s t) \<longleftrightarrow> t = h))"

definition lines_ok :: "'e file_env \<Rightarrow> string \<Rightarrow> 'e file_threads \<Rightarrow> bool" where
  "lines_ok env text s \<longleftrightarrow> fa_file s = text @ concat (map (text_of env) (fa_lines s)) \<and>
     (\<forall>t. event_calls t s = event_lines t s @ pending (fa_pc s t))"

definition formats_ok :: "'e file_threads \<Rightarrow> bool" where
  "formats_ok s \<longleftrightarrow> fa_formatter s \<noteq> None \<and> (\<forall>t. formats (fa_pc s t))"

definition file_inv :: "'e file_env \<Rightarrow> string \<Rightarrow> 'e file_threads \<Rightarrow> bool" where
  "file_inv env text s \<longleftrightarrow> lock_ok s \<and> lines_ok env text s \<and> formats_ok s"

definition format_given :: "'e file_act \<Rightarrow> bool" where
  "format_given act = (case act of File_format t f \<Rightarrow> f \<noteq> None | _ \<Rightarrow> True)"

definition formats_all :: "'e file_env \<Rightarrow> bool" where
  "formats_all env \<longleftrightarrow> (\<forall>f e. is_ok (fe_format env f e))"

lemma fa_simps [simp]:
  "fa_pc (fa_at t pc s) = (fa_pc s)(t := pc)" "fa_level (fa_at t pc s) = fa_level s" "fa_formatter (fa_at t pc s) = fa_formatter s"
  "fa_stream (fa_at t pc s) = fa_stream s" "fa_file (fa_at t pc s) = fa_file s" "fa_lock (fa_at t pc s) = fa_lock s"
  "fa_lines (fa_at t pc s) = fa_lines s" "fa_calls (fa_at t pc s) = fa_calls s" "fa_last (fa_at t pc s) = fa_last s"
  "fa_reads (fa_at t pc s) = fa_reads s" "fa_asked (fa_at t pc s) = fa_asked s"
  by (simp_all add: fa_at_def)

lemma write_line_simps [simp]:
  "fa_pc (write_line env t e f str s) = fa_pc s" "fa_lock (write_line env t e f str s) = fa_lock s"
  "fa_formatter (write_line env t e f str s) = fa_formatter s" "fa_calls (write_line env t e f str s) = fa_calls s"
  by (simp_all add: write_line_def split: prod.split bool.split)

lemmas file_moves = fa_acquire_def fa_release_def

lemma file_inv_start: "f \<noteq> None \<Longrightarrow> file_inv env text (file_start l f st stamp text)"
  by (simp add: file_inv_def lock_ok_def lines_ok_def formats_ok_def file_start_def event_lines_def event_calls_def)

lemma file_step_others: "file_step env t s = Inr s' \<Longrightarrow> u \<noteq> t \<Longrightarrow> fa_pc s' u = fa_pc s u"
  by (auto simp: file_step_def file_moves split: file_pc.splits option.splits if_splits)

lemma holder: "lock_ok s \<Longrightarrow> locked (fa_pc s t) \<longleftrightarrow> fa_lock s = Some t"
  by (auto simp: lock_ok_def split: option.splits)

lemma file_step_calls: "file_step env t s = Inr s' \<Longrightarrow> fa_calls s' = fa_calls s"
  by (auto simp: file_step_def file_moves split: file_pc.splits option.splits if_splits)

lemma lock_ok_step:
  assumes "lock_ok s" "file_step env t s = Inr s'"
  shows "lock_ok s'"
proof (cases "locked (fa_pc s t)")
  case True
  moreover from True have "fa_lock s = Some t" using holder [OF assms(1)] by blast
  ultimately show ?thesis using assms
    by (cases "fa_pc s t") (auto simp: lock_ok_def file_step_def file_moves split: option.splits if_splits)
next
  case False
  then have "fa_lock s \<noteq> Some t" using holder [OF assms(1)] by blast
  then show ?thesis using assms False
    by (cases "fa_pc s t") (auto simp: lock_ok_def file_step_def file_moves split: option.splits if_splits)
qed

lemma formats_ok_step: "formats_ok s \<Longrightarrow> file_step env t s = Inr s' \<Longrightarrow> formats_ok s'"
proof -
  assume "formats_ok s" "file_step env t s = Inr s'"
  moreover have "formats (fa_pc s t)" using \<open>formats_ok s\<close> by (simp add: formats_ok_def)
  ultimately show ?thesis
    by (cases "fa_pc s t") (auto simp: formats_ok_def file_step_def file_moves split: option.splits if_splits)
qed

lemma lines_ok_step:
  assumes "lines_ok env text s" "file_step env t s = Inr s'"
  shows "lines_ok env text s'"
proof (cases "fa_pc s t")
  case (F_write e)
  then obtain f str where f: "fa_formatter s = Some f" "fe_format env f e = Inr str"
    "s' = fa_at t F_unlock (write_line env t e f str s)" using assms(2) by (auto simp: file_step_def split: option.splits)
  have "event_calls t s = event_lines t s @ [e]" using assms(1) F_write by (simp add: lines_ok_def)
  then show ?thesis using assms(1) f(2)
    by (auto simp: lines_ok_def f(3) write_line_def event_lines_def event_calls_def split: prod.split bool.split)
next
  case (F_opened r)
  then show ?thesis using assms
    by (cases r) (auto simp: lines_ok_def file_step_def file_moves event_lines_def event_calls_def dest: spec [of _ t])
qed (use assms in \<open>auto simp: lines_ok_def file_step_def file_moves event_lines_def event_calls_def dest: spec [of _ t] split: if_splits\<close>)

lemma file_step_inv: "file_inv env text s \<Longrightarrow> file_step env t s = Inr s' \<Longrightarrow> file_inv env text s'"
  unfolding file_inv_def by (blast intro: lock_ok_step lines_ok_step formats_ok_step)

lemma file_step_safe:
  assumes "file_inv env text s" "formats_all env"
  shows "\<exists>s'. file_step env t s = Inr s' \<and> file_inv env text s'"
proof -
  obtain f where "fa_formatter s = Some f" using assms(1) by (auto simp: file_inv_def formats_ok_def)
  moreover have "\<exists>str. fe_format env f e = Inr str" for f e using assms(2) by (metis formats_all_def is_okE)
  ultimately have "\<exists>s'. file_step env t s = Inr s'"
    by (cases "fa_pc s t") (simp_all add: file_step_def)
  then show ?thesis using file_step_inv [OF assms(1)] by blast
qed

lemma file_call_inv:
  assumes "file_inv env text s" "fa_pc s t = F_idle" "\<not> locked pc" "formats pc" "pending pc = es"
  shows "file_inv env text (fa_at t pc (s\<lparr>fa_calls := fa_calls s @ map (Pair t) es\<rparr>))"
proof -
  have lock: "lock_ok s" and lines: "lines_ok env text s" and fmt: "formats_ok s" using assms(1) by (simp_all add: file_inv_def)
  have "fa_lock s \<noteq> Some t" using holder [OF lock, of t] assms(2) by simp
  then have "lock_ok (fa_at t pc (s\<lparr>fa_calls := fa_calls s @ map (Pair t) es\<rparr>))" using lock assms(3)
    by (auto simp: lock_ok_def split: option.splits)
  moreover have "event_calls u (fa_at t pc (s\<lparr>fa_calls := fa_calls s @ map (Pair t) es\<rparr>)) = event_calls u s @ (if u = t then es else [])" for u
    by (simp add: event_calls_def filter_map comp_def)
  moreover have "event_calls t s = event_lines t s" using lines assms(2) by (simp add: lines_ok_def)
  ultimately show ?thesis using lines fmt assms(4,5) by (auto simp: file_inv_def lines_ok_def formats_ok_def event_lines_def)
qed

lemma file_act_safe:
  assumes "file_inv env text s" "formats_all env" "format_given act"
  shows "\<exists>s'. file_act env act s = Inr s' \<and> file_inv env text s'"
proof (cases act)
  case (File_go t)
  then show ?thesis using file_step_safe [OF assms(1,2)] by (simp add: file_act_def)
next
  case (File_level l)
  then show ?thesis using assms(1)
    by (auto simp: file_act_def file_inv_def lock_ok_def lines_ok_def formats_ok_def event_lines_def event_calls_def split: option.splits)
next
  case (File_log t l e)
  then show ?thesis using assms(1) file_call_inv [OF assms(1), of t "F_time e" "[e]"]
    by (simp add: file_act_def fa_at_def)
next
  case (File_reopen t)
  then show ?thesis using assms(1) file_call_inv [OF assms(1), of t "F_reopen None" "[]"] by (simp add: file_act_def)
next
  case (File_format t f)
  then show ?thesis using assms(1,3) file_call_inv [OF assms(1), of t "F_format_lock f" "[]"]
    by (simp add: file_act_def format_given_def)
next
  case (File_read t)
  then show ?thesis using assms(1) file_call_inv [OF assms(1), of t F_read "[]"] by (simp add: file_act_def)
qed

interpretation files: safe_steps "file_act env" "\<lambda>act s. format_given act" "\<lambda>s. formats_all env \<and> file_inv env init s" for env init
  by unfold_locales (use file_act_safe in blast)

lemma given_permitted: "list_all P acts \<Longrightarrow> permitted (\<lambda>act s. P act) step acts s"
  by (rule permitted_static) (simp add: list_all_iff)

section \<open>The stream\<close>

text \<open>While every request to the system succeeds, the stream is open and good but between \<open>close\<close> and \<open>open\<close>.\<close>

fun reopening :: "'e file_pc \<Rightarrow> bool" where
  "reopening (F_open r) = True"
| "reopening _ = False"

definition stream_good :: "'e file_threads \<Rightarrow> bool" where
  "stream_good s \<longleftrightarrow> lock_ok s \<and> fs_ok (fa_stream s) \<and>
     fs_open (fa_stream s) = (case fa_lock s of None \<Rightarrow> True | Some h \<Rightarrow> \<not> reopening (fa_pc s h)) \<and>
     (\<forall>t e. (t, e, None) \<notin> set (fa_lines s))"

lemma stream_good_step:
  assumes "stream_good s" "\<forall>n. fe_can env n" "file_step env t s = Inr s'"
  shows "stream_good s'"
proof -
  have lock: "lock_ok s" "lock_ok s'" using assms(1,3) lock_ok_step by (auto simp: stream_good_def)
  show ?thesis
  proof (cases "locked (fa_pc s t)")
    case True
    moreover from True have "fa_lock s = Some t" using holder [OF lock(1)] by blast
    ultimately show ?thesis using assms lock(2)
      by (cases "fa_pc s t")
        (auto simp: stream_good_def file_step_def file_moves fs_close_def fs_open_app_def fs_write_def write_line_def
          split: option.splits if_splits)
  next
    case False
    then have "fa_lock s \<noteq> Some t" using holder [OF lock(1)] by blast
    then show ?thesis using assms lock(2) False
      by (cases "fa_pc s t") (auto simp: stream_good_def file_step_def file_moves split: option.splits if_splits)
  qed
qed

lemma stream_good_act:
  assumes "stream_good s" "\<forall>n. fe_can env n" "file_act env act s = Inr s'"
  shows "stream_good s'"
proof -
  have idle: "fa_lock s \<noteq> Some t" if "fa_pc s t = F_idle" for t
    using holder [of s t] that assms(1) by (auto simp: stream_good_def)
  show ?thesis using assms(1,3) idle stream_good_step [OF assms(1,2)]
    by (cases act) (auto simp: stream_good_def file_act_def lock_ok_def split: option.splits if_splits)
qed

interpretation good: keeps "file_act env" "\<lambda>s. (\<forall>n. fe_can env n) \<and> stream_good s" for env
  by unfold_locales (blast intro: stream_good_act)

lemma stream_good_start: "fs_open st \<Longrightarrow> fs_ok st \<Longrightarrow> stream_good (file_start l f st stamp init)"
  by (simp add: stream_good_def lock_ok_def file_start_def)

text \<open>A stream that is left open and not good stays so, and no line reaches the file.\<close>

definition stream_bad :: "'e file_threads \<Rightarrow> bool" where
  "stream_bad s \<longleftrightarrow> fs_open (fa_stream s) \<and> \<not> fs_ok (fa_stream s)"

definition lost_from :: "(nat \<times> 'e \<times> formatter option) list \<Rightarrow> string \<Rightarrow> 'e file_threads \<Rightarrow> bool" where
  "lost_from ls init s \<longleftrightarrow> stream_bad s \<and> fa_file s = init \<and> (\<exists>more. fa_lines s = ls @ more \<and> (\<forall>(t, e, f)\<in>set more. f = None))"

lemma lost_from_act: "lost_from ls init s \<Longrightarrow> file_act env act s = Inr s' \<Longrightarrow> lost_from ls init s'"
proof -
  have step: "lost_from ls init s \<Longrightarrow> file_step env t s = Inr s' \<Longrightarrow> lost_from ls init s'" for t
    by (cases "fa_pc s t")
      (auto simp: lost_from_def stream_bad_def file_step_def file_moves fs_open_app_def fs_write_def write_line_def
        split: option.splits if_splits)
  show "lost_from ls init s \<Longrightarrow> file_act env act s = Inr s' \<Longrightarrow> lost_from ls init s'"
    using step by (cases act) (auto simp: file_act_def lost_from_def stream_bad_def split: if_splits)
qed

interpretation lost: keeps "file_act env" "lost_from ls init" for env ls init
  by unfold_locales (rule lost_from_act)

section \<open>Lines\<close>

text \<open>C11. Threads that log to one file appender, reopen it, give it formatters, read it and set its level at the same
  time never fault, are in its critical sections one at a time, and lose nothing: the file holds whole lines one after
  the other, and each thread's calls are, in their order, the lines it wrote or reported as failed and the one it is
  about to write; if the system opens and writes whenever it is asked, no line fails.\<close>

theorem file_lines:
  assumes "formats_all env" "f0 \<noteq> None" "list_all format_given acts"
  shows "\<exists>s. rfold (file_act env) acts (file_start l f0 st stamp init) = Inr s \<and>
    fa_file s = init @ concat (map (text_of env) (fa_lines s)) \<and>
    (\<forall>t. event_calls t s = event_lines t s @ pending (fa_pc s t)) \<and>
    (\<forall>t u. locked (fa_pc s t) \<longrightarrow> locked (fa_pc s u) \<longrightarrow> t = u) \<and>
    ((\<forall>n. fe_can env n) \<longrightarrow> fs_open st \<longrightarrow> fs_ok st \<longrightarrow> (\<forall>t e. (t, e, None) \<notin> set (fa_lines s)))"
proof -
  let ?s0 = "file_start l f0 st stamp init"
  obtain s where s: "rfold (file_act env) acts ?s0 = Inr s" "file_inv env init s"
    using files.run_safe [OF given_permitted [OF assms(3)], of env init ?s0] assms(1) file_inv_start [OF assms(2), of env init] by blast
  have "stream_good s" if "\<forall>n. fe_can env n" "fs_open st" "fs_ok st"
    using good.loop_keeps [OF s(1)] that stream_good_start [of st l f0 stamp init] by blast
  then have all: "(\<forall>n. fe_can env n) \<longrightarrow> fs_open st \<longrightarrow> fs_ok st \<longrightarrow> (\<forall>t e. (t, e, None) \<notin> set (fa_lines s))"
    by (auto simp: stream_good_def)
  have "locked (fa_pc s t) \<longrightarrow> locked (fa_pc s u) \<longrightarrow> t = u" for t u
    using s(2) holder [of s] by (auto simp: file_inv_def)
  then show ?thesis using s all by (auto simp: file_inv_def lines_ok_def)
qed

text \<open>C39. One write that fails loses every line after it, on all threads: whatever the threads do and the system
  would allow afterwards, \<open>reopen\<close> does not close a stream that is not good, opening an open stream fails, and each
  later line is reported as an error.\<close>

theorem failed_write_loses_all:
  assumes "stream_bad s" "rfold (file_act env) acts s = Inr s'"
  shows "stream_bad s' \<and> fa_file s' = fa_file s \<and>
    (\<exists>more. fa_lines s' = fa_lines s @ more \<and> (\<forall>(t, e, f)\<in>set more. f = None))"
proof -
  have "lost_from (fa_lines s) (fa_file s) s" using assms(1) by (simp add: lost_from_def)
  then have "lost_from (fa_lines s) (fa_file s) s'" by (rule lost.loop_keeps [OF assms(2)])
  then show ?thesis by (simp add: lost_from_def)
qed

section \<open>Every call returns\<close>

text \<open>An upper bound of the steps a thread has left, those in which it spins not counted.\<close>

fun file_rank :: "'e file_pc \<Rightarrow> nat" where
  "file_rank F_idle = 0"
| "file_rank (F_time e) = 10"
| "file_rank (F_check e now) = 9"
| "file_rank (F_reopen r) = 8"
| "file_rank (F_close r) = 7"
| "file_rank (F_open r) = 6"
| "file_rank (F_opened r) = 5"
| "file_rank (F_stamp e now) = 4"
| "file_rank (F_lock e) = 3"
| "file_rank (F_write e) = 2"
| "file_rank (F_format_lock f) = 3"
| "file_rank (F_format f) = 2"
| "file_rank F_read = 2"
| "file_rank F_unlock = 1"

definition file_work :: "nat \<Rightarrow> 'e file_threads \<Rightarrow> nat" where
  "file_work n s = (\<Sum>t<n. file_rank (fa_pc s t))"

definition only_threads :: "nat \<Rightarrow> 'e file_threads \<Rightarrow> bool" where
  "only_threads n s \<longleftrightarrow> (\<forall>t\<ge>n. fa_pc s t = F_idle)"

definition file_done :: "'e file_threads \<Rightarrow> bool" where
  "file_done s \<longleftrightarrow> (\<forall>t. fa_pc s t = F_idle)"

definition file_helper :: "'e file_threads \<Rightarrow> nat" where
  "file_helper s = (case fa_lock s of Some h \<Rightarrow> h | None \<Rightarrow> (LEAST t. fa_pc s t \<noteq> F_idle))"

lemma file_step_rank:
  "file_step env t s = Inr s' \<Longrightarrow> file_rank (fa_pc s' t) < file_rank (fa_pc s t) \<or>
     s' = s \<and> (fa_pc s t = F_idle \<or> fa_lock s \<noteq> None \<and> \<not> locked (fa_pc s t))"
  by (cases "fa_pc s t") (auto simp: file_step_def file_moves split: option.splits if_splits)

lemma file_helper_moves:
  assumes "lock_ok s" "\<not> file_done s" "only_threads n s"
  shows "fa_pc s (file_helper s) \<noteq> F_idle" "fa_lock s = None \<or> locked (fa_pc s (file_helper s))" "file_helper s < n"
proof -
  obtain t where t: "fa_pc s t \<noteq> F_idle" using assms(2) by (auto simp: file_done_def)
  show idle: "fa_pc s (file_helper s) \<noteq> F_idle"
  proof (cases "fa_lock s")
    case None
    then show ?thesis using LeastI [where P = "\<lambda>t. fa_pc s t \<noteq> F_idle", OF t] by (simp add: file_helper_def)
  next
    case (Some h)
    then have "locked (fa_pc s h)" using holder [OF assms(1)] by blast
    then show ?thesis using Some by (auto simp: file_helper_def)
  qed
  show "fa_lock s = None \<or> locked (fa_pc s (file_helper s))"
    using holder [OF assms(1)] by (auto simp: file_helper_def split: option.splits)
  show "file_helper s < n" using idle assms(3) by (meson only_threads_def not_le)
qed

lemma file_progress:
  assumes "file_inv env init s" "formats_all env" "only_threads n s" "\<not> file_done s"
  shows "\<exists>s'. file_step env i s = Inr s' \<and> (file_inv env init s' \<and> only_threads n s') \<and>
    (file_done s' \<or> file_work n s' < file_work n s \<or> s' = s \<and> i \<noteq> file_helper s)"
proof -
  have lock: "lock_ok s" using assms(1) by (simp add: file_inv_def)
  note helper = file_helper_moves [OF lock assms(4,3)]
  obtain s' where s': "file_step env i s = Inr s'" "file_inv env init s'" using file_step_safe [OF assms(1,2)] by blast
  have others: "fa_pc s' u = fa_pc s u" if "u \<noteq> i" for u by (rule file_step_others [OF s'(1) that])
  have rest: "only_threads n s' \<and> file_work n s' < file_work n s" if less: "file_rank (fa_pc s' i) < file_rank (fa_pc s i)"
  proof -
    have i: "i < n" using less assms(3) by (metis file_rank.simps(1) not_le not_less0 only_threads_def)
    have "file_work n s' < file_work n s" unfolding file_work_def
    proof (rule sum_strict_mono_ex1)
      show "\<forall>u\<in>{..<n}. file_rank (fa_pc s' u) \<le> file_rank (fa_pc s u)" using less others by (metis le_less order_refl)
      show "\<exists>u\<in>{..<n}. file_rank (fa_pc s' u) < file_rank (fa_pc s u)" using less i by blast
    qed simp
    moreover have "only_threads n s'" using assms(3) others i by (metis not_le only_threads_def)
    ultimately show ?thesis by simp
  qed
  from file_step_rank [OF s'(1)] show ?thesis
  proof
    assume "file_rank (fa_pc s' i) < file_rank (fa_pc s i)"
    then show ?thesis using s' rest by blast
  next
    assume same: "s' = s \<and> (fa_pc s i = F_idle \<or> fa_lock s \<noteq> None \<and> \<not> locked (fa_pc s i))"
    then have "i \<noteq> file_helper s" using helper(1,2) by auto
    then show ?thesis using s' same assms(3) by blast
  qed
qed

interpretation fair_files: fair_steps "file_step env" "\<lambda>s. formats_all env \<and> file_inv env init s \<and> only_threads n s" file_done
  "\<lambda>s. (file_work n s, 0)" file_helper "\<lambda>s. 0" for env init n
  by unfold_locales (use file_progress in fastforce)

fun file_thread :: "'e file_act \<Rightarrow> nat option" where
  "file_thread (File_log t l e) = Some t"
| "file_thread (File_reopen t) = Some t"
| "file_thread (File_format t f) = Some t"
| "file_thread (File_read t) = Some t"
| "file_thread (File_level l) = None"
| "file_thread (File_go t) = Some t"

lemma only_threads_act:
  "file_act env act s = Inr s' \<Longrightarrow> only_threads n s \<Longrightarrow> (\<forall>t. file_thread act = Some t \<longrightarrow> t < n) \<Longrightarrow> only_threads n s'"
  using file_step_others [of env]
  by (cases act) (fastforce simp: only_threads_def file_act_def split: if_splits)+

text \<open>C30. Calls on a file appender return although its threads spin: when \<open>n\<close> threads have made any calls and go on in
  a fair order, all calls have returned after some steps, and every thread's calls of \<open>log\<close> are then exactly the lines it
  wrote or reported.\<close>

theorem file_calls_return:
  assumes "formats_all env" "f0 \<noteq> None" "list_all format_given acts" "\<forall>act\<in>set acts. \<forall>t. file_thread act = Some t \<longrightarrow> t < n"
    and "\<forall>i<n. \<forall>k. \<exists>m\<ge>k. order m = i"
  shows "\<exists>s k s'. rfold (file_act env) acts (file_start l f0 st stamp init) = Inr s \<and>
    rfold (file_step env) (map order [0..<k]) s = Inr s' \<and> (\<forall>t. fa_pc s' t = F_idle \<and> event_calls t s' = event_lines t s')"
proof -
  let ?s0 = "file_start l f0 st stamp init"
  obtain s where s: "rfold (file_act env) acts ?s0 = Inr s" "file_inv env init s"
    using files.run_safe [OF given_permitted [OF assms(3)], of env init ?s0] assms(1) file_inv_start [OF assms(2), of env init] by blast
  have "only_threads n s"
  proof (rule rfold_invariant [OF s(1)])
    fix act u u' assume "act \<in> set acts" "only_threads n u" "file_act env act u = Inr u'"
    then show "only_threads n u'" using only_threads_act assms(4) by blast
  qed (simp add: only_threads_def file_start_def)
  then have inv: "formats_all env \<and> file_inv env init s \<and> only_threads n s" using s(2) assms(1) by blast
  have "\<exists>m\<ge>k. order m = file_helper u" if "formats_all env \<and> file_inv env init u \<and> only_threads n u" "\<not> file_done u" for u k
    using file_helper_moves(3) [OF _ that(2)] that(1) assms(5) by (auto simp: file_inv_def)
  from fair_files.fair_run [OF inv this, of 0] obtain k s' where
    "rfold (file_step env) (map order [0..<k]) s = Inr s'" "file_inv env init s'" "file_done s'" by blast
  then show ?thesis using s(1) by (auto simp: file_done_def file_inv_def lines_ok_def)
qed

section \<open>One call at a time\<close>

text \<open>The appender and its file in the state of the sequential definitions.\<close>

definition same_file :: "log_world \<Rightarrow> addr \<Rightarrow> 'e file_threads \<Rightarrow> bool" where
  "same_file w a s \<longleftrightarrow> (\<exists>ap. hget (w_appenders w) a = Some ap \<and> ap_kind ap = FileLogAppender \<and> ap_level ap = fa_level s \<and>
     ap_formatter ap = fa_formatter s \<and> ap_filestream ap = fa_stream s \<and> ap_lastTime ap = fa_last s \<and>
     w_files w (ap_filename ap) = fa_file s)"

text \<open>The environment of the sequential call: the answers the thread gets.\<close>

definition env_of :: "(level \<times> log_event) file_env \<Rightarrow> (level \<times> log_event) file_threads \<Rightarrow> env \<Rightarrow> bool" where
  "env_of fe s env \<longleftrightarrow> e_now env = fe_clock fe (fa_reads s) \<and> (\<forall>name. e_can_open env name = fe_can fe (fa_asked s)) \<and>
     (\<forall>name. e_can_write env name = fe_can fe (if e_now env \<noteq> fa_last s then Suc (fa_asked s) else fa_asked s))"

definition reported :: "(nat \<times> 'e \<times> formatter option) list \<Rightarrow> string" where
  "reported ls = concat (map (\<lambda>(t, e, f). if f = None then ''error'' @ newline else []) ls)"

text \<open>The steps from the lock to the end, and those of \<open>reopen\<close> before.\<close>

lemma solo_write:
  assumes "fa_pc s t = F_lock e" "fa_lock s = None" "fa_formatter s = Some f" "fe_format fe f e = Inr str"
  shows "rfold (file_act fe) [File_go t, File_go t, File_go t] s = Inr (fa_at t F_idle ((write_line fe t e f str s)\<lparr>fa_lock := None\<rparr>))"
  using assms by (simp add: file_act_def file_step_def file_moves write_line_def fa_at_def split: prod.split bool.split)

lemma solo_reopen:
  assumes "fa_pc s t = F_reopen (Some (e, now))" "fa_lock s = None"
  shows "rfold (file_act fe) (replicate 5 (File_go t)) s = Inr (fa_at t (F_lock e)
    (s\<lparr>fa_stream := fs_open_app (fe_can fe (fa_asked s)) (if fs_ok (fa_stream s) then fs_close (fa_stream s) else fa_stream s),
       fa_asked := Suc (fa_asked s), fa_last := now\<rparr>))"
  using assms by (simp add: numeral_eq_Suc file_act_def file_step_def file_moves fa_at_def)

lemma solo_time:
  assumes "fa_pc s t = F_idle" "fa_level s \<le> l"
  shows "rfold (file_act fe) [File_log t l e, File_go t, File_go t] s = Inr (fa_at t
    (if fe_clock fe (fa_reads s) \<noteq> fa_last s then F_reopen (Some (e, fe_clock fe (fa_reads s))) else F_lock e)
    (s\<lparr>fa_calls := fa_calls s @ [(t, e)], fa_reads := Suc (fa_reads s)\<rparr>))"
  using assms by (simp add: file_act_def file_step_def fa_at_def)

lemma solo_to_lock:
  assumes "fa_pc s t = F_idle" "fa_lock s = None" "fa_level s \<le> l" "now = fe_clock fe (fa_reads s)"
  shows "\<exists>k s'. rfold (file_act fe) (File_log t l e # replicate k (File_go t)) s = Inr s' \<and>
    fa_pc s' = (fa_pc s)(t := F_lock e) \<and> fa_lock s' = None \<and> fa_level s' = fa_level s \<and> fa_formatter s' = fa_formatter s \<and>
    fa_last s' = now \<and> fa_file s' = fa_file s \<and> fa_lines s' = fa_lines s \<and>
    (if now = fa_last s then fa_stream s' = fa_stream s \<and> fa_asked s' = fa_asked s
     else fa_stream s' = fs_open_app (fe_can fe (fa_asked s)) (if fs_ok (fa_stream s) then fs_close (fa_stream s) else fa_stream s) \<and>
       fa_asked s' = Suc (fa_asked s))"
proof (cases "now = fa_last s")
  case True
  have "rfold (file_act fe) (File_log t l e # replicate 2 (File_go t)) s =
      Inr (fa_at t (F_lock e) (s\<lparr>fa_calls := fa_calls s @ [(t, e)], fa_reads := Suc (fa_reads s)\<rparr>))"
    using solo_time [OF assms(1,3), of fe e] assms(4) True by (simp add: numeral_2_eq_2)
  then show ?thesis using True assms(2) by (intro exI [of _ 2] exI) (rule conjI, assumption, simp)
next
  case False
  let ?s1 = "fa_at t (F_reopen (Some (e, now))) (s\<lparr>fa_calls := fa_calls s @ [(t, e)], fa_reads := Suc (fa_reads s)\<rparr>)"
  have "rfold (file_act fe) (File_log t l e # replicate 2 (File_go t)) s = Inr ?s1"
    using solo_time [OF assms(1,3), of fe e] assms(4) False by (simp add: numeral_2_eq_2)
  moreover have "\<exists>s'. rfold (file_act fe) (replicate 5 (File_go t)) ?s1 = Inr s' \<and> s' = fa_at t (F_lock e)
    (?s1\<lparr>fa_stream := fs_open_app (fe_can fe (fa_asked s)) (if fs_ok (fa_stream s) then fs_close (fa_stream s) else fa_stream s),
       fa_asked := Suc (fa_asked s), fa_last := now\<rparr>)"
    using solo_reopen [of ?s1 t e now] assms(2) by simp
  moreover have "File_log t l e # replicate 7 (File_go t) = (File_log t l e # replicate 2 (File_go t)) @ replicate 5 (File_go t)"
    by (simp add: replicate_add [symmetric])
  ultimately have "\<exists>s'. rfold (file_act fe) (File_log t l e # replicate 7 (File_go t)) s = Inr s' \<and> s' = fa_at t (F_lock e)
    (?s1\<lparr>fa_stream := fs_open_app (fe_can fe (fa_asked s)) (if fs_ok (fa_stream s) then fs_close (fa_stream s) else fa_stream s),
       fa_asked := Suc (fa_asked s), fa_last := now\<rparr>)"
    by (simp only: rfold_append rbind_simps)
  then obtain s' where s': "rfold (file_act fe) (File_log t l e # replicate 7 (File_go t)) s = Inr s'" "s' = fa_at t (F_lock e)
    (?s1\<lparr>fa_stream := fs_open_app (fe_can fe (fa_asked s)) (if fs_ok (fa_stream s) then fs_close (fa_stream s) else fa_stream s),
       fa_asked := Suc (fa_asked s), fa_last := now\<rparr>)" by blast
  then show ?thesis using False assms(2) by (intro exI [of _ 7] exI [of _ s']) simp
qed

text \<open>C34. A call of \<open>log\<close> on a file appender that is not interleaved with others does what the sequential definition
  says: the same stream and time, the same text in the file, and the same errors.\<close>

theorem solo_file_log:
  assumes "fa_pc s t = F_idle" "fa_lock s = None" "same_file w a s" "env_of fe s env"
    and "\<forall>f. fe_format fe f (level, event) = formatter_format (name_of w) (e_strftime env) f level event"
    and "appender_log env level event a w = Inr w'"
  shows "\<exists>k s' more. rfold (file_act fe) (File_log t level (level, event) # replicate k (File_go t)) s = Inr s' \<and>
    fa_pc s' = fa_pc s \<and> fa_lock s' = None \<and> same_file w' a s' \<and> fa_lines s' = fa_lines s @ more \<and>
    w_stdout w' = w_stdout w @ reported more"
proof -
  obtain ap where ap: "hget (w_appenders w) a = Some ap" "ap_kind ap = FileLogAppender" "ap_level ap = fa_level s"
    "ap_formatter ap = fa_formatter s" "ap_filestream ap = fa_stream s" "ap_lastTime ap = fa_last s"
    "w_files w (ap_filename ap) = fa_file s" using assms(3) by (auto simp: same_file_def)
  have log: "file_log env a ap level event w = Inr w'" using assms(6) ap(1,2) by (simp add: appender_log_def)
  let ?e = "(level, event)"
  show ?thesis
  proof (cases "fa_level s \<le> level")
    case False
    then have "w' = w" "rfold (file_act fe) [File_log t level ?e] s = Inr s"
      using log ap(3) assms(1) by (simp_all add: file_log_def file_act_def)
    then show ?thesis using assms(2,3) by (intro exI [of _ 0] exI [of _ s] exI [of _ "[]"]) (simp add: reported_def)
  next
    case True
    obtain k s2 where s2: "rfold (file_act fe) (File_log t level ?e # replicate k (File_go t)) s = Inr s2"
      "fa_pc s2 = (fa_pc s)(t := F_lock ?e)" "fa_lock s2 = None" "fa_level s2 = fa_level s" "fa_formatter s2 = fa_formatter s"
      "fa_last s2 = e_now env" "fa_file s2 = fa_file s" "fa_lines s2 = fa_lines s"
      "if e_now env = fa_last s then fa_stream s2 = fa_stream s \<and> fa_asked s2 = fa_asked s
       else fa_stream s2 = fs_open_app (fe_can fe (fa_asked s)) (if fs_ok (fa_stream s) then fs_close (fa_stream s) else fa_stream s) \<and>
         fa_asked s2 = Suc (fa_asked s)"
      using solo_to_lock [OF assms(1,2) True, of "e_now env" fe ?e] assms(4) unfolding env_of_def by blast
    define ap1 where "ap1 = (if e_now env \<noteq> ap_lastTime ap then (snd (reopen env ap))\<lparr>ap_lastTime := e_now env\<rparr> else ap)"
    have ap1: "ap_kind ap1 = FileLogAppender" "ap_level ap1 = fa_level s2" "ap_formatter ap1 = fa_formatter s2" "ap_filename ap1 = ap_filename ap"
      "ap_filestream ap1 = fa_stream s2" "ap_lastTime ap1 = fa_last s2"
      using ap s2(4-6,9) assms(4) by (auto simp: ap1_def reopen_def Let_def env_of_def)
    have can: "e_can_write env name = fe_can fe (fa_asked s2)" for name
      using s2(9) assms(4) by (auto simp: env_of_def split: if_splits)
    have "(case ap_formatter ap1 of
              None \<Rightarrow> Inl Null_deref
            | Some f \<Rightarrow>
                rbind (formatter_format (name_of w) (e_strftime env) f level event) (\<lambda>s.
                  (case fs_write (e_can_write env (ap_filename ap1)) (ap_filestream ap1) of
                     (True, fs) \<Rightarrow> Inr (write_file (ap_filename ap1) s (set_appender a (ap1\<lparr>ap_filestream := fs\<rparr>) w))
                   | (False, fs) \<Rightarrow> Inr (print (''error'' @ newline) (set_appender a (ap1\<lparr>ap_filestream := fs\<rparr>) w))))) = Inr w'"
      using log True ap(3) unfolding file_log_def Let_def ap1_def [symmetric] by simp
    then obtain f str where f: "fa_formatter s2 = Some f" "fe_format fe f ?e = Inr str"
      "(case fs_write (fe_can fe (fa_asked s2)) (fa_stream s2) of
         (True, fs) \<Rightarrow> Inr (write_file (ap_filename ap1) str (set_appender a (ap1\<lparr>ap_filestream := fs\<rparr>) w))
       | (False, fs) \<Rightarrow> Inr (print (''error'' @ newline) (set_appender a (ap1\<lparr>ap_filestream := fs\<rparr>) w))) = (Inr w' :: fault + log_world)"
      using assms(5) unfolding ap1(3,5) can by (cases "fa_formatter s2") auto
    let ?s3 = "fa_at t F_idle ((write_line fe t ?e f str s2)\<lparr>fa_lock := None\<rparr>)"
    have "rfold (file_act fe) [File_go t, File_go t, File_go t] s2 = Inr ?s3"
      by (rule solo_write) (use s2(2,3) f(1,2) in simp_all)
    moreover have "File_log t level ?e # replicate (k + 3) (File_go t) =
        (File_log t level ?e # replicate k (File_go t)) @ [File_go t, File_go t, File_go t]"
      by (subst replicate_add) (simp add: numeral_3_eq_3)
    ultimately have run: "rfold (file_act fe) (File_log t level ?e # replicate (k + 3) (File_go t)) s = Inr ?s3"
      using s2(1) by (simp only: rfold_append rbind_simps)
    have a: "a < length (w_appenders w)" using ap(1) by (simp add: hget_Some_iff)
    obtain ok fs where fs: "fs_write (fe_can fe (fa_asked s2)) (fa_stream s2) = (ok, fs)" by force
    have w': "w' = (if ok then write_file (ap_filename ap) str (set_appender a (ap1\<lparr>ap_filestream := fs\<rparr>) w)
        else print (''error'' @ newline) (set_appender a (ap1\<lparr>ap_filestream := fs\<rparr>) w))"
      using f(3) fs ap1(4) by (cases ok) simp_all
    have "same_file w' a ?s3" unfolding same_file_def
      using a ap1 ap(7) s2(7) fs f(1)
      by (intro exI [of _ "ap1\<lparr>ap_filestream := fs\<rparr>"])
        (cases ok; simp add: w' write_line_def write_file_def print_def set_appender_def hget_hset)
    moreover have "w_stdout w' = w_stdout w @ reported [(t, ?e, if ok then Some f else None)]"
      by (simp add: w' write_file_def print_def set_appender_def reported_def)
    moreover have "fa_lines ?s3 = fa_lines s @ [(t, ?e, if ok then Some f else None)]"
      using fs s2(8) by (cases ok) (simp_all add: write_line_def)
    moreover have "fa_pc ?s3 = fa_pc s" "fa_lock ?s3 = None" using s2(2) assms(1) by (simp_all add: fun_upd_idem)
    ultimately show ?thesis using run by blast
  qed
qed

section \<open>Witnesses\<close>

definition demo_file_env :: "(nat \<Rightarrow> bool) \<Rightarrow> string file_env" where
  "demo_file_env can = \<lparr>fe_clock = (\<lambda>n. 7), fe_can = can, fe_format = (\<lambda>f e. Inr (e @ newline))\<rparr>"

abbreviation demo_file :: "string file_threads" where
  "demo_file \<equiv> file_start DEBUG (Some (mk_formatter ''%m'')) \<lparr>fs_open = True, fs_ok = True\<rparr> 7 []"

lemma demo_formats: "formats_all (demo_file_env can)"
  by (simp add: formats_all_def demo_file_env_def)

text \<open>The first thread writes while the second waits for the lock.\<close>

definition two_lines :: "string file_act list" where
  "two_lines = [File_log 0 INFO ''a'', File_log 1 INFO ''b''] @
     map File_go [0, 1, 0, 1, 0, 1, 0, 0, 1, 1, 1]"

lemma two_lines_given: "list_all format_given two_lines" "\<forall>act\<in>set two_lines. \<forall>t. file_thread act = Some t \<longrightarrow> t < 2"
  by (simp_all add: two_lines_def format_given_def)

theorem file_lines_witness:
  "\<exists>s. rfold (file_act (demo_file_env (\<lambda>_. True))) two_lines demo_file = Inr s \<and>
     fa_file s = ''a'' @ newline @ ''b'' @ newline \<and> (\<forall>t e. (t, e, None) \<notin> set (fa_lines s))"
proof -
  let ?env = "demo_file_env (\<lambda>_. True)"
  obtain s where s: "rfold (file_act ?env) two_lines demo_file = Inr s" "fa_file s = [] @ concat (map (text_of ?env) (fa_lines s))"
    "\<forall>t e. (t, e, None) \<notin> set (fa_lines s)"
    using file_lines [OF demo_formats [of "\<lambda>_. True"] _ two_lines_given(1), of "Some (mk_formatter ''%m'')" DEBUG "\<lparr>fs_open = True, fs_ok = True\<rparr>" 7 "[]"]
    by (auto simp: demo_file_env_def)
  have "\<exists>s. rfold (file_act ?env) two_lines demo_file = Inr s \<and> fa_file s = ''a'' @ newline @ ''b'' @ newline"
    by (simp add: two_lines_def file_start_def file_act_def file_step_def file_moves fa_at_def write_line_def fs_write_def
        demo_file_env_def less_eq_level_def)
  then show ?thesis using s by auto
qed

theorem failed_write_loses_all_witness:
  "\<exists>s s'. rfold (file_act (demo_file_env (\<lambda>n. n \<noteq> 0))) (File_log 0 INFO ''a'' # replicate 4 (File_go 0)) demo_file = Inr s \<and> stream_bad s \<and>
     rfold (file_act (demo_file_env (\<lambda>n. n \<noteq> 0))) (File_go 0 # File_log 1 INFO ''b'' # replicate 5 (File_go 1)) s = Inr s' \<and> fa_file s' = []"
proof -
  let ?env = "demo_file_env (\<lambda>n. n \<noteq> 0)"
  obtain s where s: "rfold (file_act ?env) (File_log 0 INFO ''a'' # replicate 4 (File_go 0)) demo_file = Inr s" "stream_bad s" "fa_file s = []"
    "\<exists>s'. rfold (file_act ?env) (File_go 0 # File_log 1 INFO ''b'' # replicate 5 (File_go 1)) s = Inr s'"
    by (simp add: numeral_eq_Suc file_start_def file_act_def file_step_def file_moves fa_at_def write_line_def fs_write_def
        demo_file_env_def less_eq_level_def stream_bad_def)
  obtain s' where s': "rfold (file_act ?env) (File_go 0 # File_log 1 INFO ''b'' # replicate 5 (File_go 1)) s = Inr s'" using s(4) ..
  then show ?thesis using failed_write_loses_all [OF s(2) s'] s(1-3) by auto
qed

theorem file_calls_return_witness:
  "\<exists>s k s'. rfold (file_act (demo_file_env (\<lambda>_. True))) [File_log 0 INFO ''a'', File_log 1 INFO ''b''] demo_file = Inr s \<and>
     rfold (file_step (demo_file_env (\<lambda>_. True))) (map (\<lambda>k. k mod 2) [0..<k]) s = Inr s' \<and>
     event_lines 0 s' = [''a''] \<and> event_lines 1 s' = [''b'']"
proof -
  let ?env = "demo_file_env (\<lambda>_. True)" and ?acts = "[File_log 0 INFO ''a'', File_log 1 INFO ''b'']"
  have turns: "\<forall>i<2. \<forall>k. \<exists>m\<ge>k. m mod 2 = (i :: nat)"
  proof (intro allI impI)
    fix i k :: nat assume "i < 2"
    then show "\<exists>m\<ge>k. m mod 2 = i" by (intro exI [of _ "2 * k + i"]) simp
  qed
  have given: "list_all format_given ?acts" "\<forall>act\<in>set ?acts. \<forall>t. file_thread act = Some t \<longrightarrow> t < 2"
    by (simp_all add: format_given_def)
  obtain s k s' where s: "rfold (file_act ?env) ?acts demo_file = Inr s" "rfold (file_step ?env) (map (\<lambda>k. k mod 2) [0..<k]) s = Inr s'"
    "event_calls 0 s' = event_lines 0 s'" "event_calls 1 s' = event_lines 1 s'"
    using file_calls_return [OF demo_formats _ given turns, of "Some (mk_formatter ''%m'')" "\<lambda>_. True" DEBUG "\<lparr>fs_open = True, fs_ok = True\<rparr>" 7 "[]"]
    by auto
  have "fa_calls s = [(0, ''a''), (1, ''b'')]"
    using s(1) by (auto simp: file_start_def file_act_def fa_at_def less_eq_level_def)
  moreover have "fa_calls s' = fa_calls s"
    by (rule rfold_invariant [OF s(2), of "\<lambda>u. fa_calls u = fa_calls s"]) (simp_all add: file_step_calls)
  ultimately show ?thesis using s by (auto simp: event_calls_def)
qed

definition message_only :: formatter where
  "message_only = \<lparr>fm_pattern = ''%m'', fm_items = [MessageItem], fm_error = False\<rparr>"

definition one_file :: log_world where
  "one_file = \<lparr>w_loggers = [], w_appenders = [\<lparr>ap_kind = FileLogAppender, ap_level = DEBUG, ap_formatter = Some message_only,
      ap_hasFormatter = True, ap_filename = ''a.log'', ap_filestream = \<lparr>fs_open = True, fs_ok = True\<rparr>, ap_lastTime = 7\<rparr>],
      w_names = [], w_root = None, w_stdout = [], w_files = (\<lambda>_. [])\<rparr>"

theorem solo_file_log_witness:
  "\<exists>fe k s'. rfold (file_act fe) (File_log 3 INFO (INFO, ss_write ''x'' (mk_event 0 INFO ''f'' 1 0 0 0 0 ''t'')) # replicate k (File_go 3))
       (file_start DEBUG (Some message_only) \<lparr>fs_open = True, fs_ok = True\<rparr> 7 []) = Inr s' \<and> fa_file s' = ''x''"
proof -
  let ?ev = "ss_write ''x'' (mk_event 0 INFO ''f'' 1 0 0 0 0 ''t'')"
  let ?s = "file_start DEBUG (Some message_only) \<lparr>fs_open = True, fs_ok = True\<rparr> 7 [] :: (level \<times> log_event) file_threads"
  let ?env = "\<lparr>e_now = 8, e_strftime = (\<lambda>_ _. None), e_can_open = (\<lambda>_. True), e_can_write = (\<lambda>_. True)\<rparr>"
  let ?fe = "\<lparr>fe_clock = (\<lambda>_. 8), fe_can = (\<lambda>_. True), fe_format = (\<lambda>f (l, ev). formatter_format (name_of one_file) (\<lambda>_ _. None) f l ev)\<rparr>"
  have idle: "fa_pc ?s 3 = F_idle" "fa_lock ?s = None" by (simp_all add: file_start_def)
  have same: "same_file one_file 0 ?s" by (simp add: same_file_def one_file_def hget_def file_start_def)
  have env: "env_of ?fe ?s ?env" by (simp add: env_of_def file_start_def)
  have fmt: "\<forall>f. fe_format ?fe f (INFO, ?ev) = formatter_format (name_of one_file) (e_strftime ?env) f INFO ?ev" by simp
  obtain w' where w': "appender_log ?env INFO ?ev 0 one_file = Inr w'" "w_files w' ''a.log'' = ''x''"
    "map_option ap_filename (hget (w_appenders w') 0) = Some ''a.log''"
    by (simp add: appender_log_def one_file_def hget_def file_log_def reopen_def fs_close_def fs_open_app_def fs_write_def Let_def
        formatter_format_def message_only_def less_eq_level_def write_file_def set_appender_def hset_def get_content_def ss_write_def mk_event_def)
  obtain k s' where s': "rfold (file_act ?fe) (File_log 3 INFO (INFO, ?ev) # replicate k (File_go 3)) ?s = Inr s'" "same_file w' 0 s'"
    using solo_file_log [OF idle same env fmt w'(1)] by blast
  have "fa_file s' = ''x''" using s'(2) w'(2,3) by (auto simp: same_file_def)
  then show ?thesis using s'(1) by blast
qed

end
