(* ===== verification/ManagerThreads.thy ===== *)
theory ManagerThreads
  imports LoggerInvariants
begin

text \<open>
  The logger manager used by several threads (\<open>LoggerManager\<close> of log.cpp).  \<open>getLogger\<close> finds or makes a logger
  under the manager's spinlock, in several accesses; \<open>toYamlString\<close> walks the table under it.  Meanwhile other
  threads work on the loggers that are in the table, under locks of the loggers.
\<close>

section \<open>Threads\<close>

datatype mgr_pc =
    G_idle
  | G_lock string
  | G_find string
  | G_root string addr
  | G_insert string addr
  | G_unlock string addr
  | Y_lock
  | Y_next "(string \<times> addr) list" ynode
  | Y_unlock "exc + string"

text \<open>What has taken effect: a call of \<open>getLogger\<close>, or a change of a logger by its own operations.\<close>

datatype mgr_op = Op_get string | Op_change addr "logger \<Rightarrow> logger"

text \<open>The loggers and the table; the holder of the spinlock; the loggers returned, with thread and name; the
  texts \<open>toYamlString\<close> returned; and the operations in the order they took effect.\<close>

record mgr_threads =
  mt_world :: log_world
  mt_lock :: "nat option"
  mt_pc :: "nat \<Rightarrow> mgr_pc"
  mt_got :: "(nat \<times> string \<times> addr) list"
  mt_texts :: "(nat \<times> (exc + string)) list"
  mt_ops :: "mgr_op list"

definition mt_at :: "nat \<Rightarrow> mgr_pc \<Rightarrow> mgr_threads \<Rightarrow> mgr_threads" where
  "mt_at t pc s = s\<lparr>mt_pc := (mt_pc s)(t := pc)\<rparr>"

definition mt_acquire :: "nat \<Rightarrow> mgr_pc \<Rightarrow> mgr_threads \<Rightarrow> mgr_threads" where
  "mt_acquire t pc s = (if mt_lock s = None then mt_at t pc (s\<lparr>mt_lock := Some t\<rparr>) else s)"

definition mt_release :: "nat \<Rightarrow> mgr_threads \<Rightarrow> mgr_threads" where
  "mt_release t s = mt_at t G_idle (s\<lparr>mt_lock := None\<rparr>)"

definition mt_effect :: "mgr_op \<Rightarrow> mgr_threads \<Rightarrow> mgr_threads" where
  "mt_effect op s = s\<lparr>mt_ops := mt_ops s @ [op]\<rparr>"

text \<open>One turn of the loop of \<open>toYamlString\<close>.\<close>

definition list_logger :: "yaml_lib \<Rightarrow> log_world \<Rightarrow> addr \<Rightarrow> ynode \<Rightarrow> exc + ynode" where
  "list_logger lib w a n =
     (case hget (w_loggers w) a of
        None \<Rightarrow> Inr n
      | Some l \<Rightarrow> rbind (logger_yaml lib w l) (\<lambda>s. rbind (yl_load lib s) (\<lambda>m. Inr (y_push m n))))"

definition mgr_step :: "yaml_lib \<Rightarrow> nat \<Rightarrow> mgr_threads \<Rightarrow> fault + mgr_threads" where
  "mgr_step lib t s =
     (let w = mt_world s
      in (case mt_pc s t of
            G_idle \<Rightarrow> Inr s
          | G_lock n \<Rightarrow> Inr (mt_acquire t (G_find n) s)
          | G_find n \<Rightarrow>
              (case om_find (w_names w) n of
                 Some a \<Rightarrow> Inr (mt_at t (G_unlock n a) (mt_effect (Op_get n) s))
               | None \<Rightarrow> (case new_logger n w of (a, w1) \<Rightarrow> Inr (mt_at t (G_root n a) (s\<lparr>mt_world := w1\<rparr>))))
          | G_root n a \<Rightarrow>
              (case hget (w_loggers w) a of
                 None \<Rightarrow> Inl Null_deref
               | Some l \<Rightarrow> Inr (mt_at t (G_insert n a) (s\<lparr>mt_world := set_logger a (l\<lparr>lg_root := w_root w\<rparr>) w\<rparr>)))
          | G_insert n a \<Rightarrow>
              Inr (mt_at t (G_unlock n a) (mt_effect (Op_get n) (s\<lparr>mt_world := w\<lparr>w_names := om_set n a (w_names w)\<rparr>\<rparr>)))
          | G_unlock n a \<Rightarrow> Inr (mt_release t (s\<lparr>mt_got := mt_got s @ [(t, n, a)]\<rparr>))
          | Y_lock \<Rightarrow> Inr (mt_acquire t (Y_next (w_names w) YNull) s)
          | Y_next [] n \<Rightarrow> Inr (mt_at t (Y_unlock (Inr (yl_emit lib n))) s)
          | Y_next ((name, a) # rest) n \<Rightarrow>
              Inr (mt_at t (case list_logger lib w a n of Inl e \<Rightarrow> Y_unlock (Inl e) | Inr m \<Rightarrow> Y_next rest m) s)
          | Y_unlock r \<Rightarrow> Inr (mt_release t (s\<lparr>mt_texts := mt_texts s @ [(t, r)]\<rparr>))))"

definition change_logger :: "addr \<Rightarrow> (logger \<Rightarrow> logger) \<Rightarrow> log_world \<Rightarrow> log_world" where
  "change_logger a f w = w\<lparr>w_loggers := (w_loggers w)[a := f (w_loggers w ! a)]\<rparr>"

datatype mgr_act = Mgr_get nat string | Mgr_yaml nat | Mgr_change addr "logger \<Rightarrow> logger" | Mgr_go nat

definition mgr_act :: "yaml_lib \<Rightarrow> mgr_act \<Rightarrow> mgr_threads \<Rightarrow> fault + mgr_threads" where
  "mgr_act lib act s =
     (let call = (\<lambda>t pc. Inr (if mt_pc s t = G_idle then mt_at t pc s else s))
      in (case act of
            Mgr_get t n \<Rightarrow> call t (G_lock n)
          | Mgr_yaml t \<Rightarrow> call t Y_lock
          | Mgr_change a f \<Rightarrow> Inr (mt_effect (Op_change a f) (s\<lparr>mt_world := change_logger a f (mt_world s)\<rparr>))
          | Mgr_go t \<Rightarrow> mgr_step lib t s))"

text \<open>Other threads have pointers to loggers of the table only, and no operation changes a logger's name.\<close>

definition published :: "mgr_act \<Rightarrow> mgr_threads \<Rightarrow> bool" where
  "published act s =
     (case act of
        Mgr_change a f \<Rightarrow> (\<exists>n. om_find (w_names (mt_world s)) n = Some a) \<and> (\<forall>l. lg_name (f l) = lg_name l)
      | _ \<Rightarrow> True)"

definition mgr_start :: "log_world \<Rightarrow> mgr_threads" where
  "mgr_start w = \<lparr>mt_world = w, mt_lock = None, mt_pc = (\<lambda>_. G_idle), mt_got = [], mt_texts = [], mt_ops = []\<rparr>"

section \<open>The sequential manager\<close>

fun do_op :: "mgr_op \<Rightarrow> log_world \<Rightarrow> log_world" where
  "do_op (Op_get n) w = snd (getLogger n w)"
| "do_op (Op_change a f) w = change_logger a f w"

definition in_order :: "log_world \<Rightarrow> mgr_threads \<Rightarrow> log_world" where
  "in_order w0 s = fold do_op (mt_ops s) w0"

definition named :: "log_world \<Rightarrow> bool" where
  "named w \<longleftrightarrow> (\<forall>n a. om_find (w_names w) n = Some a \<longrightarrow> a < length (w_loggers w) \<and> lg_name (w_loggers w ! a) = n)"

fun mgr_locked :: "mgr_pc \<Rightarrow> bool" where
  "mgr_locked G_idle = False"
| "mgr_locked (G_lock n) = False"
| "mgr_locked Y_lock = False"
| "mgr_locked _ = True"

text \<open>How far the thread with the lock is: the world against the one of the sequential manager.\<close>

fun ahead :: "log_world \<Rightarrow> log_world \<Rightarrow> mgr_pc \<Rightarrow> bool" where
  "ahead r w (G_root n a) \<longleftrightarrow> om_find (w_names r) n = None \<and> a = length (w_loggers r) \<and>
     w = r\<lparr>w_loggers := w_loggers r @ [mk_logger n]\<rparr>"
| "ahead r w (G_insert n a) \<longleftrightarrow> om_find (w_names r) n = None \<and> a = length (w_loggers r) \<and>
     w = r\<lparr>w_loggers := w_loggers r @ [(mk_logger n)\<lparr>lg_root := w_root r\<rparr>]\<rparr>"
| "ahead r w (G_unlock n a) \<longleftrightarrow> w = r \<and> om_find (w_names r) n = Some a"
| "ahead r w _ \<longleftrightarrow> w = r"

definition mgr_order :: "log_world \<Rightarrow> mgr_threads \<Rightarrow> bool" where
  "mgr_order w0 s \<longleftrightarrow> named (in_order w0 s) \<and>
     (\<forall>t n a. (t, n, a) \<in> set (mt_got s) \<longrightarrow> om_find (w_names (in_order w0 s)) n = Some a) \<and>
     (case mt_lock s of
        None \<Rightarrow> (\<forall>t. \<not> mgr_locked (mt_pc s t)) \<and> mt_world s = in_order w0 s
      | Some h \<Rightarrow> (\<forall>t. mgr_locked (mt_pc s t) \<longleftrightarrow> t = h) \<and> ahead (in_order w0 s) (mt_world s) (mt_pc s h))"

lemma mt_simps [simp]:
  "mt_pc (mt_at t pc s) = (mt_pc s)(t := pc)" "mt_world (mt_at t pc s) = mt_world s" "mt_lock (mt_at t pc s) = mt_lock s"
  "mt_got (mt_at t pc s) = mt_got s" "mt_ops (mt_at t pc s) = mt_ops s" "mt_pc (mt_effect op s) = mt_pc s"
  "mt_world (mt_effect op s) = mt_world s" "mt_lock (mt_effect op s) = mt_lock s" "mt_got (mt_effect op s) = mt_got s"
  "mt_ops (mt_effect op s) = mt_ops s @ [op]" "in_order w0 (mt_at t pc s) = in_order w0 s"
  "in_order w0 (mt_effect op s) = do_op op (in_order w0 s)"
  by (simp_all add: mt_at_def mt_effect_def in_order_def)

lemma in_order_cong [simp]:
  "in_order w0 (s\<lparr>mt_world := w\<rparr>) = in_order w0 s" "in_order w0 (s\<lparr>mt_lock := h\<rparr>) = in_order w0 s"
  "in_order w0 (s\<lparr>mt_got := g\<rparr>) = in_order w0 s" "in_order w0 (s\<lparr>mt_texts := x\<rparr>) = in_order w0 s"
  by (simp_all add: in_order_def)

lemma named_getLogger: "named w \<Longrightarrow> named (snd (getLogger n w))"
  by (fastforce simp: named_def getLogger_cases nth_append om_find_set mk_logger_def split: option.splits)

lemma named_change: "named w \<Longrightarrow> (\<forall>l. lg_name (f l) = lg_name l) \<Longrightarrow> named (change_logger a f w)"
  by (auto simp: named_def change_logger_def) (metis nth_list_update_eq nth_list_update_neq)

lemma found_getLogger: "om_find (w_names w) m = Some a \<Longrightarrow> om_find (w_names (snd (getLogger n w))) m = Some a"
  by (auto simp: getLogger_cases om_find_set split: option.splits)

section \<open>Every run is one of the sequential manager\<close>

lemma mgr_order_start: "named w0 \<Longrightarrow> mgr_order w0 (mgr_start w0)"
  by (simp add: mgr_order_def mgr_start_def in_order_def)

lemma mgr_holder: "mgr_order w0 s \<Longrightarrow> mgr_locked (mt_pc s t) \<longleftrightarrow> mt_lock s = Some t"
  by (auto simp: mgr_order_def split: option.splits)

lemma mgr_section:
  assumes "mgr_order w0 s" "mgr_locked (mt_pc s t)"
  shows "mt_lock s = Some t" "ahead (in_order w0 s) (mt_world s) (mt_pc s t)" "named (in_order w0 s)"
  using assms mgr_holder [OF assms(1), of t] by (simp_all add: mgr_order_def)

text \<open>A step of the thread with the lock: it stays inside and is as far as it should be, or leaves.\<close>

lemma mgr_inside:
  assumes "mgr_order w0 s" "mgr_locked (mt_pc s t)"
  shows "\<exists>s'. mgr_step lib t s = Inr s' \<and> mgr_order w0 s'"
proof -
  note sec = mgr_section [OF assms]
  have got: "\<And>u n a. (u, n, a) \<in> set (mt_got s) \<Longrightarrow> om_find (w_names (in_order w0 s)) n = Some a"
    and out: "\<And>u. u \<noteq> t \<Longrightarrow> \<not> mgr_locked (mt_pc s u)"
    using assms(1) sec(1) by (auto simp: mgr_order_def)
  show ?thesis
  proof (cases "mt_pc s t")
    case (G_find n)
    then show ?thesis using sec got out
      by (cases "om_find (w_names (in_order w0 s)) n")
        (auto simp: mgr_step_def mgr_order_def getLogger_cases new_logger_def hfresh_def halloc_def Let_def)
  next
    case (G_root n a)
    then show ?thesis using sec got out
      by (auto simp: mgr_step_def mgr_order_def hget_def set_logger_def hset_def Let_def)
  next
    case (G_insert n a)
    let ?r = "in_order w0 s"
    have "snd (getLogger n ?r) = (mt_world s)\<lparr>w_names := om_set n a (w_names (mt_world s))\<rparr>"
      using sec(2) G_insert by (simp add: getLogger_cases)
    moreover have "named (snd (getLogger n ?r))" by (rule named_getLogger [OF sec(3)])
    ultimately show ?thesis using sec G_insert out got found_getLogger [of ?r _ _ n]
      by (auto simp: mgr_step_def mgr_order_def Let_def om_find_set)
  next
    case (Y_next rest n)
    then show ?thesis using sec got out
      by (cases rest) (auto simp: mgr_step_def mgr_order_def Let_def split: sum.split)
  qed (use assms(2) sec got out in \<open>auto simp: mgr_step_def mgr_order_def mt_release_def Let_def\<close>)
qed

lemma mgr_outside:
  assumes "mgr_order w0 s" "\<not> mgr_locked (mt_pc s t)"
  shows "\<exists>s'. mgr_step lib t s = Inr s' \<and> mgr_order w0 s'"
proof -
  have "mt_lock s \<noteq> Some t" using mgr_holder [OF assms(1), of t] assms(2) by simp
  then show ?thesis using assms
    by (cases "mt_pc s t") (auto simp: mgr_step_def mgr_order_def mt_acquire_def Let_def split: option.splits)
qed

lemma mgr_change_order:
  assumes "mgr_order w0 s" "published (Mgr_change a f) s"
  shows "mgr_order w0 (mt_effect (Op_change a f) (s\<lparr>mt_world := change_logger a f (mt_world s)\<rparr>))"
proof -
  let ?r = "in_order w0 s"
  obtain n where n: "om_find (w_names (mt_world s)) n = Some a" and f: "\<forall>l. lg_name (f l) = lg_name l"
    using assms(2) by (auto simp: published_def)
  have names: "w_names (mt_world s) = w_names ?r"
  proof (cases "mt_lock s")
    case (Some h)
    then have "ahead ?r (mt_world s) (mt_pc s h)" using assms(1) by (simp add: mgr_order_def)
    then show ?thesis by (cases "mt_pc s h") auto
  qed (use assms(1) in \<open>simp add: mgr_order_def\<close>)
  have a: "a < length (w_loggers ?r)" and r: "named ?r" using assms(1) n names by (auto simp: mgr_order_def named_def)
  have ahead: "ahead ?r (mt_world s) pc \<Longrightarrow> ahead (change_logger a f ?r) (change_logger a f (mt_world s)) pc" for pc
    using a by (cases pc) (auto simp: change_logger_def list_update_append nth_append)
  show ?thesis using assms(1) named_change [OF r f] ahead
    by (auto simp: mgr_order_def change_logger_def split: option.splits)
qed

lemma mgr_call_order:
  assumes "mgr_order w0 s" "mt_pc s t = G_idle" "\<not> mgr_locked pc"
  shows "mgr_order w0 (mt_at t pc s)"
proof -
  have "mt_lock s \<noteq> Some t" using mgr_holder [OF assms(1), of t] assms(2) by simp
  then show ?thesis using assms by (auto simp: mgr_order_def split: option.splits)
qed

lemma mgr_act_safe:
  assumes "mgr_order w0 s" "published act s"
  shows "\<exists>s'. mgr_act lib act s = Inr s' \<and> mgr_order w0 s'"
proof (cases act)
  case (Mgr_go t)
  then show ?thesis using mgr_inside [OF assms(1), of t lib] mgr_outside [OF assms(1), of t lib]
    by (cases "mgr_locked (mt_pc s t)") (simp_all add: mgr_act_def)
next
  case (Mgr_change a f)
  then show ?thesis using mgr_change_order [OF assms(1), of a f] assms(2) by (simp add: mgr_act_def)
qed (use assms(1) mgr_call_order [OF assms(1)] in \<open>simp_all add: mgr_act_def Let_def\<close>)

interpretation manager: safe_steps "mgr_act lib" published "mgr_order w0" for lib w0
  by unfold_locales (rule mgr_act_safe)

text \<open>C10. Threads that ask for loggers, print the table and work on loggers they have never see anything but the
  sequential manager: whenever its lock is free, the loggers and the table are what the calls of \<open>getLogger\<close> and the
  changes give one after the other in the order they took effect; and every logger returned has the name that was asked
  for, stays in the table under it, and is the same one on all threads.\<close>

theorem manager_in_order:
  assumes "log_reachable w0" "permitted published (mgr_act lib) acts (mgr_start w0)"
  shows "\<exists>s. rfold (mgr_act lib) acts (mgr_start w0) = Inr s \<and>
    (mt_lock s = None \<longrightarrow> mt_world s = fold do_op (mt_ops s) w0) \<and>
    (\<forall>t n a. (t, n, a) \<in> set (mt_got s) \<longrightarrow> om_find (w_names (mt_world s)) n = Some a \<and>
       (\<exists>l. hget (w_loggers (mt_world s)) a = Some l \<and> lg_name l = n)) \<and>
    (\<forall>t n a u m b. (t, n, a) \<in> set (mt_got s) \<longrightarrow> (u, m, b) \<in> set (mt_got s) \<longrightarrow> (n = m \<longleftrightarrow> a = b))"
proof -
  have "named w0" using reachable_inv [OF assms(1)] by (auto simp: mgr_inv_def names_inv_def named_def)
  then obtain s where s: "rfold (mgr_act lib) acts (mgr_start w0) = Inr s" "mgr_order w0 s"
    using manager.run_safe [OF assms(2) mgr_order_start] by blast
  let ?r = "in_order w0 s"
  have world: "om_find (w_names (mt_world s)) n = om_find (w_names ?r) n \<and>
      (a < length (w_loggers ?r) \<longrightarrow> hget (w_loggers (mt_world s)) a = Some (w_loggers ?r ! a))" for n a
  proof (cases "mt_lock s")
    case (Some h)
    then have "ahead ?r (mt_world s) (mt_pc s h)" using s(2) by (simp add: mgr_order_def)
    then show ?thesis by (cases "mt_pc s h") (auto simp: hget_def nth_append)
  qed (use s(2) in \<open>simp add: mgr_order_def hget_def\<close>)
  have got: "om_find (w_names ?r) n = Some a \<and> a < length (w_loggers ?r) \<and> lg_name (w_loggers ?r ! a) = n"
    if "(t, n, a) \<in> set (mt_got s)" for t n a using s(2) that unfolding mgr_order_def named_def by blast
  have "mt_lock s = None \<longrightarrow> mt_world s = in_order w0 s" using s(2) by (auto simp: mgr_order_def)
  then have free: "mt_lock s = None \<longrightarrow> mt_world s = fold do_op (mt_ops s) w0" by (simp add: in_order_def)
  have same: "n = m \<longleftrightarrow> a = b" if "(t, n, a) \<in> set (mt_got s)" "(u, m, b) \<in> set (mt_got s)" for t n a u m b
    using got [OF that(1)] got [OF that(2)] by (metis option.inject)
  have found: "om_find (w_names (mt_world s)) n = Some a \<and> (\<exists>l. hget (w_loggers (mt_world s)) a = Some l \<and> lg_name l = n)"
    if "(t, n, a) \<in> set (mt_got s)" for t n a using got [OF that] world [of n a] by simp
  show ?thesis
    by (rule exI [of _ s], rule conjI [OF s(1) conjI [OF free conjI]]) (intro allI impI, erule found, intro allI impI, erule same, assumption)
qed

text \<open>Two threads ask for one logger at once, after a third has changed the root logger.\<close>

definition two_getters :: "mgr_act list" where
  "two_getters = [Mgr_get 1 ''db'', Mgr_get 2 ''db'', Mgr_go 1, Mgr_go 2, Mgr_go 1, Mgr_go 1, Mgr_go 1, Mgr_go 1, Mgr_go 2, Mgr_go 2, Mgr_go 2]"

abbreviation root_to_warn :: mgr_act where
  "root_to_warn \<equiv> Mgr_change 0 (\<lambda>l. l\<lparr>lg_level := WARN\<rparr>)"

lemma two_getters_permitted: "permitted published (mgr_act lib) (root_to_warn # two_getters) (mgr_start boot_world)"
proof -
  have "permitted published (mgr_act lib) two_getters s" for s
    by (rule permitted_static) (simp add: two_getters_def published_def)
  moreover have "published root_to_warn (mgr_start boot_world)"
    by (auto simp: published_def mgr_start_def boot_world_eq)
  ultimately show ?thesis by (simp add: mgr_act_def)
qed

lemma two_getters_run:
  "\<exists>s. rfold (mgr_act lib) (root_to_warn # two_getters) (mgr_start boot_world) = Inr s \<and> mt_got s = [(1, ''db'', 1), (2, ''db'', 1)]"
  by (simp add: two_getters_def mgr_start_def mgr_act_def mgr_step_def mt_at_def mt_acquire_def mt_release_def mt_effect_def
      boot_world_eq new_logger_def hfresh_def halloc_def hget_def set_logger_def hset_def change_logger_def Let_def)

theorem manager_in_order_witness:
  "\<forall>lib. \<exists>s l. rfold (mgr_act lib) (root_to_warn # two_getters) (mgr_start boot_world) = Inr s \<and>
     hget (w_loggers (mt_world s)) 1 = Some l \<and> lg_name l = ''db''"
proof
  fix lib
  obtain s where s: "rfold (mgr_act lib) (root_to_warn # two_getters) (mgr_start boot_world) = Inr s" "(1, ''db'', 1) \<in> set (mt_got s)"
    using two_getters_run [of lib] by auto
  then have "\<exists>l. hget (w_loggers (mt_world s)) 1 = Some l \<and> lg_name l = ''db''"
    using manager_in_order [OF boot_reachable two_getters_permitted [of lib]] by auto
  then show "\<exists>s l. rfold (mgr_act lib) (root_to_warn # two_getters) (mgr_start boot_world) = Inr s \<and>
     hget (w_loggers (mt_world s)) 1 = Some l \<and> lg_name l = ''db''" using s(1) by blast
qed

end
