(* ===== verification/LexicalCasts.thy ===== *)
theory LexicalCasts
  imports Yaml Containers
begin

text \<open>
  The conversions between configuration values and text (the \<open>LexicalCast\<close> templates of
  config.h).  A conversion either throws or returns; the conversion of an element type is
  an argument of the conversion of its container, as in the templates, and the generic
  template is \<open>boost::lexical_cast\<close>, which is not part of the repository.  The element
  order of the unordered containers is not specified, so their enumeration is a parameter.
\<close>

type_synonym 'a from_str = "string \<Rightarrow> exc + 'a"
type_synonym 'a to_str = "'a \<Rightarrow> exc + string"

section \<open>Sequences and sets\<close>

text \<open>\<open>LexicalCast<std::string, std::vector<T>>\<close> and back\<close>

definition from_vector :: "yaml_lib \<Rightarrow> 'a from_str \<Rightarrow> 'a list from_str" where
  "from_vector lib f v =
     rbind (yl_load lib v) (\<lambda>node.
       rfold (\<lambda>i vec. rbind (y_index lib node i) (\<lambda>ni. rbind (f (yl_emit lib ni)) (\<lambda>x. Inr (vec @ [x]))))
         [0..<y_size node] [])"

definition to_vector :: "yaml_lib \<Rightarrow> 'a to_str \<Rightarrow> 'a list to_str" where
  "to_vector lib t v =
     rbind (rfold (\<lambda>i node. rbind (t i) (\<lambda>s. rbind (yl_load lib s) (\<lambda>n. Inr (y_push n node)))) v YNull)
       (\<lambda>node. Inr (yl_emit lib node))"

text \<open>\<open>LexicalCast<std::string, std::list<T>>\<close> and back\<close>

definition from_list :: "yaml_lib \<Rightarrow> 'a from_str \<Rightarrow> 'a list from_str" where
  "from_list lib f v =
     rbind (yl_load lib v) (\<lambda>node.
       rfold (\<lambda>i vec. rbind (y_index lib node i) (\<lambda>ni. rbind (f (yl_emit lib ni)) (\<lambda>x. Inr (vec @ [x]))))
         [0..<y_size node] [])"

definition to_list :: "yaml_lib \<Rightarrow> 'a to_str \<Rightarrow> 'a list to_str" where
  "to_list lib t v =
     rbind (rfold (\<lambda>i node. rbind (t i) (\<lambda>s. rbind (yl_load lib s) (\<lambda>n. Inr (y_push n node)))) v YNull)
       (\<lambda>node. Inr (yl_emit lib node))"

text \<open>\<open>LexicalCast<std::string, std::set<T>>\<close> and back: a set is the list of its elements in
  increasing order of their keys.\<close>

definition from_set :: "yaml_lib \<Rightarrow> ('a \<Rightarrow> 'k::linorder) \<Rightarrow> 'a from_str \<Rightarrow> 'a list from_str" where
  "from_set lib key f v =
     rbind (yl_load lib v) (\<lambda>node.
       rfold (\<lambda>i vec. rbind (y_index lib node i) (\<lambda>ni. rbind (f (yl_emit lib ni)) (\<lambda>x. Inr (os_insert key x vec))))
         [0..<y_size node] [])"

definition to_set :: "yaml_lib \<Rightarrow> 'a to_str \<Rightarrow> 'a list to_str" where
  "to_set lib t v =
     rbind (rfold (\<lambda>i node. rbind (t i) (\<lambda>s. rbind (yl_load lib s) (\<lambda>n. Inr (y_push n node)))) v YNull)
       (\<lambda>node. Inr (yl_emit lib node))"

text \<open>\<open>LexicalCast<std::string, std::unordered_set<T>>\<close> and back\<close>

definition from_uset :: "yaml_lib \<Rightarrow> 'a from_str \<Rightarrow> 'a set from_str" where
  "from_uset lib f v =
     rbind (yl_load lib v) (\<lambda>node.
       rfold (\<lambda>i vec. rbind (y_index lib node i) (\<lambda>ni. rbind (f (yl_emit lib ni)) (\<lambda>x. Inr (insert x vec))))
         [0..<y_size node] {})"

definition to_uset :: "yaml_lib \<Rightarrow> ('a set \<Rightarrow> 'a list) \<Rightarrow> 'a to_str \<Rightarrow> 'a set to_str" where
  "to_uset lib enum t v =
     rbind (rfold (\<lambda>i node. rbind (t i) (\<lambda>s. rbind (yl_load lib s) (\<lambda>n. Inr (y_push n node)))) (enum v) YNull)
       (\<lambda>node. Inr (yl_emit lib node))"

section \<open>Maps\<close>

text \<open>\<open>LexicalCast<std::string, std::map<std::string, T>>\<close> and back: \<open>insert\<close> keeps the first
  value of a key.\<close>

definition from_map :: "yaml_lib \<Rightarrow> 'a from_str \<Rightarrow> (string, 'a) omap from_str" where
  "from_map lib f v =
     rbind (yl_load lib v) (\<lambda>node.
       rbind (y_pairs lib node) (\<lambda>ps.
         rfold (\<lambda>(k, n) m. rbind (f (yl_emit lib n)) (\<lambda>x. Inr (om_insert k x m))) ps []))"

definition to_map :: "yaml_lib \<Rightarrow> 'a to_str \<Rightarrow> (string, 'a) omap to_str" where
  "to_map lib t v =
     rbind (rfold (\<lambda>(k, x) node. rbind (t x) (\<lambda>s. rbind (yl_load lib s) (\<lambda>n. Inr (y_set k n node)))) v YNull)
       (\<lambda>node. Inr (yl_emit lib node))"

text \<open>\<open>LexicalCast<std::string, std::unordered_map<std::string, T>>\<close> and back\<close>

definition from_umap :: "yaml_lib \<Rightarrow> 'a from_str \<Rightarrow> (string \<rightharpoonup> 'a) from_str" where
  "from_umap lib f v =
     rbind (yl_load lib v) (\<lambda>node.
       rbind (y_pairs lib node) (\<lambda>ps.
         rfold (\<lambda>(k, n) m. rbind (f (yl_emit lib n))
                  (\<lambda>x. Inr (if m k = None then m(k \<mapsto> x) else m))) ps Map.empty))"

definition to_umap ::
  "yaml_lib \<Rightarrow> ((string \<rightharpoonup> 'a) \<Rightarrow> (string \<times> 'a) list) \<Rightarrow> 'a to_str \<Rightarrow> (string \<rightharpoonup> 'a) to_str" where
  "to_umap lib enum t v =
     rbind (rfold (\<lambda>(k, x) node. rbind (t x) (\<lambda>s. rbind (yl_load lib s) (\<lambda>n. Inr (y_set k n node)))) (enum v) YNull)
       (\<lambda>node. Inr (yl_emit lib node))"

section \<open>Round trips\<close>

text \<open>
  An element survives the conversions when its text is parsed to a node whose printed form
  converts back to the element.  This is what the container templates need of the element
  type, and what they give for the container itself, so it composes for nested containers.
\<close>

definition roundtrip_ok ::
  "yaml_lib \<Rightarrow> 'a to_str \<Rightarrow> 'a from_str \<Rightarrow> ('a \<Rightarrow> ynode) \<Rightarrow> 'a \<Rightarrow> bool" where
  "roundtrip_ok lib t f nd x \<longleftrightarrow>
     (\<exists>s. t x = Inr s \<and> yl_load lib s = Inr (nd x)) \<and> f (yl_emit lib (nd x)) = Inr x"

definition reloads :: "yaml_lib \<Rightarrow> ynode \<Rightarrow> bool" where
  "reloads lib n \<longleftrightarrow> yl_load lib (yl_emit lib n) = Inr n"

lemma push_elements:
  assumes "\<forall>x\<in>set xs. roundtrip_ok lib t f nd x"
  shows "rfold (\<lambda>i node. rbind (t i) (\<lambda>s. rbind (yl_load lib s) (\<lambda>n. Inr (y_push n node)))) xs (y_seq ms)
    = Inr (y_seq (ms @ map nd xs))"
  using assms
proof (induction xs arbitrary: ms)
  case Nil
  then show ?case by simp
next
  case (Cons x xs)
  then obtain s where "t x = Inr s" "yl_load lib s = Inr (nd x)" by (auto simp: roundtrip_ok_def)
  with Cons show ?case by (simp add: y_push_seq)
qed

lemma push_elements_Null:
  assumes "\<forall>x\<in>set xs. roundtrip_ok lib t f nd x"
  shows "rfold (\<lambda>i node. rbind (t i) (\<lambda>s. rbind (yl_load lib s) (\<lambda>n. Inr (y_push n node)))) xs YNull
    = Inr (y_seq (map nd xs))"
  using push_elements [OF assms, of "[]"] by (simp add: y_seq_def)

text \<open>The reading loop, for any way of adding an element to the container.\<close>

lemma read_elements:
  assumes "\<forall>x\<in>set xs. roundtrip_ok lib t f nd x"
  shows "rfold (\<lambda>i acc. rbind (y_index lib (y_seq (map nd xs)) i)
      (\<lambda>ni. rbind (f (yl_emit lib ni)) (\<lambda>x. Inr (add x acc)))) [0..<length xs] acc = Inr (fold add xs acc)"
proof -
  have step: "rfold (\<lambda>i acc. rbind (y_index lib (y_seq (map nd xs)) i)
      (\<lambda>ni. rbind (f (yl_emit lib ni)) (\<lambda>x. Inr (add x acc)))) [k..<length xs] acc = Inr (fold add (drop k xs) acc)"
    if "k \<le> length xs" for k acc
    using that
  proof (induction "length xs - k" arbitrary: k acc)
    case 0
    then show ?case by simp
  next
    case (Suc d)
    then have k: "k < length xs" by simp
    then have "f (yl_emit lib (nd (xs ! k))) = Inr (xs ! k)" using assms by (simp add: roundtrip_ok_def)
    moreover have "y_index lib (y_seq (map nd xs)) k = Inr (nd (xs ! k))" using k by (simp add: y_index_seq)
    ultimately show ?case
      using Suc.hyps(1) [of "Suc k" "add (xs ! k) acc"] Suc.hyps(2) k
      by (simp add: upt_conv_Cons drop_Suc_eq)
  qed
  from step [of 0 acc] show ?thesis by simp
qed

lemma fold_snoc: "fold (\<lambda>x vec. vec @ [x]) xs acc = acc @ xs"
  by (induction xs arbitrary: acc) auto

lemma os_insert_last: "\<forall>y\<in>set ys. key y < key x \<Longrightarrow> os_insert key x ys = ys @ [x]"
  by (induction ys) auto

lemma fold_os_insert: "os_sorted key (ys @ xs) \<Longrightarrow> fold (os_insert key) xs ys = ys @ xs"
proof (induction xs arbitrary: ys)
  case Nil
  then show ?case by simp
next
  case (Cons x xs)
  then have "\<forall>y\<in>set ys. key y < key x" by (auto simp: os_sorted_def sorted_wrt_append)
  with Cons show ?case by (simp add: os_insert_last)
qed

lemma fold_insert_set: "fold insert xs A = set xs \<union> A"
  by (induction xs arbitrary: A) auto

text \<open>A vector survives the conversion to text and back when its elements do and the printed
  sequence parses to itself.\<close>

theorem vector_roundtrip:
  assumes "\<forall>x\<in>set xs. roundtrip_ok lib t f nd x" and "reloads lib (y_seq (map nd xs))"
  shows "roundtrip_ok lib (to_vector lib t) (from_vector lib f) (\<lambda>xs. y_seq (map nd xs)) xs"
  using push_elements_Null [OF assms(1)] read_elements [OF assms(1), of "\<lambda>x vec. vec @ [x]" "[]"] assms(2)
  by (simp add: roundtrip_ok_def to_vector_def from_vector_def reloads_def fold_snoc)

text \<open>A list survives the conversion to text and back under the same conditions.\<close>

lemma list_roundtrip:
  assumes "\<forall>x\<in>set xs. roundtrip_ok lib t f nd x" and "reloads lib (y_seq (map nd xs))"
  shows "roundtrip_ok lib (to_list lib t) (from_list lib f) (\<lambda>xs. y_seq (map nd xs)) xs"
  using push_elements_Null [OF assms(1)] read_elements [OF assms(1), of "\<lambda>x vec. vec @ [x]" "[]"] assms(2)
  by (simp add: roundtrip_ok_def to_list_def from_list_def reloads_def fold_snoc)

text \<open>A set survives the conversion to text and back.\<close>

theorem set_roundtrip:
  assumes "os_sorted key xs" "\<forall>x\<in>set xs. roundtrip_ok lib t f nd x" "reloads lib (y_seq (map nd xs))"
  shows "roundtrip_ok lib (to_set lib t) (from_set lib key f) (\<lambda>xs. y_seq (map nd xs)) xs"
  using push_elements_Null [OF assms(2)] read_elements [OF assms(2), of "os_insert key" "[]"] assms(1,3)
  by (simp add: roundtrip_ok_def to_set_def from_set_def reloads_def fold_os_insert)

text \<open>An unordered set survives the conversion to text and back, whatever order its
  elements are enumerated in.\<close>

lemma uset_roundtrip:
  assumes "set (enum A) = A" "\<forall>x\<in>A. roundtrip_ok lib t f nd x" "reloads lib (y_seq (map nd (enum A)))"
  shows "roundtrip_ok lib (to_uset lib enum t) (from_uset lib f) (\<lambda>A. y_seq (map nd (enum A))) A"
proof -
  have el: "\<forall>x\<in>set (enum A). roundtrip_ok lib t f nd x" using assms(1,2) by simp
  show ?thesis
    using push_elements_Null [OF el] read_elements [OF el, of insert "{}"] assms(1,3)
    by (simp add: roundtrip_ok_def to_uset_def from_uset_def reloads_def fold_insert_set)
qed

text \<open>The node a map is printed from.\<close>

definition y_map :: "(string \<times> ynode) list \<Rightarrow> ynode" where
  "y_map kvs = (if kvs = [] then YNull else YMap (map (\<lambda>(k, n). (YScalar k, n)) kvs))"

lemma y_put_new: "k \<notin> fst ` set kvs \<Longrightarrow>
   y_put k v (map (\<lambda>(k, n). (YScalar k, n)) kvs) = map (\<lambda>(k, n). (YScalar k, n)) (kvs @ [(k, v)])"
  by (induction kvs) auto

lemma y_set_map: "k \<notin> fst ` set kvs \<Longrightarrow> y_set k v (y_map kvs) = y_map (kvs @ [(k, v)])"
  using y_put_new [of k kvs v] by (simp add: y_map_def)

lemma put_entries:
  assumes "\<forall>x\<in>snd ` set m. roundtrip_ok lib t f nd x" "distinct (map fst kvs @ map fst m)"
  shows "rfold (\<lambda>(k, x) node. rbind (t x) (\<lambda>s. rbind (yl_load lib s) (\<lambda>n. Inr (y_set k n node)))) m (y_map kvs)
    = Inr (y_map (kvs @ map (\<lambda>(k, x). (k, nd x)) m))"
  using assms
proof (induction m arbitrary: kvs)
  case Nil
  then show ?case by simp
next
  case (Cons p m)
  obtain k x where p: "p = (k, x)" by force
  with Cons.prems obtain s where "t x = Inr s" "yl_load lib s = Inr (nd x)" by (auto simp: roundtrip_ok_def)
  moreover have "k \<notin> fst ` set kvs" using Cons.prems(2) p by auto
  moreover have "rfold (\<lambda>(k, x) node. rbind (t x) (\<lambda>s. rbind (yl_load lib s) (\<lambda>n. Inr (y_set k n node)))) m
     (y_map (kvs @ [(k, nd x)])) = Inr (y_map ((kvs @ [(k, nd x)]) @ map (\<lambda>(k, x). (k, nd x)) m))"
    using Cons.prems p by (intro Cons.IH) auto
  ultimately show ?case by (simp add: p y_set_map)
qed

lemma put_entries_Null:
  assumes "\<forall>x\<in>snd ` set m. roundtrip_ok lib t f nd x" "distinct (map fst m)"
  shows "rfold (\<lambda>(k, x) node. rbind (t x) (\<lambda>s. rbind (yl_load lib s) (\<lambda>n. Inr (y_set k n node)))) m YNull
    = Inr (y_map (map (\<lambda>(k, x). (k, nd x)) m))"
  using put_entries [OF assms(1), of "[]"] assms(2) by (simp add: y_map_def)

lemma y_pairs_map:
  "(kvs = [] \<Longrightarrow> yl_pairs lib YNull = Inr []) \<Longrightarrow> y_pairs lib (y_map kvs) = Inr kvs"
  by (auto simp: y_map_def comp_def case_prod_unfold)

lemma read_entries:
  assumes "\<forall>x\<in>snd ` set m. roundtrip_ok lib t f nd x"
  shows "rfold (\<lambda>(k, n) acc. rbind (f (yl_emit lib n)) (\<lambda>x. Inr (add k x acc))) (map (\<lambda>(k, x). (k, nd x)) m) acc
    = Inr (fold (\<lambda>(k, x). add k x) m acc)"
  using assms by (induction m arbitrary: acc) (auto simp: roundtrip_ok_def)

lemma om_insert_last: "\<forall>a\<in>fst ` set m. a < k \<Longrightarrow> om_insert k v m = m @ [(k, v)]"
proof -
  assume a: "\<forall>a\<in>fst ` set m. a < k"
  then have "om_find m k = None" by (intro om_find_notin) auto
  moreover have "om_set k v m = m @ [(k, v)]"
    using a by (induction k v m rule: om_set.induct) auto
  ultimately show ?thesis by (simp add: om_insert_def)
qed

lemma fold_om_insert: "om_sorted (n @ m) \<Longrightarrow> fold (\<lambda>(k, x). om_insert k x) m n = n @ m"
proof (induction m arbitrary: n)
  case Nil
  then show ?case by simp
next
  case (Cons p m)
  obtain k x where p: "p = (k, x)" by force
  then have "\<forall>a\<in>fst ` set n. a < k" using Cons.prems by (auto simp: om_sorted_def sorted_wrt_append)
  then show ?case using Cons p by (simp add: om_insert_last)
qed

lemma om_sorted_distinct: "om_sorted m \<Longrightarrow> distinct (map fst m)"
  by (simp add: om_sorted_def strict_sorted_iff)

text \<open>C38. A map survives the conversion to text and back.\<close>

theorem map_roundtrip:
  assumes "om_sorted m" "\<forall>x\<in>snd ` set m. roundtrip_ok lib t f nd x"
    and "reloads lib (y_map (map (\<lambda>(k, x). (k, nd x)) m))"
    and "m = [] \<Longrightarrow> yl_pairs lib YNull = Inr []"
  shows "roundtrip_ok lib (to_map lib t) (from_map lib f) (\<lambda>m. y_map (map (\<lambda>(k, x). (k, nd x)) m)) m"
  using put_entries_Null [OF assms(2) om_sorted_distinct [OF assms(1)]] assms(1,3,4)
    y_pairs_map [of "map (\<lambda>(k, x). (k, nd x)) m" lib] read_entries [OF assms(2), of om_insert "[]"]
    fold_om_insert [of "[]" m]
  by (simp add: roundtrip_ok_def to_map_def from_map_def reloads_def)

lemma fold_first_wins:
  "distinct (map fst m) \<Longrightarrow> \<forall>k\<in>fst ` set m. g k = None \<Longrightarrow>
   fold (\<lambda>(k, x) g. if g k = None then g(k \<mapsto> x) else g) m g = g ++ map_of m"
proof (induction m arbitrary: g)
  case Nil
  then show ?case by simp
next
  case (Cons p m)
  obtain k x where p: "p = (k, x)" by force
  have "fold (\<lambda>(k, x) g. if g k = None then g(k \<mapsto> x) else g) m (g(k \<mapsto> x)) = g(k \<mapsto> x) ++ map_of m"
    using Cons.prems p by (intro Cons.IH) auto
  also have "\<dots> = g ++ map_of (p # m)"
  proof -
    have "map_of m k = None" using Cons.prems(1) p by (simp add: map_of_eq_None_iff)
    then show ?thesis using p by (intro ext) (simp add: map_add_def split: option.splits)
  qed
  finally show ?case using Cons.prems p by (simp del: map_of.simps)
qed

text \<open>An unordered map survives the conversion to text and back, whatever order its entries
  are enumerated in.\<close>

lemma umap_roundtrip:
  assumes "distinct (map fst (enum m))" "map_of (enum m) = m"
    and "\<forall>x\<in>snd ` set (enum m). roundtrip_ok lib t f nd x"
    and "reloads lib (y_map (map (\<lambda>(k, x). (k, nd x)) (enum m)))"
    and "enum m = [] \<Longrightarrow> yl_pairs lib YNull = Inr []"
  shows "roundtrip_ok lib (to_umap lib enum t) (from_umap lib f)
     (\<lambda>m. y_map (map (\<lambda>(k, x). (k, nd x)) (enum m))) m"
  using put_entries_Null [OF assms(3,1)] assms(2,4,5) fold_first_wins [OF assms(1), of Map.empty]
    y_pairs_map [of "map (\<lambda>(k, x). (k, nd x)) (enum m)" lib]
    read_entries [OF assms(3), of "\<lambda>k x g. if g k = None then g(k \<mapsto> x) else g" Map.empty]
  by (simp add: roundtrip_ok_def to_umap_def from_umap_def reloads_def)

section \<open>A library instance for the witnesses\<close>

definition demo_lib :: yaml_lib where
  "demo_lib =
     \<lparr>yl_load = (\<lambda>s. if s = ''[a, b]'' then Inr (YSequence [YScalar ''a'', YScalar ''b''])
                     else if s = ''k: a'' then Inr (YMap [(YScalar ''k'', YScalar ''a'')])
                     else if s = ''{'' then Inl (Std_exception ''bad yaml'')
                     else Inr (YScalar s)),
      yl_emit = (\<lambda>n. case n of YScalar s \<Rightarrow> s | YSequence _ \<Rightarrow> ''[a, b]'' | YMap _ \<Rightarrow> ''k: a'' | _ \<Rightarrow> ''~''),
      yl_as_string = (\<lambda>_. Inl (Std_exception ''bad conversion'')),
      yl_field = (\<lambda>_ _. Inr YUndefined), yl_index = (\<lambda>_ _. Inr YUndefined), yl_pairs = (\<lambda>_. Inr [])\<rparr>"

lemma demo_string_roundtrip:
  "s \<notin> {''[a, b]'', ''k: a'', ''{''} \<Longrightarrow> roundtrip_ok demo_lib Inr Inr YScalar s"
  by (simp add: roundtrip_ok_def demo_lib_def)

theorem vector_roundtrip_witness:
  "roundtrip_ok demo_lib (to_vector demo_lib Inr) (from_vector demo_lib Inr)
     (\<lambda>xs. y_seq (map YScalar xs)) [''a'', ''b'']"
  by (rule vector_roundtrip) (simp_all add: demo_string_roundtrip, simp add: reloads_def y_seq_def demo_lib_def)

theorem set_roundtrip_witness:
  "roundtrip_ok demo_lib (to_set demo_lib Inr) (from_set demo_lib (\<lambda>s. s) Inr)
     (\<lambda>xs. y_seq (map YScalar xs)) [''a'', ''b'']"
  by (rule set_roundtrip) (simp_all add: demo_string_roundtrip, simp add: reloads_def y_seq_def demo_lib_def)

theorem map_roundtrip_witness:
  "roundtrip_ok demo_lib (to_map demo_lib Inr) (from_map demo_lib Inr)
     (\<lambda>m. y_map (map (\<lambda>(k, x). (k, YScalar x)) m)) [(''k'', ''a'')]"
  by (rule map_roundtrip) (simp_all add: demo_string_roundtrip, simp add: reloads_def y_map_def demo_lib_def)

end
