(* ===== verification/ConfigVars.thy ===== *)
theory ConfigVars
  imports LexicalCasts LogCore
begin

text \<open>
  Configuration variables (\<open>class ConfigVarBase\<close> and \<open>class ConfigVar<T>\<close> of config.h).
  The variables of a program have different C++ types: a variable carries the tag of its
  type, and its value is an element of one universe of values, with the conversions
  \<open>FromStr\<close> and \<open>ToStr\<close> of each type in the record \<open>codec\<close>.  The change callbacks act on
  a state of the program outside the variable; they run while the variable's read lock is
  held, so they cannot change the variable itself without waiting for their own thread.
\<close>

section \<open>Variables\<close>

type_synonym ('v, 's) on_change_cb = "'v \<Rightarrow> 'v \<Rightarrow> 's \<Rightarrow> exc option \<times> 's"

record ('t, 'v, 's) config_var =
  cv_name :: string
  cv_description :: string
  cv_type :: 't
  cv_val :: 'v
  cv_cbs :: "(u64, ('v, 's) on_change_cb) omap"

record ('t, 'v) codec =
  c_from :: "'t \<Rightarrow> 'v from_str"
  c_to :: "'t \<Rightarrow> 'v to_str"
  c_type_name :: "'t \<Rightarrow> string"

type_synonym log_line = "level \<times> string"

text \<open>The constructors \<open>ConfigVarBase\<close> (which converts the name to lower case) and
  \<open>ConfigVar\<close>.\<close>

definition mk_config_var :: "'t \<Rightarrow> string \<Rightarrow> 'v \<Rightarrow> string \<Rightarrow> ('t, 'v, 's) config_var" where
  "mk_config_var t name default_value description =
     \<lparr>cv_name = map tolower name, cv_description = description, cv_type = t, cv_val = default_value,
      cv_cbs = []\<rparr>"

definition getValue :: "('t, 'v, 's) config_var \<Rightarrow> 'v" where
  "getValue cv = cv_val cv"

text \<open>
  \<open>setValue\<close>: an equal value changes nothing; otherwise the callbacks run in the order of
  their keys with the old and the new value, and the value is stored last.  An exception
  of a callback leaves the value as it was and skips the callbacks after it.
\<close>

fun run_cbs :: "(u64 \<times> ('v, 's) on_change_cb) list \<Rightarrow> 'v \<Rightarrow> 'v \<Rightarrow> 's \<Rightarrow> exc option \<times> 's" where
  "run_cbs [] old new s = (None, s)"
| "run_cbs ((k, cb) # cbs) old new s =
     (case cb old new s of
        (Some e, s') \<Rightarrow> (Some e, s')
      | (None, s') \<Rightarrow> run_cbs cbs old new s')"

definition setValue ::
  "'v \<Rightarrow> ('t, 'v, 's) config_var \<Rightarrow> 's \<Rightarrow> exc option \<times> ('t, 'v, 's) config_var \<times> 's" where
  "setValue v cv s =
     (if v = cv_val cv then (None, cv, s)
      else (case run_cbs (cv_cbs cv) (cv_val cv) v s of
              (Some e, s') \<Rightarrow> (Some e, cv, s')
            | (None, s') \<Rightarrow> (None, cv\<lparr>cv_val := v\<rparr>, s')))"

text \<open>\<open>toString\<close>: an exception derived from \<open>std::exception\<close> is logged and the result is
  empty; any other exception leaves the function.\<close>

definition toString ::
  "('t, 'v) codec \<Rightarrow> ('t, 'v, 's) config_var \<Rightarrow> (exc + string) \<times> log_line list" where
  "toString cod cv =
     (case c_to cod (cv_type cv) (cv_val cv) of
        Inr str \<Rightarrow> (Inr str, [])
      | Inl (Std_exception what) \<Rightarrow>
          (Inr [], [(ERROR, ''ConfigVar::toString exception'' @ what @ '' convert: '' @
                       c_type_name cod (cv_type cv) @ '' to string'')])
      | Inl Other_exception \<Rightarrow> (Inl Other_exception, []))"

text \<open>
  \<open>fromString\<close>: parse, then \<open>setValue\<close>.  The function ends with \<open>return ""\<close> on every path,
  a string literal converted to \<open>bool\<close>, which is a pointer that is not null.
\<close>

definition fromString ::
  "('t, 'v) codec \<Rightarrow> string \<Rightarrow> ('t, 'v, 's) config_var \<Rightarrow> 's
   \<Rightarrow> (exc + bool) \<times> log_line list \<times> ('t, 'v, 's) config_var \<times> 's" where
  "fromString cod val cv s =
     (let (thrown, cv', s') =
            (case c_from cod (cv_type cv) val of
               Inl e \<Rightarrow> (Some e, cv, s)
             | Inr v \<Rightarrow> setValue v cv s)
      in (case thrown of
            None \<Rightarrow> (Inr True, [], cv', s')
          | Some (Std_exception what) \<Rightarrow>
              (Inr True,
               [(ERROR, ''ConfigVar::fromString exception'' @ what @ '' convert: string to '' @
                   c_type_name cod (cv_type cv) @ '' - '' @ val)], cv', s')
          | Some Other_exception \<Rightarrow> (Inl Other_exception, [], cv', s')))"

text \<open>
  The listeners.  The counter \<open>s_func_id\<close> is a static variable of the member function
  template, shared by all variables of one type; it is an argument and a result here.
\<close>

definition addListener ::
  "('v, 's) on_change_cb \<Rightarrow> u64 \<Rightarrow> ('t, 'v, 's) config_var \<Rightarrow> u64 \<times> u64 \<times> ('t, 'v, 's) config_var" where
  "addListener cb s_func_id cv =
     (let i = s_func_id + 1 in (i, i, cv\<lparr>cv_cbs := om_set i cb (cv_cbs cv)\<rparr>))"

definition delListener :: "u64 \<Rightarrow> ('t, 'v, 's) config_var \<Rightarrow> ('t, 'v, 's) config_var" where
  "delListener key cv = cv\<lparr>cv_cbs := om_erase key (cv_cbs cv)\<rparr>"

definition getListener :: "u64 \<Rightarrow> ('t, 'v, 's) config_var \<Rightarrow> ('v, 's) on_change_cb option" where
  "getListener key cv = om_find (cv_cbs cv) key"

definition clearListener :: "('t, 'v, 's) config_var \<Rightarrow> ('t, 'v, 's) config_var" where
  "clearListener cv = cv\<lparr>cv_cbs := []\<rparr>"

section \<open>Properties\<close>

text \<open>The callback loop, unless a callback throws, is the composition of the callbacks.\<close>

definition calm :: "('v, 's) on_change_cb \<Rightarrow> bool" where
  "calm cb \<longleftrightarrow> (\<forall>old new s. fst (cb old new s) = None)"

lemma run_cbs_calm:
  "\<forall>cb\<in>snd ` set cbs. calm cb \<Longrightarrow>
   run_cbs cbs old new s = (None, fold (\<lambda>(k, cb) s. snd (cb old new s)) cbs s)"
proof (induction cbs arbitrary: s)
  case Nil
  then show ?case by simp
next
  case (Cons p cbs)
  obtain k cb where p: "p = (k, cb)" by force
  with Cons.prems have "fst (cb old new s) = None" by (simp add: calm_def)
  then show ?case using Cons p by (cases "cb old new s") simp
qed

lemma run_cbs_append:
  "run_cbs (as @ bs) old new s =
     (case run_cbs as old new s of (Some e, s') \<Rightarrow> (Some e, s') | (None, s') \<Rightarrow> run_cbs bs old new s')"
proof (induction as arbitrary: s)
  case Nil
  then show ?case by simp
next
  case (Cons p as)
  obtain k cb where p: "p = (k, cb)" by force
  show ?case using Cons p by (cases "cb old new s") (auto split: option.splits)
qed



text \<open>An exception of a callback leaves the value unchanged, although the callbacks before
  it have already been told of the new value.\<close>

theorem setValue_exception:
  assumes "cv_cbs cv = as @ (k, cb) # bs" "\<forall>c\<in>snd ` set as. calm c" "v \<noteq> cv_val cv"
    and "cb (cv_val cv) v (fold (\<lambda>(k, cb) s. snd (cb (cv_val cv) v s)) as s) = (Some e, s')"
  shows "setValue v cv s = (Some e, cv, s')"
  using assms run_cbs_calm [OF assms(2)] by (simp add: setValue_def run_cbs_append)

theorem setValue_exception_witness:
  "setValue (2::int) \<lparr>cv_name = ''n'', cv_description = [], cv_type = (), cv_val = 1,
      cv_cbs = [(1, \<lambda>a b s. (None, s @ [b])), (2, \<lambda>a b s. (Some Other_exception, s))]\<rparr> [] =
   (Some Other_exception, \<lparr>cv_name = ''n'', cv_description = [], cv_type = (), cv_val = 1,
      cv_cbs = [(1, \<lambda>a b s. (None, s @ [b])), (2, \<lambda>a b s. (Some Other_exception, s))]\<rparr>, [2])"
  by (rule setValue_exception [where as = "[(1, \<lambda>a b s. (None, s @ [b]))]"]) (simp_all add: calm_def)

text \<open>\<open>fromString\<close> reports success whatever happens: its result is true when the text cannot
  be converted, and then the variable is unchanged.\<close>

theorem fromString_always_true:
  "(case fst (fromString cod val cv s) of Inr b \<Rightarrow> b | Inl e \<Rightarrow> e = Other_exception) \<and>
   (\<forall>what. c_from cod (cv_type cv) val = Inl (Std_exception what) \<longrightarrow>
      fst (fromString cod val cv s) = Inr True \<and> fst (snd (snd (fromString cod val cv s))) = cv)"
  by (auto simp: fromString_def split: sum.splits prod.splits option.splits exc.splits)

theorem fromString_always_true_witness:
  "fst (fromString \<lparr>c_from = (\<lambda>_ _. Inl (Std_exception ''bad'')), c_to = (\<lambda>_ _. Inr []), c_type_name = (\<lambda>_. ''i'')\<rparr>
     ''x'' \<lparr>cv_name = ''n'', cv_description = [], cv_type = (), cv_val = (1::int), cv_cbs = []\<rparr> ()) = Inr True"
  using fromString_always_true [of "\<lparr>c_from = (\<lambda>_ _. Inl (Std_exception ''bad'')), c_to = (\<lambda>_ _. Inr []), c_type_name = (\<lambda>_. ''i'')\<rparr>"
     "''x''" "\<lparr>cv_name = ''n'', cv_description = [], cv_type = (), cv_val = (1::int), cv_cbs = []\<rparr>" "()"]
  by simp

text \<open>
  The keys handed out so far are at most the counter; as long as the counter has not
  reached its maximum, a new key is fresh.
\<close>

definition keys_inv :: "u64 \<Rightarrow> ('t, 'v, 's) config_var \<Rightarrow> bool" where
  "keys_inv ctr cv \<longleftrightarrow> om_sorted (cv_cbs cv) \<and> (\<forall>k\<in>fst ` set (cv_cbs cv). k \<le> ctr)"

lemma u64_succ_greater: "(ctr :: u64) \<noteq> - 1 \<Longrightarrow> ctr < ctr + 1"
proof -
  assume "ctr \<noteq> - 1"
  then have "1 + ctr \<noteq> 0" using max_word_wrap [of ctr] by (auto simp: add.commute)
  then have "unat (1 + ctr) = Suc (unat ctr)" by (rule unatSuc)
  then show ?thesis by (simp add: word_less_nat_alt add.commute)
qed

text \<open>A listener gets a key no listener of the variable has, and is found under it; removing
  it again restores the variable.  This holds until the 64-bit counter wraps around.\<close>

theorem addListener_fresh:
  assumes "keys_inv ctr cv" "ctr \<noteq> - 1" "addListener cb ctr cv = (key, ctr', cv')"
  shows "getListener key cv = None \<and> getListener key cv' = Some cb \<and> keys_inv ctr' cv' \<and>
    (\<forall>k. k \<noteq> key \<longrightarrow> getListener k cv' = getListener k cv) \<and> delListener key cv' = cv"
proof -
  have e: "key = ctr + 1" "ctr' = ctr + 1" "cv' = cv\<lparr>cv_cbs := om_set (ctr + 1) cb (cv_cbs cv)\<rparr>"
    using assms(3) by (auto simp: addListener_def Let_def)
  have s: "om_sorted (cv_cbs cv)" using assms(1) by (simp add: keys_inv_def)
  have lt: "\<forall>k\<in>fst ` set (cv_cbs cv). k < ctr + 1"
    using assms(1) u64_succ_greater [OF assms(2)] by (auto simp: keys_inv_def intro: le_less_trans)
  then have new: "om_find (cv_cbs cv) (ctr + 1) = None"
    by (intro om_find_notin) auto
  have del: "om_erase (ctr + 1) (om_set (ctr + 1) cb (cv_cbs cv)) = cv_cbs cv"
    by (intro om_eqI omap.valid_erase omap.valid_assign s omap.erase_assign new)
  have "keys_inv (ctr + 1) cv'"
    using s lt by (auto simp: keys_inv_def e om_set_keys om_sorted_set)
  then show ?thesis using new del by (simp add: e getListener_def delListener_def omap.find_assign)
qed

theorem addListener_fresh_witness:
  "getListener 1 (snd (snd (addListener (\<lambda>a b (s::int list). (None, a # b # s)) 0
     \<lparr>cv_name = ''n'', cv_description = [], cv_type = (), cv_val = (1::int), cv_cbs = []\<rparr>))) \<noteq> None"
  using addListener_fresh [where ctr = 0 and cb = "\<lambda>a b (s::int list). (None, a # b # s)" and key = 1
     and ctr' = 1 and cv = "\<lparr>cv_name = ''n'', cv_description = [], cv_type = (), cv_val = (1::int), cv_cbs = []\<rparr>"]
  by (simp add: keys_inv_def addListener_def)

end
