(* ===== verification/ConfigRegistry.thy ===== *)
theory ConfigRegistry
  imports ConfigVars
begin

text \<open>
  The registry of configuration variables (\<open>class Config\<close> of config.h and config.cpp): the
  two forms of \<open>Lookup\<close>, \<open>LookupBase\<close>, \<open>Visit\<close>, and loading a YAML document.  The
  registry's read-write lock is taken once per operation.
\<close>

section \<open>State\<close>

text \<open>
  \<open>s_datas\<close>, the heap of variables behind its pointers, the listener counter of each type,
  the lines logged at the root logger, and the state the change callbacks act on.
\<close>

record ('t, 'v, 's) config_state =
  cs_datas :: "(string, addr) omap"
  cs_vars :: "('t, 'v, 's) config_var list"
  cs_func_id :: "'t \<Rightarrow> u64"
  cs_log :: "log_line list"
  cs_ext :: 's

definition log_line :: "level \<Rightarrow> string \<Rightarrow> ('t, 'v, 's) config_state \<Rightarrow> ('t, 'v, 's) config_state" where
  "log_line l s cs = cs\<lparr>cs_log := cs_log cs @ [(l, s)]\<rparr>"

text \<open>The characters a name may consist of, as the sources list them.\<close>

definition name_alphabet :: string where
  "name_alphabet = ''abcdefghijklmnopqrstuvwxyz._012345678''"

section \<open>Lookup\<close>

text \<open>
  \<open>Config::Lookup<T>(name, default_value, description)\<close>: an existing variable of the same
  type is returned, one of another type gives the null pointer, a name with another
  character throws, and otherwise the variable is created.
\<close>

definition Lookup ::
  "('t, 'v) codec \<Rightarrow> 't \<Rightarrow> string \<Rightarrow> 'v \<Rightarrow> string \<Rightarrow> ('t, 'v, 's) config_state
   \<Rightarrow> (fault + addr option) \<times> ('t, 'v, 's) config_state" where
  "Lookup cod t name default_value description cs =
     (case om_find (cs_datas cs) name of
        Some a \<Rightarrow>
          (case hget (cs_vars cs) a of
             None \<Rightarrow> (Inl Null_deref, cs)
           | Some cv \<Rightarrow>
               if cv_type cv = t then
                 (Inr (Some a), log_line INFO (''Lookup name='' @ name @ '' exists'') cs)
               else
                 (case toString cod cv of
                    (Inl e, lines) \<Rightarrow> (Inl (Throws e), cs\<lparr>cs_log := cs_log cs @ lines\<rparr>)
                  | (Inr str, lines) \<Rightarrow>
                      (Inr None,
                       log_line ERROR (''Lookup name='' @ name @ '' exists but type not '' @
                           c_type_name cod t @ '' real_type='' @ c_type_name cod (cv_type cv) @ '' '' @ str)
                         (cs\<lparr>cs_log := cs_log cs @ lines\<rparr>))))
      | None \<Rightarrow>
          if find_first_not_of name name_alphabet \<noteq> None then
            (Inl (Throws (Std_exception name)), log_line ERROR (''Lookup name invalid '' @ name) cs)
          else
            (let v = hfresh (cs_vars cs)
             in (Inr (Some v),
                 cs\<lparr>cs_vars := halloc (cs_vars cs) (mk_config_var t name default_value description),
                    cs_datas := om_set name v (cs_datas cs)\<rparr>)))"

text \<open>\<open>Config::Lookup<T>(name)\<close>: the null pointer when there is none of that type.\<close>

definition Lookup_existing :: "'t \<Rightarrow> string \<Rightarrow> ('t, 'v, 's) config_state \<Rightarrow> addr option" where
  "Lookup_existing t name cs =
     (case om_find (cs_datas cs) name of
        None \<Rightarrow> None
      | Some a \<Rightarrow>
          (case hget (cs_vars cs) a of
             None \<Rightarrow> None
           | Some cv \<Rightarrow> if cv_type cv = t then Some a else None))"

definition LookupBase :: "string \<Rightarrow> ('t, 'v, 's) config_state \<Rightarrow> addr option" where
  "LookupBase name cs = om_find (cs_datas cs) name"

text \<open>\<open>Config::Visit\<close>: the callback on every variable, in the order of the names.\<close>

definition Visit ::
  "(addr \<Rightarrow> ('t, 'v, 's) config_state \<Rightarrow> fault + ('t, 'v, 's) config_state)
   \<Rightarrow> ('t, 'v, 's) config_state \<Rightarrow> fault + ('t, 'v, 's) config_state" where
  "Visit cb cs = rfold (\<lambda>(name, a). cb a) (cs_datas cs) cs"

section \<open>Operations of a variable in the registry\<close>

definition var_addListener ::
  "addr \<Rightarrow> ('v, 's) on_change_cb \<Rightarrow> ('t, 'v, 's) config_state \<Rightarrow> fault + (u64 \<times> ('t, 'v, 's) config_state)" where
  "var_addListener a cb cs =
     (case hget (cs_vars cs) a of
        None \<Rightarrow> Inl Null_deref
      | Some cv \<Rightarrow>
          let (key, ctr, cv') = addListener cb (cs_func_id cs (cv_type cv)) cv
          in Inr (key, cs\<lparr>cs_vars := hset (cs_vars cs) a cv',
                          cs_func_id := (cs_func_id cs)(cv_type cv := ctr)\<rparr>))"

definition var_delListener :: "addr \<Rightarrow> u64 \<Rightarrow> ('t, 'v, 's) config_state \<Rightarrow> fault + ('t, 'v, 's) config_state" where
  "var_delListener a key cs =
     (case hget (cs_vars cs) a of
        None \<Rightarrow> Inl Null_deref
      | Some cv \<Rightarrow> Inr (cs\<lparr>cs_vars := hset (cs_vars cs) a (delListener key cv)\<rparr>))"

definition var_clearListener :: "addr \<Rightarrow> ('t, 'v, 's) config_state \<Rightarrow> fault + ('t, 'v, 's) config_state" where
  "var_clearListener a cs =
     (case hget (cs_vars cs) a of
        None \<Rightarrow> Inl Null_deref
      | Some cv \<Rightarrow> Inr (cs\<lparr>cs_vars := hset (cs_vars cs) a (clearListener cv)\<rparr>))"

definition var_toString ::
  "('t, 'v) codec \<Rightarrow> addr \<Rightarrow> ('t, 'v, 's) config_state \<Rightarrow> (fault + string) \<times> ('t, 'v, 's) config_state" where
  "var_toString cod a cs =
     (case hget (cs_vars cs) a of
        None \<Rightarrow> (Inl Null_deref, cs)
      | Some cv \<Rightarrow>
          (case toString cod cv of (r, lines) \<Rightarrow>
             ((case r of Inl e \<Rightarrow> Inl (Throws e) | Inr str \<Rightarrow> Inr str), cs\<lparr>cs_log := cs_log cs @ lines\<rparr>)))"

definition var_setValue ::
  "addr \<Rightarrow> 'v \<Rightarrow> ('t, 'v, 's) config_state \<Rightarrow> fault option \<times> ('t, 'v, 's) config_state" where
  "var_setValue a v cs =
     (case hget (cs_vars cs) a of
        None \<Rightarrow> (Some Null_deref, cs)
      | Some cv \<Rightarrow>
          (case setValue v cv (cs_ext cs) of (thrown, cv', s') \<Rightarrow>
             (map_option Throws thrown, cs\<lparr>cs_vars := hset (cs_vars cs) a cv', cs_ext := s'\<rparr>)))"

definition var_fromString ::
  "('t, 'v) codec \<Rightarrow> string \<Rightarrow> addr \<Rightarrow> ('t, 'v, 's) config_state \<Rightarrow> fault option \<times> ('t, 'v, 's) config_state" where
  "var_fromString cod val a cs =
     (case hget (cs_vars cs) a of
        None \<Rightarrow> (Some Null_deref, cs)
      | Some cv \<Rightarrow>
          (case fromString cod val cv (cs_ext cs) of (r, lines, cv', s') \<Rightarrow>
             ((case r of Inl e \<Rightarrow> Some (Throws e) | Inr _ \<Rightarrow> None),
              cs\<lparr>cs_vars := hset (cs_vars cs) a cv', cs_log := cs_log cs @ lines, cs_ext := s'\<rparr>)))"

section \<open>Loading a document\<close>

definition join_key :: "string \<Rightarrow> string \<Rightarrow> string" where
  "join_key prefix key = (if prefix = [] then key else prefix @ ''.'' @ key)"

text \<open>
  \<open>ListAllMember\<close>: the nodes of a document in preorder with their dotted names; a node
  whose name has another character is reported and left out with everything below it.
\<close>

fun ListAllMember :: "yaml_lib \<Rightarrow> string \<Rightarrow> ynode \<Rightarrow> (string \<times> ynode) list \<times> log_line list"
and ListPairs :: "yaml_lib \<Rightarrow> string \<Rightarrow> (ynode \<times> ynode) list \<Rightarrow> (string \<times> ynode) list \<times> log_line list" where
  "ListAllMember lib prefix node =
     (if find_first_not_of prefix name_alphabet \<noteq> None then
        ([], [(ERROR, ''Config invalid name: '' @ prefix @ '' : '' @ yl_emit lib node)])
      else
        (case node of
           YMap kvs \<Rightarrow>
             (case ListPairs lib prefix kvs of (out, lines) \<Rightarrow> ((prefix, node) # out, lines))
         | _ \<Rightarrow> ([(prefix, node)], [])))"
| "ListPairs lib prefix [] = ([], [])"
| "ListPairs lib prefix ((k, v) # kvs) =
     (case ListAllMember lib (join_key prefix (y_scalar k)) v of (o1, l1) \<Rightarrow>
        (case ListPairs lib prefix kvs of (o2, l2) \<Rightarrow> (o1 @ o2, l1 @ l2)))"

declare ListAllMember.simps [simp del]

text \<open>The text a node is given to \<open>fromString\<close> as.\<close>

definition node_text :: "yaml_lib \<Rightarrow> ynode \<Rightarrow> string" where
  "node_text lib n = (if y_is_scalar n then y_scalar n else yl_emit lib n)"

text \<open>One turn of the loop of \<open>LoadFromYaml\<close>, and the loop, which an exception leaves.\<close>

definition load_entry ::
  "('t, 'v) codec \<Rightarrow> yaml_lib \<Rightarrow> string \<times> ynode \<Rightarrow> ('t, 'v, 's) config_state
   \<Rightarrow> fault option \<times> ('t, 'v, 's) config_state" where
  "load_entry cod lib i cs =
     (let key = fst i in
      if key = [] then (None, cs)
      else (case LookupBase (map tolower key) cs of
              None \<Rightarrow> (None, cs)
            | Some var \<Rightarrow> var_fromString cod (node_text lib (snd i)) var cs))"

fun load_entries ::
  "('t, 'v) codec \<Rightarrow> yaml_lib \<Rightarrow> (string \<times> ynode) list \<Rightarrow> ('t, 'v, 's) config_state
   \<Rightarrow> fault option \<times> ('t, 'v, 's) config_state" where
  "load_entries cod lib [] cs = (None, cs)"
| "load_entries cod lib (i # is) cs =
     (case load_entry cod lib i cs of
        (Some e, cs') \<Rightarrow> (Some e, cs')
      | (None, cs') \<Rightarrow> load_entries cod lib is cs')"

definition LoadFromYaml ::
  "('t, 'v) codec \<Rightarrow> yaml_lib \<Rightarrow> ynode \<Rightarrow> ('t, 'v, 's) config_state
   \<Rightarrow> fault option \<times> ('t, 'v, 's) config_state" where
  "LoadFromYaml cod lib root cs =
     (case ListAllMember lib [] root of (all_nodes, lines) \<Rightarrow>
        load_entries cod lib all_nodes (cs\<lparr>cs_log := cs_log cs @ lines\<rparr>))"

end
