(* ===== verification/ConfigInvariants.thy ===== *)
theory ConfigInvariants
  imports ConfigRegistry
begin

text \<open>Correctness of the configuration registry: what a walk over a document visits, the
invariant of the table of variables under every operation of \<open>Config\<close>, what the two
\<open>Lookup\<close> functions return, and what \<open>LoadFromYaml\<close> leaves behind.\<close>

section \<open>The members of a document\<close>

text \<open>The node at the end of a path of map keys.\<close>

inductive y_at :: "ynode \<Rightarrow> string list \<Rightarrow> ynode \<Rightarrow> bool" where
  y_here: "y_at n [] n"
| y_below: "(a, b) \<in> set kvs \<Longrightarrow> y_at b path n \<Longrightarrow> y_at (YMap kvs) (y_scalar a # path) n"

inductive_simps y_at_map: "y_at (YMap kvs) path n"

definition valid_name :: "string \<Rightarrow> bool" where
  "valid_name s \<longleftrightarrow> set s \<subseteq> set name_alphabet"

lemma invalid_name_iff [simp]: "find_first_not_of s name_alphabet \<noteq> None \<longleftrightarrow> \<not> valid_name s"
  by (simp add: valid_name_def)

lemma join_key_prefix: "set p \<subseteq> set (join_key p k)"
  by (auto simp: join_key_def)

lemma foldl_join_prefix: "set p \<subseteq> set (foldl join_key p path)"
proof (induction path arbitrary: p)
  case (Cons k path)
  have "set p \<subseteq> set (join_key p k)" by (rule join_key_prefix)
  also have "\<dots> \<subseteq> set (foldl join_key (join_key p k) path)" by (rule Cons.IH)
  finally show ?case by simp
qed simp

lemma valid_name_prefix: "valid_name (foldl join_key p path) \<Longrightarrow> valid_name p"
  using foldl_join_prefix [of p path] by (auto simp: valid_name_def)

lemma ListAllMember_invalid: "\<not> valid_name p \<Longrightarrow> fst (ListAllMember lib p n) = []"
  by (subst ListAllMember.simps) (auto simp: valid_name_def)

lemma ListAllMember_map:
  "valid_name p \<Longrightarrow> fst (ListAllMember lib p (YMap kvs)) = (p, YMap kvs) # fst (ListPairs lib p kvs)"
  by (subst ListAllMember.simps) (auto simp: valid_name_def split: prod.splits)

lemma ListAllMember_leaf:
  "valid_name p \<Longrightarrow> \<not> (\<exists>kvs. n = YMap kvs) \<Longrightarrow> fst (ListAllMember lib p n) = [(p, n)]"
  by (subst ListAllMember.simps) (auto simp: valid_name_def split: ynode.splits)

lemma ListPairs_Cons:
  "fst (ListPairs lib p ((k, v) # kvs)) =
     fst (ListAllMember lib (join_key p (y_scalar k)) v) @ fst (ListPairs lib p kvs)"
  by (simp split: prod.splits)

lemma members_paths:
  "(k, n) \<in> set (fst (ListAllMember lib p m)) \<longleftrightarrow>
     valid_name k \<and> (\<exists>path. y_at m path n \<and> k = foldl join_key p path)"
  and pairs_paths:
  "valid_name p \<Longrightarrow> (k, n) \<in> set (fst (ListPairs lib p kvs)) \<longleftrightarrow>
     valid_name k \<and> (\<exists>a b path. (a, b) \<in> set kvs \<and> y_at b path n \<and>
        k = foldl join_key (join_key p (y_scalar a)) path)"
proof (induction lib p m and lib p kvs rule: ListAllMember_ListPairs.induct)
  case (1 lib p m)
  show ?case
  proof (cases "valid_name p")
    case False
    then show ?thesis using valid_name_prefix by (auto simp: ListAllMember_invalid)
  next
    case True
    show ?thesis
    proof (cases "\<exists>kvs. m = YMap kvs")
      case leaf: False
      then show ?thesis using True
        by (auto simp: ListAllMember_leaf intro: y_here elim: y_at.cases)
    next
      case map: True
      then obtain kvs where m: "m = YMap kvs" by blast
      have IH: "(k, n) \<in> set (fst (ListPairs lib p kvs)) \<longleftrightarrow>
         valid_name k \<and> (\<exists>a b path. (a, b) \<in> set kvs \<and> y_at b path n \<and>
            k = foldl join_key (join_key p (y_scalar a)) path)"
        using "1.IH" [of kvs] True m by (simp add: valid_name_def)
      have paths: "(\<exists>path. y_at m path n \<and> k = foldl join_key p path) \<longleftrightarrow>
         (k, n) = (p, m) \<or> (\<exists>a b path. (a, b) \<in> set kvs \<and> y_at b path n \<and>
            k = foldl join_key (join_key p (y_scalar a)) path)" (is "?L \<longleftrightarrow> ?R")
      proof
        assume ?L
        then obtain path where "y_at m path n" "k = foldl join_key p path" by blast
        then show ?R unfolding m y_at_map by fastforce
      next
        assume ?R
        then consider "k = p" "n = m"
          | a b path where "(a, b) \<in> set kvs" "y_at b path n" "k = foldl join_key (join_key p (y_scalar a)) path"
          by blast
        then show ?L
        proof cases
          case 1
          then show ?thesis by (intro exI [of _ "[]"]) (simp add: y_here)
        next
          case (2 a b path)
          then show ?thesis unfolding m
            by (intro exI [of _ "y_scalar a # path"]) (simp add: y_below)
        qed
      qed
      show ?thesis unfolding paths using True IH by (auto simp: m ListAllMember_map)
    qed
  qed
next
  case (2 lib p)
  then show ?case by simp
next
  case (3 lib p a b kvs)
  have IH: "(k, n) \<in> set (fst (ListPairs lib p kvs)) \<longleftrightarrow>
     valid_name k \<and> (\<exists>a b path. (a, b) \<in> set kvs \<and> y_at b path n \<and>
        k = foldl join_key (join_key p (y_scalar a)) path)"
    using "3.IH"(2) "3.prems" by (cases "ListAllMember lib (join_key p (y_scalar a)) b") simp
  show ?case unfolding ListPairs_Cons set_append Un_iff IH "3.IH"(1) by auto
qed

text \<open>C28. The members listed for a document are exactly the nodes reached by a path of map keys
  whose dotted name has no character outside the alphabet.\<close>

theorem ListAllMember_paths:
  "(k, n) \<in> set (fst (ListAllMember lib [] root)) \<longleftrightarrow>
     valid_name k \<and> (\<exists>path. y_at root path n \<and> k = foldl join_key [] path)"
  by (rule members_paths)


section \<open>The invariant of the registry\<close>

text \<open>
  Every entry of the table leads to a variable that carries the name it is registered under,
  and every registered name is made of the characters of the alphabet.
\<close>

definition registry_inv :: "('t, 'v, 's) config_state \<Rightarrow> bool" where
  "registry_inv cs \<longleftrightarrow> om_sorted (cs_datas cs) \<and>
     (\<forall>k a. om_find (cs_datas cs) k = Some a \<longrightarrow>
        a < length (cs_vars cs) \<and> cv_name (cs_vars cs ! a) = k \<and> valid_name k)"

text \<open>What no operation on a variable changes.\<close>

definition same_vars :: "('t, 'v, 's) config_state \<Rightarrow> ('t, 'v, 's) config_state \<Rightarrow> bool" where
  "same_vars cs cs' \<longleftrightarrow> cs_datas cs' = cs_datas cs \<and> cs_func_id cs' = cs_func_id cs \<and>
     length (cs_vars cs') = length (cs_vars cs) \<and>
     (\<forall>a < length (cs_vars cs). cv_name (cs_vars cs' ! a) = cv_name (cs_vars cs ! a) \<and>
        cv_type (cs_vars cs' ! a) = cv_type (cs_vars cs ! a) \<and>
        cv_description (cs_vars cs' ! a) = cv_description (cs_vars cs ! a) \<and>
        cv_cbs (cs_vars cs' ! a) = cv_cbs (cs_vars cs ! a))"

lemma same_vars_refl [simp]: "same_vars cs cs"
  by (simp add: same_vars_def)

lemma same_vars_trans: "same_vars a b \<Longrightarrow> same_vars b c \<Longrightarrow> same_vars a c"
  by (simp add: same_vars_def)

lemma registry_inv_same_vars: "same_vars cs cs' \<Longrightarrow> registry_inv cs \<Longrightarrow> registry_inv cs'"
  by (auto simp: registry_inv_def same_vars_def)

lemma setValue_fields:
  assumes "setValue v cv s = (e, cv', s')"
  shows "cv_name cv' = cv_name cv" "cv_type cv' = cv_type cv" "cv_description cv' = cv_description cv"
    "cv_cbs cv' = cv_cbs cv"
  using assms by (auto simp: setValue_def split: if_splits prod.splits option.splits)

lemma fromString_fields:
  assumes "fromString cod val cv s = (r, lines, cv', s')"
  shows "cv_name cv' = cv_name cv" "cv_type cv' = cv_type cv" "cv_description cv' = cv_description cv"
    "cv_cbs cv' = cv_cbs cv"
  using assms by (auto simp: fromString_def dest: setValue_fields
      split: sum.splits prod.splits option.splits exc.splits)

lemma same_vars_update:
  assumes "hget (cs_vars cs) a = Some cv" "cv_name cv' = cv_name cv" "cv_type cv' = cv_type cv"
    "cv_description cv' = cv_description cv" "cv_cbs cv' = cv_cbs cv"
    "cs_vars cs' = hset (cs_vars cs) a cv'" "cs_datas cs' = cs_datas cs" "cs_func_id cs' = cs_func_id cs"
  shows "same_vars cs cs'"
  using assms by (auto simp: same_vars_def hset_def hget_Some_iff nth_list_update)

lemma var_setValue_same: "same_vars cs (snd (var_setValue a v cs))"
proof (cases "hget (cs_vars cs) a")
  case None
  then show ?thesis by (simp add: var_setValue_def)
next
  case (Some cv)
  obtain e cv' s' where sv: "setValue v cv (cs_ext cs) = (e, cv', s')" by (rule prod_cases3)
  show ?thesis using Some sv setValue_fields [OF sv]
    by (auto simp: var_setValue_def intro: same_vars_update [where cv = cv and cv' = cv'])
qed

lemma var_fromString_same: "same_vars cs (snd (var_fromString cod s a cs))"
proof (cases "hget (cs_vars cs) a")
  case None
  then show ?thesis by (simp add: var_fromString_def)
next
  case (Some cv)
  obtain r lines cv' s' where fs: "fromString cod s cv (cs_ext cs) = (r, lines, cv', s')"
    by (rule prod_cases4)
  show ?thesis using Some fs fromString_fields [OF fs]
    by (auto simp: var_fromString_def intro: same_vars_update [where cv = cv and cv' = cv'])
qed

lemma load_entry_same: "same_vars cs (snd (load_entry cod lib i cs))"
  by (auto simp: load_entry_def Let_def var_fromString_same split: option.splits)

lemma load_entries_same: "same_vars cs (snd (load_entries cod lib is cs))"
proof (induction "is" arbitrary: cs)
  case Nil
  then show ?case by simp
next
  case (Cons i "is")
  have "same_vars cs (snd (load_entry cod lib i cs))" by (rule load_entry_same)
  then show ?case using Cons
    by (auto split: prod.splits option.splits) (metis same_vars_trans snd_conv)+
qed

lemma same_vars_log [simp]:
  "same_vars cs (cs'\<lparr>cs_log := l\<rparr>) = same_vars cs cs'" "same_vars (cs\<lparr>cs_log := l\<rparr>) cs' = same_vars cs cs'"
  by (simp_all add: same_vars_def)

lemma LoadFromYaml_same: "same_vars cs (snd (LoadFromYaml cod lib root cs))"
  using load_entries_same [of "cs\<lparr>cs_log := l\<rparr>" for l]
  by (auto simp: LoadFromYaml_def split: prod.splits)

lemma valid_char_tolower: "c \<in> set name_alphabet \<Longrightarrow> tolower c = c"
  by (auto simp: name_alphabet_def tolower_def)

lemma valid_name_tolower: "valid_name k \<Longrightarrow> map tolower k = k"
  by (simp add: valid_name_def map_idI subset_iff valid_char_tolower)

lemma registry_inv_log [simp]: "registry_inv (log_line l s cs) = registry_inv cs"
    "registry_inv (cs\<lparr>cs_log := ls\<rparr>) = registry_inv cs"
  by (simp_all add: registry_inv_def log_line_def)

lemma Lookup_new:
  "om_find (cs_datas cs) name = None \<Longrightarrow> valid_name name \<Longrightarrow>
   Lookup cod t name d descr cs = (Inr (Some (length (cs_vars cs))),
     cs\<lparr>cs_vars := cs_vars cs @ [mk_config_var t name d descr],
        cs_datas := om_set name (length (cs_vars cs)) (cs_datas cs)\<rparr>)"
  by (simp add: Lookup_def valid_name_def hfresh_def halloc_def Let_def)

lemma registry_inv_Lookup: "registry_inv cs \<Longrightarrow> registry_inv (snd (Lookup cod t name d descr cs))"
proof (cases "om_find (cs_datas cs) name = None \<and> valid_name name")
  case True
  assume "registry_inv cs"
  with True show ?thesis
    by (auto simp: Lookup_new registry_inv_def om_sorted_set om_find_set nth_append mk_config_var_def
        valid_name_tolower less_Suc_eq)
next
  case False
  assume "registry_inv cs"
  with False show ?thesis
    by (auto simp: Lookup_def valid_name_def Let_def split: option.splits prod.splits sum.splits)
qed

lemma registry_inv_addListener:
  "registry_inv cs \<Longrightarrow> var_addListener a cb cs = Inr (key, cs') \<Longrightarrow> registry_inv cs'"
  by (auto simp: var_addListener_def addListener_def Let_def registry_inv_def hset_def hget_Some_iff
      nth_list_update split: option.splits)

lemma registry_inv_listeners:
  "registry_inv cs \<Longrightarrow> var_delListener a key cs = Inr cs' \<Longrightarrow> registry_inv cs'"
  "registry_inv cs \<Longrightarrow> var_clearListener a cs = Inr cs' \<Longrightarrow> registry_inv cs'"
  by (auto simp: var_delListener_def delListener_def var_clearListener_def clearListener_def registry_inv_def hset_def
      hget_Some_iff nth_list_update split: option.splits)

lemma registry_inv_toString: "registry_inv cs \<Longrightarrow> registry_inv (snd (var_toString cod a cs))"
  by (auto simp: var_toString_def split: option.splits prod.splits)

text \<open>The states the interface can reach from the empty table, with any conversions, callbacks
  and documents.\<close>

inductive config_step :: "('t, 'v, 's) config_state \<Rightarrow> ('t, 'v, 's) config_state \<Rightarrow> bool" where
  step_Lookup: "config_step cs (snd (Lookup cod t name d descr cs))"
| step_setValue: "config_step cs (snd (var_setValue a v cs))"
| step_fromString: "config_step cs (snd (var_fromString cod s a cs))"
| step_addListener: "var_addListener a cb cs = Inr (key, cs') \<Longrightarrow> config_step cs cs'"
| step_delListener: "var_delListener a key cs = Inr cs' \<Longrightarrow> config_step cs cs'"
| step_clearListener: "var_clearListener a cs = Inr cs' \<Longrightarrow> config_step cs cs'"
| step_toString: "config_step cs (snd (var_toString cod a cs))"
| step_load: "config_step cs (snd (LoadFromYaml cod lib root cs))"
| step_ext: "config_step cs (cs\<lparr>cs_ext := s\<rparr>)"

inductive config_reachable :: "('t, 'v, 's) config_state \<Rightarrow> bool" where
  config_start: "cs_datas cs = [] \<Longrightarrow> config_reachable cs"
| config_next: "config_reachable cs \<Longrightarrow> config_step cs cs' \<Longrightarrow> config_reachable cs'"

lemma registry_inv_step: "config_step cs cs' \<Longrightarrow> registry_inv cs \<Longrightarrow> registry_inv cs'"
proof (induction rule: config_step.induct)
  case (step_ext cs s)
  then show ?case by (simp add: registry_inv_def)
qed (auto intro: registry_inv_Lookup registry_inv_addListener registry_inv_listeners registry_inv_toString
      registry_inv_same_vars var_setValue_same var_fromString_same LoadFromYaml_same)

lemma config_reachable_inv: "config_reachable cs \<Longrightarrow> registry_inv cs"
proof (induction rule: config_reachable.induct)
  case (config_start cs)
  then show ?case by (simp add: registry_inv_def)
next
  case (config_next cs cs')
  then show ?case by (blast intro: registry_inv_step)
qed

text \<open>In every reachable state the table leads each name to a variable of that name, and only
  to names made of the alphabet's characters.\<close>

theorem registry_invariant:
  assumes "config_reachable cs"
  shows "registry_inv cs"
  using assms by (rule config_reachable_inv)

section \<open>Lookup\<close>

text \<open>Creating a variable: a name of the alphabet that is not registered gets a new variable
  with the default value, found by every later lookup of its type; nothing else changes.\<close>

theorem Lookup_creates:
  assumes "config_reachable cs" "valid_name name" "LookupBase name cs = None"
    and "Lookup cod t name d descr cs = (r, cs')"
  shows "\<exists>a. r = Inr (Some a) \<and> hget (cs_vars cs) a = None \<and>
    hget (cs_vars cs') a = Some (mk_config_var t name d descr) \<and> LookupBase name cs' = Some a \<and>
    Lookup_existing t name cs' = Some a \<and> fst (Lookup cod t name d2 descr2 cs') = Inr (Some a) \<and>
    (\<forall>k. k \<noteq> name \<longrightarrow> LookupBase k cs' = LookupBase k cs) \<and>
    (\<forall>b cv. hget (cs_vars cs) b = Some cv \<longrightarrow> hget (cs_vars cs') b = Some cv)"
proof -
  have "om_find (cs_datas cs) name = None" using assms(3) by (simp add: LookupBase_def)
  from Lookup_new [OF this assms(2)] assms(4)
  have r: "r = Inr (Some (length (cs_vars cs)))" and cs': "cs' = cs\<lparr>cs_vars := cs_vars cs @ [mk_config_var t name d descr],
        cs_datas := om_set name (length (cs_vars cs)) (cs_datas cs)\<rparr>" by auto
  show ?thesis unfolding r cs'
    by (intro exI [of _ "length (cs_vars cs)"])
      (auto simp: LookupBase_def Lookup_existing_def Lookup_def om_find_set hget_def nth_append mk_config_var_def)
qed

text \<open>Looking up a registered variable changes nothing but the log: with the right type it is
  returned, with another type the null pointer is.\<close>

theorem Lookup_finds:
  assumes "config_reachable cs" "LookupBase name cs = Some a"
    and "\<And>ty v. c_to cod ty v \<noteq> Inl Other_exception"
  shows "\<exists>cv lines. hget (cs_vars cs) a = Some cv \<and> cv_name cv = name \<and>
    Lookup cod t name d descr cs =
      (Inr (if cv_type cv = t then Some a else None), cs\<lparr>cs_log := cs_log cs @ lines\<rparr>)"
proof -
  from config_reachable_inv [OF assms(1)] assms(2)
  have "a < length (cs_vars cs)" "cv_name (cs_vars cs ! a) = name"
    by (auto simp: registry_inv_def LookupBase_def)
  then show ?thesis using assms(2,3)
    by (auto simp: LookupBase_def Lookup_def hget_def log_line_def toString_def
        split: sum.splits exc.splits)
qed

text \<open>The alphabet lacks the digit nine: a name that contains it is rejected with an exception,
  although every other digit is accepted, and a document's members with such a name are left
  out.\<close>

theorem nine_is_rejected:
  assumes "config_reachable cs" "CHR ''9'' \<in> set name"
  shows "fst (Lookup cod t name d descr cs) = Inl (Throws (Std_exception name)) \<and>
    name \<notin> fst ` set (fst (ListAllMember lib [] root))"
proof -
  have inv: "\<not> valid_name name" using assms(2) by (auto simp: valid_name_def name_alphabet_def)
  then have "om_find (cs_datas cs) name = None"
    using config_reachable_inv [OF assms(1)] by (cases "om_find (cs_datas cs) name") (auto simp: registry_inv_def)
  then show ?thesis using inv members_paths [of name _ lib "[]" root]
    by (auto simp: Lookup_def valid_name_def)
qed


section \<open>Loading\<close>

definition calm_vars :: "('t, 'v, 's) config_state \<Rightarrow> bool" where
  "calm_vars cs \<longleftrightarrow> (\<forall>a < length (cs_vars cs). \<forall>cb\<in>snd ` set (cv_cbs (cs_vars cs ! a)). calm cb)"

definition std_codec :: "('t, 'v) codec \<Rightarrow> bool" where
  "std_codec cod \<longleftrightarrow> (\<forall>t s. c_from cod t s \<noteq> Inl Other_exception)"

text \<open>The value of a variable after one of its members has been read.\<close>

definition entry_value :: "('t, 'v) codec \<Rightarrow> yaml_lib \<Rightarrow> 't \<Rightarrow> ynode \<Rightarrow> 'v \<Rightarrow> 'v" where
  "entry_value cod lib t n old =
     (case c_from cod t (node_text lib n) of Inl _ \<Rightarrow> old | Inr v \<Rightarrow> v)"

lemma calm_vars_same: "same_vars cs cs' \<Longrightarrow> calm_vars cs \<Longrightarrow> calm_vars cs'"
  by (simp add: calm_vars_def same_vars_def)

lemma setValue_calm:
  assumes "\<forall>cb\<in>snd ` set (cv_cbs cv). calm cb"
  shows "\<exists>s'. setValue v cv s = (None, cv\<lparr>cv_val := v\<rparr>, s')"
  using run_cbs_calm [OF assms] by (auto simp: setValue_def)

lemma fromString_calm:
  assumes "\<forall>cb\<in>snd ` set (cv_cbs cv). calm cb" "std_codec cod"
  shows "\<exists>lines s'. fromString cod str cv s = (Inr True, lines,
    cv\<lparr>cv_val := (case c_from cod (cv_type cv) str of Inl _ \<Rightarrow> cv_val cv | Inr v \<Rightarrow> v)\<rparr>, s')"
proof (cases "c_from cod (cv_type cv) str")
  case (Inl e)
  then obtain what where "e = Std_exception what"
    using assms(2) by (cases e) (auto simp: std_codec_def)
  then show ?thesis using Inl by (simp add: fromString_def)
next
  case (Inr v)
  obtain s' where "setValue v cv s = (None, cv\<lparr>cv_val := v\<rparr>, s')"
    using setValue_calm [OF assms(1)] by blast
  then show ?thesis using Inr by (simp add: fromString_def)
qed

lemma var_fromString_calm:
  assumes "hget (cs_vars cs) a = Some cv" "calm_vars cs" "std_codec cod"
  shows "\<exists>cs'. var_fromString cod str a cs = (None, cs') \<and>
    hget (cs_vars cs') a = Some (cv\<lparr>cv_val := (case c_from cod (cv_type cv) str of Inl _ \<Rightarrow> cv_val cv | Inr v \<Rightarrow> v)\<rparr>) \<and>
    (\<forall>b. b \<noteq> a \<longrightarrow> hget (cs_vars cs') b = hget (cs_vars cs) b)"
proof -
  have a: "a < length (cs_vars cs)" using assms(1) by (simp add: hget_Some_iff)
  have "\<forall>cb\<in>snd ` set (cv_cbs cv). calm cb"
    using assms(1,2) by (auto simp: calm_vars_def hget_Some_iff)
  from fromString_calm [OF this assms(3)] obtain lines s' where
    "fromString cod str cv (cs_ext cs) = (Inr True, lines,
      cv\<lparr>cv_val := (case c_from cod (cv_type cv) str of Inl _ \<Rightarrow> cv_val cv | Inr v \<Rightarrow> v)\<rparr>, s')" by blast
  then show ?thesis using assms(1) a by (simp add: var_fromString_def hget_hset)
qed

lemma LookupBase_name:
  assumes "registry_inv cs" "LookupBase k cs = Some a"
  shows "hget (cs_vars cs) a = Some (cs_vars cs ! a)" "cv_name (cs_vars cs ! a) = k"
  using assms by (auto simp: registry_inv_def LookupBase_def hget_def)

lemma load_entry_value:
  assumes inv: "registry_inv cs" "calm_vars cs" "std_codec cod" and k: "valid_name (fst i)"
    and a: "LookupBase name cs = Some a" "name \<noteq> []" and cv: "hget (cs_vars cs) a = Some cv"
  shows "\<exists>cs'. load_entry cod lib i cs = (None, cs') \<and> hget (cs_vars cs') a =
    Some (if fst i = name then cv\<lparr>cv_val := entry_value cod lib (cv_type cv) (snd i) (cv_val cv)\<rparr> else cv)"
proof (cases "fst i = [] \<or> LookupBase (fst i) cs = None")
  case True
  then show ?thesis using a cv valid_name_tolower [OF k] by (auto simp: load_entry_def Let_def)
next
  case False
  then obtain b where b: "LookupBase (fst i) cs = Some b" "fst i \<noteq> []" by auto
  let ?cb = "cs_vars cs ! b"
  note nb = LookupBase_name [OF inv(1) b(1)] and na = LookupBase_name [OF inv(1) a(1)]
  from var_fromString_calm [OF nb(1) inv(2,3), of "node_text lib (snd i)"] obtain cs' where
    cs': "var_fromString cod (node_text lib (snd i)) b cs = (None, cs')"
      "hget (cs_vars cs') b = Some (?cb\<lparr>cv_val := entry_value cod lib (cv_type ?cb) (snd i) (cv_val ?cb)\<rparr>)"
      "\<forall>c. c \<noteq> b \<longrightarrow> hget (cs_vars cs') c = hget (cs_vars cs) c"
    by (auto simp: entry_value_def)
  have "load_entry cod lib i cs = (None, cs')"
    using b cs'(1) valid_name_tolower [OF k] by (simp add: load_entry_def)
  moreover have "fst i = name \<longleftrightarrow> a = b" using na(2) nb(2) a(1) b(1) by (metis option.inject)
  moreover have "a = b \<Longrightarrow> cv = ?cb" using cv by (simp add: hget_Some_iff)
  ultimately show ?thesis using cs'(2,3) cv by (cases "a = b") simp_all
qed

lemma load_entries_value:
  assumes "registry_inv cs" "calm_vars cs" "std_codec cod" "\<forall>i\<in>set is. valid_name (fst i)"
    and "LookupBase name cs = Some a" "name \<noteq> []" "hget (cs_vars cs) a = Some cv"
  shows "\<exists>cs'. load_entries cod lib is cs = (None, cs') \<and> hget (cs_vars cs') a =
    Some (cv\<lparr>cv_val := fold (\<lambda>i. entry_value cod lib (cv_type cv) (snd i)) (filter (\<lambda>i. fst i = name) is) (cv_val cv)\<rparr>)"
  using assms
proof (induction "is" arbitrary: cs cv)
  case Nil
  then show ?case by simp
next
  case (Cons i "is")
  let ?cv = "if fst i = name then cv\<lparr>cv_val := entry_value cod lib (cv_type cv) (snd i) (cv_val cv)\<rparr> else cv"
  from Cons.prems obtain cs1 where cs1: "load_entry cod lib i cs = (None, cs1)" "hget (cs_vars cs1) a = Some ?cv"
    using load_entry_value [of cs cod i name a cv lib] by auto
  have same: "same_vars cs cs1" using load_entry_same [of cs cod lib i] cs1(1) by simp
  have "LookupBase name cs1 = Some a" using same Cons.prems(5) by (simp add: same_vars_def LookupBase_def)
  with Cons.IH [OF registry_inv_same_vars [OF same] calm_vars_same [OF same]] Cons.prems cs1(2)
  obtain cs' where "load_entries cod lib is cs1 = (None, cs')" "hget (cs_vars cs') a =
    Some (?cv\<lparr>cv_val := fold (\<lambda>i. entry_value cod lib (cv_type ?cv) (snd i)) (filter (\<lambda>i. fst i = name) is) (cv_val ?cv)\<rparr>)"
    by auto
  then show ?case using cs1(1) by (cases "fst i = name") auto
qed

text \<open>C13. Loading a document gives every registered variable the value its members of the
  document convert to, read in document order; a member that does not convert leaves the
  value as it was.  No variable is created and nothing of a variable but its value changes.\<close>

theorem LoadFromYaml_values:
  assumes "config_reachable cs" "calm_vars cs" "std_codec cod"
    and "LookupBase name cs = Some a" "name \<noteq> []" "hget (cs_vars cs) a = Some cv"
  shows "\<exists>cs'. LoadFromYaml cod lib root cs = (None, cs') \<and> cs_datas cs' = cs_datas cs \<and>
    length (cs_vars cs') = length (cs_vars cs) \<and>
    hget (cs_vars cs') a = Some (cv\<lparr>cv_val :=
      fold (\<lambda>i. entry_value cod lib (cv_type cv) (snd i))
        (filter (\<lambda>i. fst i = name) (fst (ListAllMember lib [] root))) (cv_val cv)\<rparr>)"
proof -
  obtain nodes lines where l: "ListAllMember lib [] root = (nodes, lines)" by force
  let ?cs = "cs\<lparr>cs_log := cs_log cs @ lines\<rparr>"
  have inv: "registry_inv cs" by (rule config_reachable_inv [OF assms(1)])
  have valid: "\<forall>i\<in>set nodes. valid_name (fst i)"
    using members_paths [of _ _ lib "[]" root] l by auto
  have "registry_inv ?cs" "calm_vars ?cs" "LookupBase name ?cs = Some a" "hget (cs_vars ?cs) a = Some cv"
    using inv assms(2,4,6) by (simp_all add: calm_vars_def LookupBase_def)
  from load_entries_value [OF this(1,2) assms(3) valid this(3) assms(5) this(4), of lib]
  obtain cs' where "load_entries cod lib nodes ?cs = (None, cs')" "hget (cs_vars cs') a = Some (cv\<lparr>cv_val :=
      fold (\<lambda>i. entry_value cod lib (cv_type cv) (snd i)) (filter (\<lambda>i. fst i = name) nodes) (cv_val cv)\<rparr>)" by blast
  then show ?thesis
    using l LoadFromYaml_same [of cs cod lib root] by (auto simp: LoadFromYaml_def same_vars_def)
qed

section \<open>A registry for the witnesses\<close>

datatype demo_type = IntType | TextType

definition demo_codec :: "(demo_type, string) codec" where
  "demo_codec = \<lparr>c_from = (\<lambda>t s. if t = IntType \<and> s = ''bad'' then Inl (Std_exception ''bad cast'') else Inr s),
     c_to = (\<lambda>t v. Inr v), c_type_name = (\<lambda>t. case t of IntType \<Rightarrow> ''i'' | TextType \<Rightarrow> ''s'')\<rparr>"

definition empty_config :: "(demo_type, string, unit) config_state" where
  "empty_config = \<lparr>cs_datas = [], cs_vars = [], cs_func_id = (\<lambda>_. 0), cs_log = [], cs_ext = ()\<rparr>"

definition demo_config :: "(demo_type, string, unit) config_state" where
  "demo_config = snd (Lookup demo_codec IntType ''system.port'' ''8080'' ''port'' empty_config)"

lemma valid_system_port: "valid_name ''system.port''"
  by (simp add: valid_name_def name_alphabet_def)

lemma demo_config_eq:
  "demo_config = \<lparr>cs_datas = [(''system.port'', 0)],
     cs_vars = [mk_config_var IntType ''system.port'' ''8080'' ''port''],
     cs_func_id = (\<lambda>_. 0), cs_log = [], cs_ext = ()\<rparr>"
  by (simp add: demo_config_def Lookup_new valid_system_port empty_config_def)

lemma empty_config_reachable: "config_reachable empty_config"
  by (rule config_start) (simp add: empty_config_def)

lemma demo_config_reachable: "config_reachable demo_config"
  unfolding demo_config_def by (rule config_next [OF empty_config_reachable step_Lookup])

lemma demo_LookupBase: "LookupBase ''system.port'' demo_config = Some 0"
  by (simp add: LookupBase_def demo_config_eq)

theorem registry_invariant_witness: "registry_inv demo_config"
  by (rule registry_invariant [OF demo_config_reachable])

theorem Lookup_creates_witness:
  "\<exists>a. fst (Lookup demo_codec IntType ''system.port'' ''8080'' ''port'' empty_config) = Inr (Some a) \<and>
     LookupBase ''system.port'' (snd (Lookup demo_codec IntType ''system.port'' ''8080'' ''port'' empty_config)) = Some a"
proof -
  have "LookupBase ''system.port'' empty_config = None" by (simp add: LookupBase_def empty_config_def)
  from Lookup_creates [OF empty_config_reachable valid_system_port this surjective_pairing]
  show ?thesis by blast
qed

theorem Lookup_finds_witness:
  "fst (Lookup demo_codec TextType ''system.port'' [] [] demo_config) = Inr None"
proof -
  have "\<exists>cv lines. hget (cs_vars demo_config) 0 = Some cv \<and> cv_name cv = ''system.port'' \<and>
    Lookup demo_codec TextType ''system.port'' [] [] demo_config =
      (Inr (if cv_type cv = TextType then Some 0 else None), demo_config\<lparr>cs_log := cs_log demo_config @ lines\<rparr>)"
    by (rule Lookup_finds [OF demo_config_reachable demo_LookupBase]) (simp add: demo_codec_def)
  then show ?thesis by (auto simp: demo_config_eq hget_def mk_config_var_def)
qed

theorem nine_is_rejected_witness:
  "fst (Lookup demo_codec IntType ''port9'' [] [] empty_config) = Inl (Throws (Std_exception ''port9''))"
  using nine_is_rejected [OF empty_config_reachable, of "''port9''"] by simp

definition demo_doc :: ynode where
  "demo_doc = YMap [(YScalar ''system'', YMap [(YScalar ''port'', YScalar ''9900'')])]"

theorem LoadFromYaml_values_witness:
  "\<exists>cs'. LoadFromYaml demo_codec demo_lib demo_doc demo_config = (None, cs') \<and>
    map_option cv_val (hget (cs_vars cs') 0) = Some ''9900''"
proof -
  let ?cv = "mk_config_var IntType ''system.port'' ''8080'' ''port'' :: (demo_type, string, unit) config_var"
  have h: "hget (cs_vars demo_config) 0 = Some ?cv" by (simp add: demo_config_eq hget_def)
  have c: "calm_vars demo_config" by (simp add: calm_vars_def demo_config_eq mk_config_var_def)
  have s: "std_codec demo_codec" by (simp add: std_codec_def demo_codec_def)
  have n: "''system.port'' \<noteq> []" by simp
  have m: "fst (ListAllMember demo_lib [] demo_doc) =
     [([], demo_doc), (''system'', YMap [(YScalar ''port'', YScalar ''9900'')]), (''system.port'', YScalar ''9900'')]"
    by (simp add: demo_doc_def ListAllMember.simps join_key_def name_alphabet_def)
  show ?thesis
    using LoadFromYaml_values [OF demo_config_reachable c s demo_LookupBase n h, of demo_lib demo_doc]
    by (auto simp: m entry_value_def demo_codec_def node_text_def mk_config_var_def)
qed

end
