(* ===== verification/ConfigTypes.thy ===== *)
theory ConfigTypes
  imports ConfigInvariants
begin

text \<open>
  The types of configuration variables.  The table holds pointers to the base class, and a program
  gets a \<open>ConfigVar<T>::ptr\<close> from \<open>Lookup<T>\<close> only, through \<open>dynamic_pointer_cast\<close> (config.h).  Here a program is any
  sequence of operations through the pointers it has got so, with values of their types, and documents
  loaded in between; the types of the values are a parameter.
\<close>

section \<open>Programs and the pointers they hold\<close>

definition typed_codec :: "('t \<Rightarrow> 'v set) \<Rightarrow> ('t, 'v) codec \<Rightarrow> bool" where
  "typed_codec ty cod \<longleftrightarrow> (\<forall>t s v. c_from cod t s = Inr v \<longrightarrow> v \<in> ty t)"

definition got :: "'t \<Rightarrow> fault + addr option \<Rightarrow> ('t \<times> addr) list \<Rightarrow> ('t \<times> addr) list" where
  "got t r ps = (case r of Inr (Some a) \<Rightarrow> (t, a) # ps | _ \<Rightarrow> ps)"

inductive program_run ::
  "('t \<Rightarrow> 'v set) \<Rightarrow> ('t, 'v) codec \<Rightarrow> ('t \<times> addr) list \<Rightarrow> ('t, 'v, 's) config_state \<Rightarrow> bool" for ty cod where
  run_start: "cs_datas cs = [] \<Longrightarrow> cs_vars cs = [] \<Longrightarrow> program_run ty cod [] cs"
| run_Lookup: "program_run ty cod ps cs \<Longrightarrow> d \<in> ty t \<Longrightarrow> Lookup cod t name d descr cs = (r, cs') \<Longrightarrow>
     program_run ty cod (got t r ps) cs'"
| run_Lookup_existing: "program_run ty cod ps cs \<Longrightarrow> program_run ty cod (got t (Inr (Lookup_existing t name cs)) ps) cs"
| run_setValue: "program_run ty cod ps cs \<Longrightarrow> (t, a) \<in> set ps \<Longrightarrow> v \<in> ty t \<Longrightarrow> program_run ty cod ps (snd (var_setValue a v cs))"
| run_fromString: "program_run ty cod ps cs \<Longrightarrow> program_run ty cod ps (snd (var_fromString cod s a cs))"
| run_toString: "program_run ty cod ps cs \<Longrightarrow> program_run ty cod ps (snd (var_toString cod a cs))"
| run_addListener: "program_run ty cod ps cs \<Longrightarrow> var_addListener a cb cs = Inr (key, cs') \<Longrightarrow> program_run ty cod ps cs'"
| run_delListener: "program_run ty cod ps cs \<Longrightarrow> var_delListener a key cs = Inr cs' \<Longrightarrow> program_run ty cod ps cs'"
| run_clearListener: "program_run ty cod ps cs \<Longrightarrow> var_clearListener a cs = Inr cs' \<Longrightarrow> program_run ty cod ps cs'"
| run_load: "program_run ty cod ps cs \<Longrightarrow> program_run ty cod ps (snd (LoadFromYaml cod lib root cs))"
| run_ext: "program_run ty cod ps cs \<Longrightarrow> program_run ty cod ps (cs\<lparr>cs_ext := s\<rparr>)"

section \<open>Preservation\<close>

definition ptrs_held :: "('t \<times> addr) list \<Rightarrow> ('t, 'v, 's) config_state \<Rightarrow> bool" where
  "ptrs_held ps cs \<longleftrightarrow> (\<forall>(t, a)\<in>set ps. a < length (cs_vars cs) \<and> cv_type (cs_vars cs ! a) = t)"

definition vars_typed :: "('t \<Rightarrow> 'v set) \<Rightarrow> ('t, 'v, 's) config_state \<Rightarrow> bool" where
  "vars_typed ty cs \<longleftrightarrow> (\<forall>cv\<in>set (cs_vars cs). cv_val cv \<in> ty (cv_type cv))"

definition registered :: "('t, 'v, 's) config_state \<Rightarrow> bool" where
  "registered cs \<longleftrightarrow> (\<forall>a < length (cs_vars cs). om_find (cs_datas cs) (cv_name (cs_vars cs ! a)) = Some a)"

definition typed_inv :: "('t \<Rightarrow> 'v set) \<Rightarrow> ('t \<times> addr) list \<Rightarrow> ('t, 'v, 's) config_state \<Rightarrow> bool" where
  "typed_inv ty ps cs \<longleftrightarrow> registry_inv cs \<and> registered cs \<and> vars_typed ty cs \<and> ptrs_held ps cs"

text \<open>Changing one variable: its name and type stay, and its value is of its type.\<close>

lemma update_var:
  assumes "typed_inv ty ps cs" "hget (cs_vars cs) a = Some cv" "cs_vars cs' = hset (cs_vars cs) a cv'"
    "cs_datas cs' = cs_datas cs" "cv_name cv' = cv_name cv" "cv_type cv' = cv_type cv" "cv_val cv' \<in> ty (cv_type cv)"
  shows "typed_inv ty ps cs'"
proof -
  have a: "a < length (cs_vars cs)" "cs_vars cs ! a = cv" using assms(2) by (auto simp: hget_Some_iff)
  have v: "cs_vars cs' = (cs_vars cs)[a := cv']" using assms(3) by (simp add: hset_def)
  have same: "length (cs_vars cs') = length (cs_vars cs)" "cv_name (cs_vars cs' ! b) = cv_name (cs_vars cs ! b)"
    "cv_type (cs_vars cs' ! b) = cv_type (cs_vars cs ! b)" if "b < length (cs_vars cs)" for b
    using a that assms(5,6) by (auto simp: v nth_list_update)
  have "length (cs_vars cs') = length (cs_vars cs)" by (simp add: v)
  moreover have "vars_typed ty cs'" using assms(1,6,7) set_update_subset_insert [of "cs_vars cs" a cv']
    by (auto simp: typed_inv_def vars_typed_def v)
  ultimately show ?thesis using assms(1,4) same
    by (simp add: typed_inv_def registry_inv_def registered_def ptrs_held_def case_prod_beta)
qed

lemma log_only: "typed_inv ty ps cs \<Longrightarrow> typed_inv ty ps (cs\<lparr>cs_log := l\<rparr>)" "typed_inv ty ps cs \<Longrightarrow> typed_inv ty ps (cs\<lparr>cs_ext := s\<rparr>)"
  by (simp_all add: typed_inv_def registry_inv_def registered_def vars_typed_def ptrs_held_def)

lemma setValue_typed:
  "setValue v cv s = (e, cv', s') \<Longrightarrow> v \<in> ty (cv_type cv) \<Longrightarrow> cv_val cv \<in> ty (cv_type cv) \<Longrightarrow> cv_val cv' \<in> ty (cv_type cv)"
  by (auto simp: setValue_def split: if_splits prod.splits option.splits)

lemma fromString_typed:
  "fromString cod val cv s = (r, lines, cv', s') \<Longrightarrow> typed_codec ty cod \<Longrightarrow> cv_val cv \<in> ty (cv_type cv) \<Longrightarrow> cv_val cv' \<in> ty (cv_type cv)"
  by (auto simp: fromString_def typed_codec_def dest: setValue_typed split: sum.splits prod.splits option.splits exc.splits)

lemma inv_value: "typed_inv ty ps cs \<Longrightarrow> hget (cs_vars cs) a = Some cv \<Longrightarrow> cv_val cv \<in> ty (cv_type cv)"
  by (auto simp: typed_inv_def vars_typed_def hget_Some_iff)

lemma var_setValue_typed:
  assumes "typed_inv ty ps cs" "(t, a) \<in> set ps" "v \<in> ty t"
  shows "typed_inv ty ps (snd (var_setValue a v cs))"
proof (cases "hget (cs_vars cs) a")
  case (Some cv)
  have t: "cv_type cv = t" using assms(1,2) Some by (auto simp: typed_inv_def ptrs_held_def hget_Some_iff)
  obtain e cv' s' where sv: "setValue v cv (cs_ext cs) = (e, cv', s')" by (rule prod_cases3)
  show ?thesis
    by (rule update_var [OF assms(1) Some, of _ cv'])
      (use Some sv setValue_fields [OF sv] setValue_typed [OF sv] inv_value [OF assms(1) Some] assms(3) t in
        \<open>auto simp: var_setValue_def\<close>)
qed (use assms in \<open>simp add: var_setValue_def\<close>)

lemma var_fromString_typed:
  assumes "typed_inv ty ps cs" "typed_codec ty cod"
  shows "typed_inv ty ps (snd (var_fromString cod str a cs))"
proof (cases "hget (cs_vars cs) a")
  case (Some cv)
  obtain r lines cv' s' where fs: "fromString cod str cv (cs_ext cs) = (r, lines, cv', s')" by (rule prod_cases4)
  show ?thesis
    by (rule update_var [OF assms(1) Some, of _ cv'])
      (use Some fs fromString_fields [OF fs] fromString_typed [OF fs assms(2)] inv_value [OF assms(1) Some] in
        \<open>auto simp: var_fromString_def\<close>)
qed (use assms in \<open>simp add: var_fromString_def\<close>)

lemma load_entries_typed:
  "typed_codec ty cod \<Longrightarrow> typed_inv ty ps cs \<Longrightarrow> typed_inv ty ps (snd (load_entries cod lib is cs))"
proof (induction "is" arbitrary: cs)
  case (Cons i "is")
  have "typed_inv ty ps (snd (load_entry cod lib i cs))"
    using var_fromString_typed [OF Cons.prems(2,1)] Cons.prems(2) by (simp add: load_entry_def Let_def split: option.split)
  then show ?case using Cons.IH [OF Cons.prems(1)]
    by (cases "load_entry cod lib i cs") (simp split: option.split)
qed simp

lemma LoadFromYaml_typed:
  "typed_codec ty cod \<Longrightarrow> typed_inv ty ps cs \<Longrightarrow> typed_inv ty ps (snd (LoadFromYaml cod lib root cs))"
  using load_entries_typed log_only(1) by (fastforce simp: LoadFromYaml_def split: prod.split)

lemma Lookup_typed:
  assumes "typed_inv ty ps cs" "d \<in> ty t" "Lookup cod t name d descr cs = (r, cs')"
  shows "typed_inv ty (got t r ps) cs'"
proof (cases "om_find (cs_datas cs) name = None \<and> valid_name name")
  case True
  have r: "r = Inr (Some (length (cs_vars cs)))" "cs' = cs\<lparr>cs_vars := cs_vars cs @ [mk_config_var t name d descr],
        cs_datas := om_set name (length (cs_vars cs)) (cs_datas cs)\<rparr>"
    using Lookup_new [of cs name cod t d descr] True assms(3) by auto
  have inv: "registry_inv cs" "registered cs" "vars_typed ty cs" "ptrs_held ps cs" using assms(1) by (simp_all add: typed_inv_def)
  have "registry_inv cs'" using registry_inv_Lookup [OF inv(1)] assms(3) by (metis snd_conv)
  moreover have "registered cs'" using inv True
    by (auto simp: r registered_def om_find_set nth_append mk_config_var_def valid_name_tolower registry_inv_def less_Suc_eq)
  moreover have "vars_typed ty cs'" using inv(3) assms(2) by (auto simp: r vars_typed_def mk_config_var_def)
  moreover have "ptrs_held (got t r ps) cs'" using inv(4) by (auto simp: r ptrs_held_def got_def nth_append mk_config_var_def)
  ultimately show ?thesis by (simp add: typed_inv_def)
next
  case False
  then have "typed_inv ty ps cs'" using assms(1,3) log_only(1) [OF assms(1)]
    by (auto simp: Lookup_def log_line_def valid_name_def split: option.splits sum.splits prod.splits if_splits)
  moreover have "\<exists>cv. hget (cs_vars cs') a = Some cv \<and> cv_type cv = t" if "r = Inr (Some a)" for a
    using assms(3) that False
    by (auto simp: Lookup_def log_line_def valid_name_def split: option.splits sum.splits prod.splits if_splits)
  ultimately show ?thesis by (auto simp: typed_inv_def ptrs_held_def got_def hget_Some_iff split: sum.split option.split)
qed

lemma Lookup_existing_typed:
  "typed_inv ty ps cs \<Longrightarrow> typed_inv ty (got t (Inr (Lookup_existing t name cs)) ps) cs"
  by (auto simp: typed_inv_def ptrs_held_def got_def Lookup_existing_def hget_Some_iff split: option.splits)

lemma listeners_typed:
  "typed_inv ty ps cs \<Longrightarrow> var_addListener a cb cs = Inr (key, cs') \<Longrightarrow> typed_inv ty ps cs'"
  "typed_inv ty ps cs \<Longrightarrow> var_delListener a key cs = Inr cs' \<Longrightarrow> typed_inv ty ps cs'"
  "typed_inv ty ps cs \<Longrightarrow> var_clearListener a cs = Inr cs' \<Longrightarrow> typed_inv ty ps cs'"
  by (auto simp: var_addListener_def addListener_def var_delListener_def delListener_def var_clearListener_def
      clearListener_def Let_def inv_value split: option.splits intro: update_var)

lemma program_run_inv: "program_run ty cod ps cs \<Longrightarrow> typed_codec ty cod \<Longrightarrow> typed_inv ty ps cs"
proof (induction rule: program_run.induct)
  case (run_start cs)
  then show ?case by (simp add: typed_inv_def registry_inv_def registered_def vars_typed_def ptrs_held_def)
next
  case (run_toString ps cs a)
  then show ?case using log_only(1) by (auto simp: var_toString_def split: option.split prod.split)
qed (blast intro: Lookup_typed Lookup_existing_typed var_setValue_typed var_fromString_typed listeners_typed
      LoadFromYaml_typed log_only(2))+

section \<open>Progress\<close>

lemma var_fromString_no_null: "hget (cs_vars cs) a = Some cv \<Longrightarrow> fst (var_fromString cod str a cs) \<noteq> Some Null_deref"
  by (auto simp: var_fromString_def split: prod.splits sum.splits)

lemma load_entry_no_null: "registry_inv cs \<Longrightarrow> fst (load_entry cod lib i cs) \<noteq> Some Null_deref"
  by (auto simp: load_entry_def Let_def dest: var_fromString_no_null [OF LookupBase_name(1), THEN notE] split: option.splits)

lemma load_entries_no_null: "registry_inv cs \<Longrightarrow> fst (load_entries cod lib is cs) \<noteq> Some Null_deref"
proof (induction "is" arbitrary: cs)
  case (Cons i "is")
  have "registry_inv (snd (load_entry cod lib i cs))"
    using Cons.prems load_entry_same registry_inv_same_vars by blast
  then show ?case using Cons.IH load_entry_no_null [OF Cons.prems, of cod lib i]
    by (cases "load_entry cod lib i cs") (auto split: option.split)
qed simp

lemma LoadFromYaml_no_null: "registry_inv cs \<Longrightarrow> fst (LoadFromYaml cod lib root cs) \<noteq> Some Null_deref"
  by (simp add: LoadFromYaml_def load_entries_no_null split: prod.split)

lemma Lookup_no_null: "registry_inv cs \<Longrightarrow> fst (Lookup cod t name d descr cs) \<noteq> Inl Null_deref"
  by (auto simp: Lookup_def Let_def registry_inv_def hget_def split: option.splits sum.splits prod.splits)

lemma var_setValue_no_null: "hget (cs_vars cs) a = Some cv \<Longrightarrow> fst (var_setValue a v cs) \<noteq> Some Null_deref"
  by (auto simp: var_setValue_def split: prod.splits)

text \<open>C21. Types are sound although the table forgets them: in any program, with the values and the
  conversions of each type typed, a pointer got from \<open>Lookup<T>\<close> points to a variable of type \<open>T\<close> for ever, its value
  is a \<open>T\<close>, and \<open>Lookup<T>\<close> of its name gives that pointer again and no other type a pointer; and no operation goes
  through a null pointer.\<close>

theorem typed_program:
  assumes "typed_codec ty cod" "program_run ty cod ps cs"
  shows "(\<forall>t a. (t, a) \<in> set ps \<longrightarrow> (\<exists>cv. hget (cs_vars cs) a = Some cv \<and> cv_type cv = t \<and> getValue cv \<in> ty t \<and>
       (\<forall>u. Lookup_existing u (cv_name cv) cs = (if u = t then Some a else None))) \<and>
       (\<forall>v. fst (var_setValue a v cs) \<noteq> Some Null_deref)) \<and>
    (\<forall>t name d descr. fst (Lookup cod t name d descr cs) \<noteq> Inl Null_deref) \<and>
    (\<forall>lib root. fst (LoadFromYaml cod lib root cs) \<noteq> Some Null_deref)"
proof -
  have inv: "typed_inv ty ps cs" by (rule program_run_inv [OF assms(2,1)])
  have ptr: "(\<exists>cv. hget (cs_vars cs) a = Some cv \<and> cv_type cv = t \<and> getValue cv \<in> ty t \<and>
       (\<forall>u. Lookup_existing u (cv_name cv) cs = (if u = t then Some a else None))) \<and>
       (\<forall>v. fst (var_setValue a v cs) \<noteq> Some Null_deref)" if p: "(t, a) \<in> set ps" for t a
  proof -
    have a: "hget (cs_vars cs) a = Some (cs_vars cs ! a)" "cv_type (cs_vars cs ! a) = t" "a < length (cs_vars cs)"
      using inv p by (auto simp: typed_inv_def ptrs_held_def hget_def)
    have "om_find (cs_datas cs) (cv_name (cs_vars cs ! a)) = Some a"
      using inv a(3) by (simp add: typed_inv_def registered_def)
    then show ?thesis using a inv_value [OF inv a(1)] var_setValue_no_null [OF a(1)]
      by (simp add: Lookup_existing_def getValue_def)
  qed
  have "registry_inv cs" using inv by (simp add: typed_inv_def)
  note null = Lookup_no_null [OF this] LoadFromYaml_no_null [OF this]
  show ?thesis by (intro conjI [OF _ conjI] allI impI) (erule ptr, (rule null)+)
qed

text \<open>Two variables of the demonstration types, where numbers are texts of digits.\<close>

definition digits_codec :: "(demo_type, string) codec" where
  "digits_codec = demo_codec\<lparr>c_from := (\<lambda>t s. if t = IntType \<and> \<not> set s \<subseteq> set ''0123456789'' then Inl (Std_exception ''bad cast'') else Inr s)\<rparr>"

definition digits :: "demo_type \<Rightarrow> string set" where
  "digits t = (if t = IntType then {s. set s \<subseteq> set ''0123456789''} else UNIV)"

theorem typed_program_witness:
  "\<exists>cs :: (demo_type, string, unit) config_state. program_run digits digits_codec [(IntType, 0)] cs \<and> LookupBase ''port'' cs = Some 0 \<and>
     (\<exists>cv. hget (cs_vars cs) 0 = Some cv \<and> set (getValue cv) \<subseteq> set ''0123456789'')"
proof -
  let ?cs = "snd (Lookup digits_codec IntType ''port'' ''80'' [] empty_config)"
  have name: "valid_name ''port''" by (simp add: valid_name_def name_alphabet_def)
  have cs: "Lookup digits_codec IntType ''port'' ''80'' [] empty_config = (Inr (Some 0), ?cs)" "LookupBase ''port'' ?cs = Some 0"
    by (simp_all add: Lookup_new name empty_config_def LookupBase_def)
  have codec: "typed_codec digits digits_codec" by (auto simp: typed_codec_def digits_def digits_codec_def)
  have run: "program_run digits digits_codec (got IntType (Inr (Some 0)) []) ?cs"
    by (rule run_Lookup [OF run_start _ cs(1)]) (simp_all add: empty_config_def digits_def)
  have got: "got IntType (Inr (Some 0)) [] = [(IntType, 0)]" by (simp add: got_def)
  have "\<exists>cv. hget (cs_vars ?cs) 0 = Some cv \<and> getValue cv \<in> digits IntType"
    using typed_program [OF codec run] unfolding got by fastforce
  then have "\<exists>cv. hget (cs_vars ?cs) 0 = Some cv \<and> set (getValue cv) \<subseteq> set ''0123456789''" by (simp only: digits_def simp_thms if_True mem_Collect_eq)
  then show ?thesis using run [unfolded got] cs(2) by (intro exI [of _ ?cs] conjI)
qed

end
