(* ===== verification/ConfigConcurrency.thy ===== *)
theory ConfigConcurrency
  imports ConfigVars
begin

text \<open>
  A configuration variable used by several threads (\<open>ConfigVar<T>\<close> of config.h).  \<open>setValue\<close> compares
  the value and runs the callbacks while it holds the variable's lock for reading, gives the
  lock back, and takes it again for writing to store the value; \<open>getValue\<close> and \<open>getListener\<close> read, and
  the operations on the listeners write.  The steps of the threads interleave; the callbacks are
  the recorded calls \<open>i.second(m_val, v)\<close>.
\<close>

section \<open>The variable and its threads\<close>

text \<open>The calls.  A callback is given by a number.  \<open>toString\<close> reads like \<open>getValue\<close>.\<close>

datatype 'v var_call = SetValue 'v | GetValue | AddListener nat | DelListener u64 | ClearListener | GetListener u64

text \<open>
  Where a thread stands: before it takes the lock, and inside.  A thread that has given the
  lock back between the callbacks and the store keeps the callbacks it has told.
\<close>

datatype 'v var_pc =
    V_idle
  | V_set 'v
  | V_compare 'v
  | V_calling 'v nat
  | V_wait 'v "nat list"
  | V_store 'v "nat list"
  | V_get
  | V_copy
  | V_write "'v var_call"
  | V_writing "'v var_call"
  | V_find u64
  | V_finding u64

fun entry_pc :: "'v var_call \<Rightarrow> 'v var_pc" where
  "entry_pc (SetValue v) = V_set v"
| "entry_pc GetValue = V_get"
| "entry_pc (GetListener key) = V_find key"
| "entry_pc c = V_write c"

text \<open>
  \<open>m_val\<close>; \<open>m_cbs\<close>; the counter \<open>s_func_id\<close> of \<open>addListener\<close>; who holds \<open>m_mutex\<close> for reading and
  for writing; the calls of callbacks so far, as thread, callback, old value, new value; the
  values \<open>getValue\<close> returned, the callbacks \<open>getListener\<close> found and the keys
  \<open>addListener\<close> returned, each with its thread.
\<close>

record 'v shared_var =
  sv_val :: 'v
  sv_cbs :: "(u64, nat) omap"
  sv_func_id :: u64
  sv_readers :: "nat set"
  sv_writer :: "nat option"
  sv_pc :: "nat \<Rightarrow> 'v var_pc"
  sv_calls :: "(nat \<times> nat \<times> 'v \<times> 'v) list"
  sv_got :: "(nat \<times> 'v) list"
  sv_found :: "(nat \<times> nat option) list"
  sv_keys :: "(nat \<times> u64) list"

definition var_at :: "nat \<Rightarrow> 'v var_pc \<Rightarrow> 'v shared_var \<Rightarrow> 'v shared_var" where
  "var_at t pc s = s\<lparr>sv_pc := (sv_pc s)(t := pc)\<rparr>"

definition listeners :: "'v shared_var \<Rightarrow> nat list" where
  "listeners s = map snd (sv_cbs s)"

definition rd_lock :: "nat \<Rightarrow> 'v shared_var \<Rightarrow> 'v shared_var option" where
  "rd_lock t s = (if sv_writer s = None then Some (s\<lparr>sv_readers := insert t (sv_readers s)\<rparr>) else None)"

definition rd_unlock :: "nat \<Rightarrow> 'v shared_var \<Rightarrow> 'v shared_var" where
  "rd_unlock t s = s\<lparr>sv_readers := sv_readers s - {t}\<rparr>"

definition wr_lock :: "nat \<Rightarrow> 'v shared_var \<Rightarrow> 'v shared_var option" where
  "wr_lock t s = (if sv_writer s = None \<and> sv_readers s = {} then Some (s\<lparr>sv_writer := Some t\<rparr>) else None)"

definition wr_unlock :: "'v shared_var \<Rightarrow> 'v shared_var" where
  "wr_unlock s = s\<lparr>sv_writer := None\<rparr>"

text \<open>What the operations on the listeners do under the lock.\<close>

fun write_listeners :: "nat \<Rightarrow> 'v var_call \<Rightarrow> 'v shared_var \<Rightarrow> 'v shared_var" where
  "write_listeners t (AddListener cb) s =
     (let i = sv_func_id s + 1 in s\<lparr>sv_func_id := i, sv_cbs := om_set i cb (sv_cbs s), sv_keys := sv_keys s @ [(t, i)]\<rparr>)"
| "write_listeners t (DelListener key) s = s\<lparr>sv_cbs := om_erase key (sv_cbs s)\<rparr>"
| "write_listeners t ClearListener s = s\<lparr>sv_cbs := []\<rparr>"
| "write_listeners t c s = s"

text \<open>One step of thread \<open>t\<close> inside a call; \<open>None\<close> is a thread that waits for the lock or is outside.\<close>

definition var_step :: "nat \<Rightarrow> 'v shared_var \<Rightarrow> 'v shared_var option" where
  "var_step t s =
     (case sv_pc s t of
        V_idle \<Rightarrow> None
      | V_set v \<Rightarrow> map_option (var_at t (V_compare v)) (rd_lock t s)
      | V_compare v \<Rightarrow>
          Some (if v = sv_val s then var_at t V_idle (rd_unlock t s) else var_at t (V_calling v 0) s)
      | V_calling v k \<Rightarrow>
          Some (if k < length (sv_cbs s)
                then var_at t (V_calling v (Suc k)) (s\<lparr>sv_calls := sv_calls s @ [(t, listeners s ! k, sv_val s, v)]\<rparr>)
                else var_at t (V_wait v (listeners s)) (rd_unlock t s))
      | V_wait v cbs \<Rightarrow> map_option (var_at t (V_store v cbs)) (wr_lock t s)
      | V_store v cbs \<Rightarrow> Some (var_at t V_idle (wr_unlock (s\<lparr>sv_val := v\<rparr>)))
      | V_get \<Rightarrow> map_option (var_at t V_copy) (rd_lock t s)
      | V_copy \<Rightarrow> Some (var_at t V_idle (rd_unlock t (s\<lparr>sv_got := sv_got s @ [(t, sv_val s)]\<rparr>)))
      | V_write c \<Rightarrow> map_option (var_at t (V_writing c)) (wr_lock t s)
      | V_writing c \<Rightarrow> Some (var_at t V_idle (wr_unlock (write_listeners t c s)))
      | V_find key \<Rightarrow> map_option (var_at t (V_finding key)) (rd_lock t s)
      | V_finding key \<Rightarrow> Some (var_at t V_idle (rd_unlock t (s\<lparr>sv_found := sv_found s @ [(t, om_find (sv_cbs s) key)]\<rparr>))))"

definition new_var :: "'v \<Rightarrow> (u64, nat) omap \<Rightarrow> u64 \<Rightarrow> 'v shared_var" where
  "new_var v cbs i = \<lparr>sv_val = v, sv_cbs = cbs, sv_func_id = i, sv_readers = {}, sv_writer = None, sv_pc = (\<lambda>_. V_idle),
     sv_calls = [], sv_got = [], sv_found = [], sv_keys = []\<rparr>"

inductive var_move :: "'v shared_var \<Rightarrow> 'v shared_var \<Rightarrow> bool" where
  move_call: "sv_pc s t = V_idle \<Longrightarrow> var_move s (var_at t (entry_pc c) s)"
| move_step: "var_step t s = Some s' \<Longrightarrow> var_move s s'"

inductive var_reach :: "'v shared_var \<Rightarrow> 'v shared_var \<Rightarrow> bool" for s0 where
  var_start: "var_reach s0 s0"
| var_next: "var_reach s0 s \<Longrightarrow> var_move s s' \<Longrightarrow> var_reach s0 s'"

section \<open>The invariant\<close>

fun reading :: "'v var_pc \<Rightarrow> bool" where
  "reading (V_compare v) = True"
| "reading (V_calling v k) = True"
| "reading V_copy = True"
| "reading (V_finding key) = True"
| "reading _ = False"

fun storing :: "'v var_pc \<Rightarrow> bool" where
  "storing (V_store v cbs) = True"
| "storing (V_writing c) = True"
| "storing _ = False"

text \<open>The lock is held by exactly the threads that are in its sections.\<close>

definition lock_inv :: "'v shared_var \<Rightarrow> bool" where
  "lock_inv s \<longleftrightarrow> sv_readers s = {t. reading (sv_pc s t)} \<and>
     (\<forall>t. storing (sv_pc s t) \<longleftrightarrow> sv_writer s = Some t) \<and> (sv_writer s \<noteq> None \<longrightarrow> sv_readers s = {})"

definition calls_of :: "nat \<Rightarrow> 'v shared_var \<Rightarrow> (nat \<times> nat \<times> 'v \<times> 'v) list" where
  "calls_of t s = filter (\<lambda>c. fst c = t) (sv_calls s)"

definition round :: "nat \<Rightarrow> nat list \<Rightarrow> 'v \<Rightarrow> 'v \<Rightarrow> (nat \<times> nat \<times> 'v \<times> 'v) list" where
  "round t cbs old new = map (\<lambda>cb. (t, cb, old, new)) cbs"

text \<open>What a thread that is setting \<open>v\<close> has told the callbacks so far.\<close>

fun told :: "nat \<Rightarrow> 'v shared_var \<Rightarrow> 'v var_pc \<Rightarrow> bool" where
  "told t s (V_calling v k) \<longleftrightarrow> v \<noteq> sv_val s \<and> k \<le> length (sv_cbs s) \<and>
     (\<exists>pre. calls_of t s = pre @ round t (take k (listeners s)) (sv_val s) v)"
| "told t s (V_wait v cbs) \<longleftrightarrow> (\<exists>pre old. old \<noteq> v \<and> calls_of t s = pre @ round t cbs old v)"
| "told t s (V_store v cbs) \<longleftrightarrow> (\<exists>pre old. old \<noteq> v \<and> calls_of t s = pre @ round t cbs old v)"
| "told t s _ \<longleftrightarrow> True"

definition told_inv :: "'v shared_var \<Rightarrow> bool" where
  "told_inv s \<longleftrightarrow> (\<forall>t. told t s (sv_pc s t))"

lemma round_simps [simp]: "round t [] old new = []" "round t (cbs @ [cb]) old new = round t cbs old new @ [(t, cb, old, new)]"
  by (simp_all add: round_def)

lemma listeners_length [simp]: "length (listeners s) = length (sv_cbs s)"
  by (simp add: listeners_def)

lemma lock_inv_start: "lock_inv (new_var v cbs i)"
  by (simp add: lock_inv_def new_var_def)

lemma told_inv_start: "told_inv (new_var v cbs i)"
  by (simp add: told_inv_def new_var_def)

lemma var_at_simps [simp]:
  "sv_pc (var_at t pc s) u = (if u = t then pc else sv_pc s u)" "sv_val (var_at t pc s) = sv_val s"
  "sv_readers (var_at t pc s) = sv_readers s" "sv_writer (var_at t pc s) = sv_writer s" "calls_of u (var_at t pc s) = calls_of u s"
  "sv_got (var_at t pc s) = sv_got s" "sv_calls (var_at t pc s) = sv_calls s" "sv_cbs (var_at t pc s) = sv_cbs s"
  "sv_func_id (var_at t pc s) = sv_func_id s" "listeners (var_at t pc s) = listeners s"
  by (simp_all add: var_at_def calls_of_def listeners_def)

lemma write_simps [simp]:
  "sv_pc (write_listeners t c s) = sv_pc s" "sv_val (write_listeners t c s) = sv_val s" "sv_readers (write_listeners t c s) = sv_readers s"
  "sv_writer (write_listeners t c s) = sv_writer s" "sv_calls (write_listeners t c s) = sv_calls s"
  by (cases c; simp add: Let_def)+

lemmas var_updates = var_step_def rd_lock_def rd_unlock_def wr_lock_def wr_unlock_def

lemma lock_invD:
  assumes "lock_inv s"
  shows "t \<in> sv_readers s \<longleftrightarrow> reading (sv_pc s t)" "sv_writer s = Some t \<longleftrightarrow> storing (sv_pc s t)"
    "storing (sv_pc s u) \<Longrightarrow> \<not> reading (sv_pc s t)"
    "sv_writer s = None \<Longrightarrow> \<not> storing (sv_pc s t)" "sv_readers s = {} \<Longrightarrow> \<not> reading (sv_pc s t)"
    "storing (sv_pc s t) \<Longrightarrow> storing (sv_pc s u) \<Longrightarrow> t = u"
  using assms by (auto simp: lock_inv_def)

lemma lock_invI:
  assumes "\<And>t. t \<in> sv_readers s \<longleftrightarrow> reading (sv_pc s t)" "\<And>t. sv_writer s = Some t \<longleftrightarrow> storing (sv_pc s t)"
    "\<And>t u. storing (sv_pc s u) \<Longrightarrow> \<not> reading (sv_pc s t)"
  shows "lock_inv s"
  unfolding lock_inv_def using assms by blast

lemma entry_outside [simp]: "\<not> reading (entry_pc c)" "\<not> storing (entry_pc c)" "told t s (entry_pc c)"
  by (cases c; simp)+

lemma lock_inv_move: "var_move s s' \<Longrightarrow> lock_inv s \<Longrightarrow> lock_inv s'"
proof (induction rule: var_move.induct)
  case (move_call s t c)
  note inv = lock_invD [OF move_call(2)]
  show ?case by (rule lock_invI) (auto simp: inv(1,2) move_call(1) dest: inv(3) split: if_splits)
next
  case (move_step t s s')
  note inv = lock_invD [OF move_step(2)]
  have excl: "storing (sv_pc s u) \<Longrightarrow> reading (sv_pc s v) \<Longrightarrow> False" for u v using inv(3) by blast
  have t: "reading (sv_pc s t) \<Longrightarrow> storing (sv_pc s u) \<Longrightarrow> False" for u using excl by blast
  show ?case
    by (rule lock_invI; insert move_step(1); cases "sv_pc s t")
      (auto simp: inv(1,2) var_updates split: if_splits;
        metis excl inv(4-6) reading.simps storing.simps)+
qed

text \<open>What a thread has told stays true while others work: they store nothing while it calls.\<close>

lemma told_cong:
  assumes "told t s pc" "calls_of t s' = calls_of t s" "reading pc \<Longrightarrow> sv_val s' = sv_val s \<and> sv_cbs s' = sv_cbs s"
  shows "told t s' pc"
  using assms by (cases pc) (auto simp: listeners_def)

lemma var_step_others:
  assumes "var_step t s = Some s'" "u \<noteq> t"
  shows "sv_pc s' u = sv_pc s u" "calls_of u s' = calls_of u s"
  using assms by (cases "sv_pc s t"; auto simp: var_updates calls_of_def split: if_splits)+

lemma var_step_stores:
  assumes "var_step t s = Some s'"
  shows "sv_val s' = sv_val s \<and> sv_cbs s' = sv_cbs s \<or> storing (sv_pc s t)"
  using assms by (cases "sv_pc s t") (auto simp: var_updates split: if_splits)

lemma told_own:
  assumes "var_step t s = Some s'" "told t s (sv_pc s t)"
  shows "told t s' (sv_pc s' t)"
proof (cases "sv_pc s t")
  case (V_calling v k)
  show ?thesis
  proof (cases "k < length (sv_cbs s)")
    case True
    then show ?thesis using assms V_calling
      by (auto simp: var_updates calls_of_def listeners_def take_Suc_conv_app_nth)
  next
    case False
    then obtain pre where "v \<noteq> sv_val s" "calls_of t s = pre @ round t (listeners s) (sv_val s) v"
      using assms(2) V_calling by auto
    then show ?thesis using assms(1) V_calling False by (auto simp: var_updates calls_of_def intro!: exI [of _ pre] exI [of _ "sv_val s"])
  qed
next
  case (V_wait v cbs)
  then have "sv_pc s' t = V_store v cbs" "calls_of t s' = calls_of t s"
    using assms(1) by (auto simp: var_updates calls_of_def split: if_splits)
  then show ?thesis using assms(2) V_wait by simp
qed (use assms in \<open>auto simp: var_updates calls_of_def split: if_splits\<close>)

lemma told_step:
  assumes "var_step t s = Some s'" "lock_inv s" "told_inv s"
  shows "told u s' (sv_pc s' u)"
proof (cases "u = t")
  case True
  then show ?thesis using told_own [OF assms(1)] assms(3) by (simp add: told_inv_def)
next
  case False
  note others = var_step_others [OF assms(1) False]
  have "told u s (sv_pc s u)" using assms(3) by (simp add: told_inv_def)
  then show ?thesis unfolding others(1)
    by (rule told_cong [OF _ others(2)]) (use var_step_stores [OF assms(1)] lock_invD(3) [OF assms(2)] in blast)
qed

lemma told_move: "var_move s s' \<Longrightarrow> lock_inv s \<Longrightarrow> told_inv s \<Longrightarrow> told_inv s'"
proof (induction rule: var_move.induct)
  case (move_step t s s')
  show ?case unfolding told_inv_def by (intro allI told_step [OF move_step])
next
  case (move_call s t c)
  have "told u (var_at t (entry_pc c) s) (sv_pc s u)" for u
    by (rule told_cong [of u s]) (use move_call(3) in \<open>simp_all add: told_inv_def\<close>)
  then show ?case by (simp add: told_inv_def)
qed

lemma var_reach_inv: "var_reach s0 s \<Longrightarrow> lock_inv s0 \<Longrightarrow> told_inv s0 \<Longrightarrow> lock_inv s \<and> told_inv s"
proof (induction rule: var_reach.induct)
  case (var_next s s')
  then show ?case using lock_inv_move told_move by blast
qed blast

section \<open>Properties\<close>

text \<open>C23. In every interleaving, a thread that stores a new value is alone with the variable and has
  told every callback that was registered when it gave the read lock back once, in order, of the value it stores; and
  while a thread is telling the callbacks, the old value it gives them is the value the variable has.\<close>

theorem stores_are_announced:
  assumes "var_reach (new_var v0 cbs0 i) s"
  shows "(\<forall>t v cbs. sv_pc s t = V_store v cbs \<longrightarrow> sv_readers s = {} \<and> (\<forall>u. storing (sv_pc s u) \<longrightarrow> u = t) \<and>
       (\<exists>pre old. old \<noteq> v \<and> calls_of t s = pre @ round t cbs old v)) \<and>
    (\<forall>t v k. sv_pc s t = V_calling v k \<longrightarrow> v \<noteq> sv_val s \<and>
       (\<exists>pre. calls_of t s = pre @ round t (take k (listeners s)) (sv_val s) v))"
proof -
  have lock: "lock_inv s" and told: "told t s (sv_pc s t)" for t
    using var_reach_inv [OF assms lock_inv_start told_inv_start] by (simp_all add: told_inv_def)
  have "sv_readers s = {}" if "storing (sv_pc s t)" for t
    using lock that unfolding lock_inv_def by blast
  then show ?thesis using lock_invD(6) [OF lock] told by (metis storing.simps(1) told.simps(1,3))
qed

text \<open>A run given as the list of what the threads do.\<close>

datatype 'v var_act = Call nat "'v var_call" | Go nat

fun run_acts :: "'v var_act list \<Rightarrow> 'v shared_var \<Rightarrow> 'v shared_var option" where
  "run_acts [] s = Some s"
| "run_acts (Call t c # as) s = (if sv_pc s t = V_idle then run_acts as (var_at t (entry_pc c) s) else None)"
| "run_acts (Go t # as) s = (case var_step t s of None \<Rightarrow> None | Some s' \<Rightarrow> run_acts as s')"

lemma run_acts_reach: "run_acts as s = Some s' \<Longrightarrow> var_reach s0 s \<Longrightarrow> var_reach s0 s'"
proof (induction as s rule: run_acts.induct)
  case (2 t c as s)
  then show ?case by (auto split: if_splits intro: var_next move_call)
next
  case (3 t as s)
  then show ?case by (auto split: option.splits intro: var_next move_step)
qed simp

lemma run_acts_append:
  "run_acts (as @ bs) s = (case run_acts as s of None \<Rightarrow> None | Some s' \<Rightarrow> run_acts bs s')"
  by (induction as s rule: run_acts.induct) (auto split: option.split)

lemma var_step_at:
  "sv_pc s t = V_set v \<Longrightarrow> sv_writer s = None \<Longrightarrow> var_step t s = Some (var_at t (V_compare v) (s\<lparr>sv_readers := insert t (sv_readers s)\<rparr>))"
  "sv_pc s t = V_compare v \<Longrightarrow> v \<noteq> sv_val s \<Longrightarrow> var_step t s = Some (var_at t (V_calling v 0) s)"
  "sv_pc s t = V_calling v k \<Longrightarrow> k < length (sv_cbs s) \<Longrightarrow>
     var_step t s = Some (var_at t (V_calling v (Suc k)) (s\<lparr>sv_calls := sv_calls s @ [(t, listeners s ! k, sv_val s, v)]\<rparr>))"
  "sv_pc s t = V_calling v k \<Longrightarrow> k = length (sv_cbs s) \<Longrightarrow>
     var_step t s = Some (var_at t (V_wait v (listeners s)) (s\<lparr>sv_readers := sv_readers s - {t}\<rparr>))"
  "sv_pc s t = V_wait v cbs \<Longrightarrow> sv_writer s = None \<Longrightarrow> sv_readers s = {} \<Longrightarrow> var_step t s = Some (var_at t (V_store v cbs) (s\<lparr>sv_writer := Some t\<rparr>))"
  "sv_pc s t = V_store v cbs \<Longrightarrow> var_step t s = Some (var_at t V_idle (s\<lparr>sv_val := v, sv_writer := None\<rparr>))"
  by (simp_all add: var_updates)

fun act_thread :: "'v var_act \<Rightarrow> nat" where
  "act_thread (Call t c) = t"
| "act_thread (Go t) = t"

lemma run_acts_others: "run_acts as s = Some s' \<Longrightarrow> u \<notin> act_thread ` set as \<Longrightarrow> sv_pc s' u = sv_pc s u"
proof (induction as s rule: run_acts.induct)
  case (2 t c as s)
  then show ?case by (auto split: if_splits)
next
  case (3 t as s)
  then show ?case using var_step_others(1) by (fastforce split: option.splits)
qed simp

definition crossing :: "'v \<Rightarrow> 'v \<Rightarrow> 'v var_act list" where
  "crossing a b = [Call 1 (SetValue a), Call 2 (SetValue b), Go 1, Go 2, Go 1, Go 2, Go 1, Go 2, Go 1, Go 2, Go 2, Go 2, Go 1, Go 1]"

text \<open>C37. The lock is given back between the callbacks and the store: two threads may tell the
  callbacks in one order and store in the other.  Then the last thing a listener heard is
  not the value of the variable, and no further call is made.\<close>

theorem stale_notification:
  assumes "x \<noteq> a" "x \<noteq> b" "a \<noteq> b"
  shows "\<exists>s. var_reach (new_var x [(key, cb)] i) s \<and> (\<forall>t. sv_pc s t = V_idle) \<and> sv_val s = a \<and> last (sv_calls s) = (2, cb, x, b)"
proof -
  let ?s = "new_var x [(key, cb)] i"
  have "\<exists>s. run_acts (crossing a b) ?s = Some s \<and> sv_pc s 1 = V_idle \<and> sv_pc s 2 = V_idle \<and> sv_val s = a \<and>
      last (sv_calls s) = (2, cb, x, b)"
    using assms by (simp add: crossing_def var_step_at new_var_def var_at_def listeners_def insert_Diff_if del: var_at_simps)
  then obtain s where s: "run_acts (crossing a b) ?s = Some s" "sv_pc s 1 = V_idle" "sv_pc s 2 = V_idle"
    "sv_val s = a" "last (sv_calls s) = (2, cb, x, b)" by blast
  have "sv_pc s t = V_idle" for t
  proof (cases "t = 1 \<or> t = 2")
    case False
    then show ?thesis using run_acts_others [OF s(1), of t] by (simp add: crossing_def new_var_def)
  qed (use s(2,3) in auto)
  then show ?thesis using run_acts_reach [OF s(1) var_start] s(4,5) by blast
qed

theorem stale_notification_witness:
  "\<exists>s. var_reach (new_var (0 :: nat) [(1, 7)] 1) s \<and> sv_val s = 1 \<and> last (sv_calls s) = (2, 7, 0, 2)"
  using stale_notification [of "0 :: nat" 1 2 1 7 1] by auto

section \<open>One call at a time\<close>

lemma calls_loop:
  "k \<le> length (sv_cbs s) \<Longrightarrow> sv_pc s t = V_calling v k \<Longrightarrow>
   \<exists>m. run_acts (replicate m (Go t)) s = Some (var_at t (V_calling v (length (sv_cbs s)))
     (s\<lparr>sv_calls := sv_calls s @ round t (drop k (listeners s)) (sv_val s) v\<rparr>))"
proof (induction "length (sv_cbs s) - k" arbitrary: k s)
  case 0
  then show ?case by (intro exI [of _ 0]) (simp add: var_at_def fun_upd_idem)
next
  case (Suc d)
  let ?s = "var_at t (V_calling v (Suc k)) (s\<lparr>sv_calls := sv_calls s @ [(t, listeners s ! k, sv_val s, v)]\<rparr>)"
  have k: "k < length (sv_cbs s)" using Suc.hyps(2) by simp
  have same: "listeners ?s = listeners s" by (simp add: listeners_def)
  have "\<exists>m. run_acts (replicate m (Go t)) ?s = Some (var_at t (V_calling v (length (sv_cbs ?s)))
     (?s\<lparr>sv_calls := sv_calls ?s @ round t (drop (Suc k) (listeners ?s)) (sv_val ?s) v\<rparr>))"
    using Suc.hyps(2) by (intro Suc.hyps(1)) simp_all
  then obtain m where m: "run_acts (replicate m (Go t)) ?s = Some (var_at t (V_calling v (length (sv_cbs ?s)))
     (?s\<lparr>sv_calls := sv_calls ?s @ round t (drop (Suc k) (listeners s)) (sv_val ?s) v\<rparr>))" unfolding same ..
  have "drop k (listeners s) = listeners s ! k # drop (Suc k) (listeners s)" using k by (simp add: Cons_nth_drop_Suc)
  moreover have "var_step t s = Some ?s" using Suc.prems(2) k by (simp add: var_step_def)
  ultimately show ?case using m by (intro exI [of _ "Suc m"]) (simp add: var_at_def round_def)
qed

text \<open>The callbacks of the sequential definitions that record their calls as thread \<open>t\<close> makes them.\<close>

definition recorder :: "nat \<Rightarrow> nat \<Rightarrow> ('v, (nat \<times> nat \<times> 'v \<times> 'v) list) on_change_cb" where
  "recorder t cb = (\<lambda>old new st. (None, st @ [(t, cb, old, new)]))"

definition recorders :: "nat \<Rightarrow> (u64, nat) omap \<Rightarrow> (u64, ('v, (nat \<times> nat \<times> 'v \<times> 'v) list) on_change_cb) omap" where
  "recorders t cbs = map (\<lambda>(key, cb). (key, recorder t cb)) cbs"

lemma recorders_simps [simp]:
  "recorders t [] = []" "recorders t (om_set key cb cbs) = om_set key (recorder t cb) (recorders t cbs)"
  "recorders t (om_erase key cbs) = om_erase key (recorders t cbs)"
  "om_find (recorders t cbs) key = map_option (recorder t) (om_find cbs key)"
proof -
  show "om_find (recorders t cbs) key = map_option (recorder t) (om_find cbs key)"
    by (induction cbs) (auto simp: recorders_def)
  show "recorders t [] = []" by (simp add: recorders_def)
  show "recorders t (om_set key cb cbs) = om_set key (recorder t cb) (recorders t cbs)"
    by (induction cbs) (auto simp: recorders_def)
  show "recorders t (om_erase key cbs) = om_erase key (recorders t cbs)"
    by (induction cbs) (auto simp: recorders_def)
qed

lemma fold_recorders:
  "fold (\<lambda>(k, cb) c. snd (cb old v c)) (recorders t cbs) cs = cs @ round t (map snd cbs) old v"
  by (induction cbs arbitrary: cs) (auto simp: recorders_def recorder_def round_def)

lemma solo_set:
  assumes "\<forall>u. sv_pc s u = V_idle" "sv_readers s = {}" "sv_writer s = None" "cv_cbs cv = recorders t (sv_cbs s)" "cv_val cv = sv_val s"
  shows "\<exists>m s' cv'. run_acts (Call t (SetValue v) # replicate m (Go t)) s = Some s' \<and> (\<forall>u. sv_pc s' u = V_idle) \<and>
    setValue v cv (sv_calls s) = (None, cv', sv_calls s') \<and> getValue cv' = sv_val s' \<and> cv_cbs cv' = recorders t (sv_cbs s')"
proof -
  have calm: "\<forall>cb\<in>snd ` set (cv_cbs cv). calm cb" by (auto simp: assms(4) recorders_def recorder_def calm_def)
  show ?thesis
  proof (cases "v = sv_val s")
    case True
    have "\<exists>s'. run_acts (Call t (SetValue v) # replicate 2 (Go t)) s = Some s' \<and> sv_calls s' = sv_calls s \<and> sv_val s' = sv_val s \<and>
        sv_cbs s' = sv_cbs s \<and> (\<forall>u. sv_pc s' u = V_idle)"
      using assms(1-3) True by (simp add: numeral_2_eq_2 var_updates var_at_def)
    then obtain s' where "run_acts (Call t (SetValue v) # replicate 2 (Go t)) s = Some s'" "sv_calls s' = sv_calls s" "sv_val s' = sv_val s"
        "sv_cbs s' = sv_cbs s" "\<forall>u. sv_pc s' u = V_idle" by blast
    then show ?thesis using True assms(4,5)
      by (intro exI [of _ 2] exI [of _ s'] exI [of _ cv]) (simp add: setValue_def getValue_def)
  next
    case False
    let ?n = "length (sv_cbs s)"
    let ?s1 = "var_at t (V_calling v 0) (s\<lparr>sv_readers := {t}\<rparr>)"
    have 1: "run_acts (Call t (SetValue v) # replicate 2 (Go t) @ as) s = run_acts as ?s1" for as
      using assms(1-3) False by (simp add: numeral_2_eq_2 var_updates var_at_def)
    let ?calls = "sv_calls s @ round t (listeners s) (sv_val s) v"
    let ?s2 = "var_at t (V_calling v ?n) (?s1\<lparr>sv_calls := ?calls\<rparr>)"
    obtain m where 2: "run_acts (replicate m (Go t)) ?s1 = Some ?s2"
      using calls_loop [of 0 ?s1 t v] by (auto simp: listeners_def)
    let ?s3 = "var_at t V_idle (s\<lparr>sv_calls := ?calls, sv_val := v\<rparr>)"
    have 3: "run_acts (replicate 3 (Go t)) ?s2 = Some ?s3"
      using assms(2,3) by (simp add: numeral_3_eq_3 var_updates var_at_def)
    have "run_acts (Call t (SetValue v) # replicate (2 + m + 3) (Go t)) s = Some ?s3"
      using 1 [of "replicate m (Go t) @ replicate 3 (Go t)"] 2 3 by (simp only: replicate_add append_assoc run_acts_append option.case)
    moreover have "setValue v cv (sv_calls s) = (None, cv\<lparr>cv_val := v\<rparr>, ?calls)"
      using run_cbs_calm [OF calm] False by (simp add: setValue_def assms(4,5) fold_recorders listeners_def)
    ultimately show ?thesis using assms(1,4)
      by (intro exI [of _ "2 + m + 3"] exI [of _ ?s3] exI [of _ "cv\<lparr>cv_val := v\<rparr>"]) (simp add: getValue_def)
  qed
qed

text \<open>C33. The calls of a thread that are not interleaved with others compute what the sequential definitions say.\<close>

theorem solo_setValue:
  assumes "\<forall>u. sv_pc s u = V_idle" "lock_inv s" "cv_cbs cv = recorders t (sv_cbs s)" "cv_val cv = sv_val s"
  shows "(\<exists>m s' cv'. run_acts (Call t (SetValue v) # replicate m (Go t)) s = Some s' \<and> (\<forall>u. sv_pc s' u = V_idle) \<and>
      setValue v cv (sv_calls s) = (None, cv', sv_calls s') \<and> getValue cv' = sv_val s' \<and> cv_cbs cv' = recorders t (sv_cbs s')) \<and>
    (\<exists>s' cv'. run_acts [Call t (AddListener cb), Go t, Go t] s = Some s' \<and> (\<forall>u. sv_pc s' u = V_idle) \<and>
      sv_keys s' = sv_keys s @ [(t, sv_func_id s')] \<and>
      addListener (recorder t cb) (sv_func_id s) cv = (sv_func_id s', sv_func_id s', cv') \<and> cv_cbs cv' = recorders t (sv_cbs s')) \<and>
    (\<exists>s'. run_acts [Call t (DelListener key), Go t, Go t] s = Some s' \<and> (\<forall>u. sv_pc s' u = V_idle) \<and>
      cv_cbs (delListener key cv) = recorders t (sv_cbs s')) \<and>
    (\<exists>s'. run_acts [Call t ClearListener, Go t, Go t] s = Some s' \<and> (\<forall>u. sv_pc s' u = V_idle) \<and>
      cv_cbs (clearListener cv) = recorders t (sv_cbs s')) \<and>
    (\<exists>s' found. run_acts [Call t (GetListener key), Go t, Go t] s = Some s' \<and> (\<forall>u. sv_pc s' u = V_idle) \<and>
      sv_found s' = sv_found s @ [(t, found)] \<and> getListener key cv = map_option (recorder t) found)"
proof -
  have free: "sv_readers s = {}" "sv_writer s = None" using assms(1,2) by (auto simp: lock_inv_def)
  have wr: "\<exists>s'. run_acts [Call t c, Go t, Go t] s = Some s' \<and> (\<forall>u. sv_pc s' u = V_idle) \<and>
      sv_cbs s' = sv_cbs (write_listeners t c s) \<and> sv_func_id s' = sv_func_id (write_listeners t c s) \<and> sv_keys s' = sv_keys (write_listeners t c s)"
    if "entry_pc c = V_write c" for c
    using assms(1) free that by (cases c) (simp_all add: var_updates wr_unlock_def var_at_def Let_def)
  have added: "\<exists>s' cv'. run_acts [Call t (AddListener cb), Go t, Go t] s = Some s' \<and> (\<forall>u. sv_pc s' u = V_idle) \<and>
      sv_keys s' = sv_keys s @ [(t, sv_func_id s')] \<and>
      addListener (recorder t cb) (sv_func_id s) cv = (sv_func_id s', sv_func_id s', cv') \<and> cv_cbs cv' = recorders t (sv_cbs s')"
  proof -
    obtain s' where "run_acts [Call t (AddListener cb), Go t, Go t] s = Some s'" "\<forall>u. sv_pc s' u = V_idle"
      "sv_cbs s' = om_set (sv_func_id s + 1) cb (sv_cbs s)" "sv_func_id s' = sv_func_id s + 1"
      "sv_keys s' = sv_keys s @ [(t, sv_func_id s + 1)]"
      using wr [of "AddListener cb"] by (simp add: Let_def) blast
    then show ?thesis using assms(3) by (intro exI [of _ s']) (simp add: addListener_def Let_def)
  qed
  have deleted: "\<exists>s'. run_acts [Call t (DelListener key), Go t, Go t] s = Some s' \<and> (\<forall>u. sv_pc s' u = V_idle) \<and>
      cv_cbs (delListener key cv) = recorders t (sv_cbs s')"
  proof -
    obtain s' where "run_acts [Call t (DelListener key), Go t, Go t] s = Some s'" "\<forall>u. sv_pc s' u = V_idle"
      "sv_cbs s' = om_erase key (sv_cbs s)"
      using wr [of "DelListener key"] by (simp only: entry_pc.simps write_listeners.simps) auto
    then show ?thesis using assms(3) by (intro exI [of _ s']) (simp add: delListener_def)
  qed
  have cleared: "\<exists>s'. run_acts [Call t ClearListener, Go t, Go t] s = Some s' \<and> (\<forall>u. sv_pc s' u = V_idle) \<and>
      cv_cbs (clearListener cv) = recorders t (sv_cbs s')"
  proof -
    obtain s' where "run_acts [Call t ClearListener, Go t, Go t] s = Some s'" "\<forall>u. sv_pc s' u = V_idle" "sv_cbs s' = []"
      using wr [of ClearListener] by (simp only: entry_pc.simps write_listeners.simps) auto
    then show ?thesis by (intro exI [of _ s']) (simp add: clearListener_def)
  qed
  have found: "\<exists>s' found. run_acts [Call t (GetListener key), Go t, Go t] s = Some s' \<and> (\<forall>u. sv_pc s' u = V_idle) \<and>
      sv_found s' = sv_found s @ [(t, found)] \<and> getListener key cv = map_option (recorder t) found"
    using assms(1,3) free by (simp add: var_updates var_at_def getListener_def)
  show ?thesis using solo_set [OF assms(1) free assms(3,4)] added deleted cleared found by (intro conjI)
qed

theorem solo_setValue_witness:
  "\<exists>m s'. run_acts (Call 7 (SetValue 5) # replicate m (Go 7)) (new_var (3 :: nat) [(1, 8), (2, 9)] 2) = Some s' \<and> sv_val s' = 5 \<and>
     sv_calls s' = [(7, 8, 3, 5), (7, 9, 3, 5)]"
proof -
  let ?s = "new_var (3 :: nat) [(1, 8), (2, 9)] 2"
  let ?cv = "\<lparr>cv_name = ''n'', cv_description = [], cv_type = (), cv_val = 3 :: nat, cv_cbs = recorders 7 (sv_cbs ?s)\<rparr>"
  have idle: "\<forall>u. sv_pc ?s u = V_idle" by (simp add: new_var_def)
  have cv: "cv_cbs ?cv = recorders 7 (sv_cbs ?s)" "cv_val ?cv = sv_val ?s" by (simp_all add: new_var_def)
  obtain m s' cv' where run: "run_acts (Call 7 (SetValue 5) # replicate m (Go 7)) ?s = Some s'"
    and set: "setValue 5 ?cv (sv_calls ?s) = (None, cv', sv_calls s')" "getValue cv' = sv_val s'"
    using solo_setValue [OF idle lock_inv_start cv, of 5] by blast
  have "setValue 5 ?cv (sv_calls ?s) = (None, ?cv\<lparr>cv_val := 5\<rparr>, [(7, 8, 3, 5), (7, 9, 3, 5)])"
    by (simp add: setValue_def new_var_def recorders_def recorder_def)
  then show ?thesis using run set by (intro exI [of _ m] exI [of _ s']) (auto simp: getValue_def)
qed

theorem stores_are_announced_witness:
  "\<exists>s. run_acts [Call 0 (SetValue 5), Go 0, Go 0, Go 0, Go 0, Go 0] (new_var (3 :: nat) [(1, 8)] 1) = Some s \<and>
     sv_pc s 0 = V_store 5 [8] \<and> sv_readers s = {} \<and> (\<exists>pre old. old \<noteq> 5 \<and> calls_of 0 s = pre @ round 0 [8] old 5)"
proof -
  obtain s where s: "run_acts [Call 0 (SetValue 5), Go 0, Go 0, Go 0, Go 0, Go 0] (new_var (3 :: nat) [(1, 8)] 1) = Some s"
    "sv_pc s 0 = V_store 5 [8]"
    by (simp add: var_step_at new_var_def var_at_def listeners_def del: var_at_simps)
  have "var_reach (new_var 3 [(1, 8)] 1) s" by (rule run_acts_reach [OF s(1) var_start])
  then show ?thesis using s stores_are_announced [of 3 "[(1, 8)]" 1 s] by blast
qed

section \<open>Every call returns\<close>

text \<open>An upper bound of the steps a thread has left in its call while no more than \<open>n\<close> callbacks are registered.\<close>

fun pc_rank :: "nat \<Rightarrow> 'v var_pc \<Rightarrow> nat" where
  "pc_rank n V_idle = 0"
| "pc_rank n (V_set v) = n + 5"
| "pc_rank n (V_compare v) = n + 4"
| "pc_rank n (V_calling v k) = n - k + 3"
| "pc_rank n (V_wait v cbs) = 2"
| "pc_rank n (V_store v cbs) = 1"
| "pc_rank n V_get = 2"
| "pc_rank n V_copy = 1"
| "pc_rank n (V_write c) = 2"
| "pc_rank n (V_writing c) = 1"
| "pc_rank n (V_find key) = 2"
| "pc_rank n (V_finding key) = 1"

abbreviation in_call :: "'v shared_var \<Rightarrow> nat set" where
  "in_call s \<equiv> {t. sv_pc s t \<noteq> V_idle}"

text \<open>The callbacks there are and those that the calls under way can add, one for each.\<close>

definition room :: "'v shared_var \<Rightarrow> nat" where
  "room s = length (sv_cbs s) + card (in_call s)"

definition steps_left :: "nat \<Rightarrow> nat set \<Rightarrow> 'v shared_var \<Rightarrow> nat" where
  "steps_left n T s = (\<Sum>t\<in>T. pc_rank n (sv_pc s t))"

lemma pc_rank_le: "pc_rank n pc \<le> n + 5"
  by (cases pc) auto

lemma var_step_rank:
  "var_step t s = Some s' \<Longrightarrow> length (sv_cbs s) \<le> n \<Longrightarrow> pc_rank n (sv_pc s' t) < pc_rank n (sv_pc s t)"
  by (cases "sv_pc s t") (auto simp: var_updates split: if_splits)

lemma write_listeners_length: "length (sv_cbs (write_listeners t c s)) \<le> Suc (length (sv_cbs s))"
  by (cases c) (simp_all add: Let_def om_set_length om_erase_length le_SucI)

lemma var_step_length:
  assumes "var_step t s = Some s'"
  shows "length (sv_cbs s') \<le> length (sv_cbs s) \<or> sv_pc s' t = V_idle \<and> length (sv_cbs s') \<le> Suc (length (sv_cbs s))"
  using assms write_listeners_length by (cases "sv_pc s t") (auto simp: var_updates split: if_splits)

lemma var_step_in_call:
  assumes "var_step t s = Some s'"
  shows "t \<in> in_call s" "in_call s' = (if sv_pc s' t = V_idle then in_call s - {t} else in_call s)"
proof -
  show t: "t \<in> in_call s" using assms by (auto simp: var_step_def)
  show "in_call s' = (if sv_pc s' t = V_idle then in_call s - {t} else in_call s)"
    using var_step_others(1) [OF assms] t by (auto; metis)
qed

lemma room_step:
  assumes "var_step t s = Some s'" "finite (in_call s)"
  shows "room s' \<le> room s" "finite (in_call s')"
proof -
  note step = var_step_in_call [OF assms(1)]
  show "finite (in_call s')" using assms(2) by (simp add: step(2))
  have "0 < card (in_call s)" using step(1) assms(2) card_gt_0_iff by blast
  then show "room s' \<le> room s" using var_step_length [OF assms(1)] step(1) card_Diff_singleton [OF step(1)]
    unfolding room_def step(2) by (auto split: if_splits)
qed

lemma steps_left_step:
  assumes "var_step t s = Some s'" "finite T" "in_call s \<subseteq> T" "room s \<le> n"
  shows "steps_left n T s' < steps_left n T s" "in_call s' \<subseteq> T" "room s' \<le> n"
proof -
  note step = var_step_in_call [OF assms(1)]
  have fin: "finite (in_call s)" using assms(2,3) finite_subset by blast
  have t: "t \<in> T" using step(1) assms(3) by blast
  have rank: "pc_rank n (sv_pc s' t) < pc_rank n (sv_pc s t)"
    by (rule var_step_rank [OF assms(1)]) (use assms(4) in \<open>simp add: room_def\<close>)
  have same: "sv_pc s' u = sv_pc s u" if "u \<noteq> t" for u using var_step_others(1) [OF assms(1) that] .
  show "steps_left n T s' < steps_left n T s" unfolding steps_left_def
  proof (rule sum_strict_mono_ex1 [OF assms(2)])
    show "\<forall>u\<in>T. pc_rank n (sv_pc s' u) \<le> pc_rank n (sv_pc s u)" using rank same by (metis le_less order_refl)
    show "\<exists>u\<in>T. pc_rank n (sv_pc s' u) < pc_rank n (sv_pc s u)" using rank t by blast
  qed
  show "in_call s' \<subseteq> T" using step(2) assms(3) by (auto split: if_splits)
  show "room s' \<le> n" using room_step(1) [OF assms(1) fin] assms(4) by simp
qed

text \<open>No deadlock: a thread holds the lock and goes on, or the lock is free.\<close>

lemma no_deadlock:
  assumes "lock_inv s" "sv_pc s u \<noteq> V_idle"
  shows "\<exists>t s'. var_step t s = Some s'"
proof -
  note inv = lock_invD [OF assms(1)]
  have go: "\<exists>s'. var_step t s = Some s'" if "reading (sv_pc s t) \<or> storing (sv_pc s t)" for t
    using that by (cases "sv_pc s t") (auto simp: var_step_def)
  show ?thesis
  proof (cases "\<exists>t. reading (sv_pc s t) \<or> storing (sv_pc s t)")
    case False
    then have "sv_readers s = {}" "sv_writer s = None" using inv(1,2) by (auto intro: option.exhaust)
    then have "\<exists>s'. var_step u s = Some s'" using assms(2) False
      by (cases "sv_pc s u") (auto simp: var_step_def rd_lock_def wr_lock_def)
    then show ?thesis by blast
  qed (use go in blast)
qed

lemma go_bound:
  assumes "run_acts (map Go ts) s = Some s'" "finite T" "in_call s \<subseteq> T" "room s \<le> n"
  shows "length ts + steps_left n T s' \<le> steps_left n T s"
  using assms
proof (induction ts arbitrary: s)
  case (Cons t ts)
  then obtain s1 where s1: "var_step t s = Some s1" "run_acts (map Go ts) s1 = Some s'" by (auto split: option.splits)
  note left = steps_left_step [OF s1(1) Cons.prems(2-4)]
  show ?case using Cons.IH [OF s1(2) Cons.prems(2) left(2,3)] left(1) by simp
qed simp

lemma go_finish:
  assumes "var_reach (new_var v cbs i) s" "finite T" "in_call s \<subseteq> T" "room s \<le> n"
  shows "\<exists>ts s'. run_acts (map Go ts) s = Some s' \<and> in_call s' = {}"
  using assms
proof (induction "steps_left n T s" arbitrary: s rule: less_induct)
  case less
  show ?case
  proof (cases "in_call s = {}")
    case True
    then show ?thesis by (intro exI [of _ "[]"] exI [of _ s]) simp
  next
    case False
    then obtain t s1 where s1: "var_step t s = Some s1"
      using no_deadlock [of s] var_reach_inv [OF less.prems(1) lock_inv_start told_inv_start] by blast
    note left = steps_left_step [OF s1 less.prems(2-4)]
    from less.hyps [OF left(1) var_next [OF less.prems(1) move_step [OF s1]] less.prems(2) left(2,3)]
    obtain ts s' where "run_acts (map Go ts) s1 = Some s'" "in_call s' = {}" by blast
    then show ?thesis using s1 by (intro exI [of _ "t # ts"] exI [of _ s']) simp
  qed
qed



end
