(* ===== verification/ListenerKeys.thy ===== *)
theory ListenerKeys
  imports ConfigConcurrency
begin

text \<open>
  The keys of listeners when several variables of one type are used by several threads
  (\<open>ConfigVar<T>::addListener\<close> of config.h).  The counter \<open>s_func_id\<close> is a static variable of the member function:
  all variables of the type share it, while the lock taken is the one of the variable.  Each access to the
  counter is a step: the load and the store of \<open>++s_func_id\<close>, the index of \<open>m_cbs[s_func_id] = cb\<close> and the
  value returned.  (Unordered accesses are undefined in C++; taking turns is the mildest reading.)
\<close>

section \<open>The steps\<close>

text \<open>Where a thread stands, with the variable and the callback it works on.\<close>

datatype key_pc =
    K_idle
  | K_lock nat nat
  | K_load nat nat
  | K_store nat nat u64
  | K_insert nat nat
  | K_return nat nat
  | K_del nat u64

text \<open>
  The counter; the listeners and the holder of the lock of each variable; the keys returned so far,
  with the thread, the variable and the callback; and the keys deleted and not given again.
\<close>

record type_vars =
  tv_func_id :: u64
  tv_cbs :: "nat \<Rightarrow> (u64, nat) omap"
  tv_lock :: "nat \<Rightarrow> nat option"
  tv_pc :: "nat \<Rightarrow> key_pc"
  tv_keys :: "(nat \<times> nat \<times> nat \<times> u64) list"
  tv_gone :: "(nat \<times> u64) set"

definition tv_at :: "nat \<Rightarrow> key_pc \<Rightarrow> type_vars \<Rightarrow> type_vars" where
  "tv_at t pc s = s\<lparr>tv_pc := (tv_pc s)(t := pc)\<rparr>"

definition tv_locked :: "nat \<Rightarrow> nat option \<Rightarrow> type_vars \<Rightarrow> type_vars" where
  "tv_locked x h s = s\<lparr>tv_lock := (tv_lock s)(x := h)\<rparr>"

text \<open>\<open>delListener\<close> touches its variable only; its critical section is one step.\<close>

definition key_step :: "nat \<Rightarrow> type_vars \<Rightarrow> type_vars option" where
  "key_step t s =
     (case tv_pc s t of
        K_idle \<Rightarrow> None
      | K_lock x cb \<Rightarrow> if tv_lock s x = None then Some (tv_at t (K_load x cb) (tv_locked x (Some t) s)) else None
      | K_load x cb \<Rightarrow> Some (tv_at t (K_store x cb (tv_func_id s)) s)
      | K_store x cb i \<Rightarrow> Some (tv_at t (K_insert x cb) (s\<lparr>tv_func_id := i + 1\<rparr>))
      | K_insert x cb \<Rightarrow>
          Some (tv_at t (K_return x cb)
            (s\<lparr>tv_cbs := (tv_cbs s)(x := om_set (tv_func_id s) cb (tv_cbs s x)), tv_gone := tv_gone s - {(x, tv_func_id s)}\<rparr>))
      | K_return x cb \<Rightarrow>
          Some (tv_at t K_idle (tv_locked x None (s\<lparr>tv_keys := tv_keys s @ [(t, x, cb, tv_func_id s)]\<rparr>)))
      | K_del x key \<Rightarrow>
          if tv_lock s x = None then
            Some (tv_at t K_idle (s\<lparr>tv_cbs := (tv_cbs s)(x := om_erase key (tv_cbs s x)), tv_gone := insert (x, key) (tv_gone s)\<rparr>))
          else None)"

text \<open>The runs in which the threads use the variables \<open>X\<close>.\<close>

inductive key_run :: "nat set \<Rightarrow> type_vars \<Rightarrow> type_vars \<Rightarrow> bool" for X s0 where
  keys_start: "key_run X s0 s0"
| keys_add: "key_run X s0 s \<Longrightarrow> tv_pc s t = K_idle \<Longrightarrow> x \<in> X \<Longrightarrow> key_run X s0 (tv_at t (K_lock x cb) s)"
| keys_del: "key_run X s0 s \<Longrightarrow> tv_pc s t = K_idle \<Longrightarrow> x \<in> X \<Longrightarrow> key_run X s0 (tv_at t (K_del x key) s)"
| keys_step: "key_run X s0 s \<Longrightarrow> key_step t s = Some s' \<Longrightarrow> key_run X s0 s'"

definition new_type :: "u64 \<Rightarrow> (nat \<Rightarrow> (u64, nat) omap) \<Rightarrow> type_vars" where
  "new_type i cbs = \<lparr>tv_func_id = i, tv_cbs = cbs, tv_lock = (\<lambda>_. None), tv_pc = (\<lambda>_. K_idle), tv_keys = [], tv_gone = {}\<rparr>"

lemma tv_simps [simp]:
  "tv_func_id (tv_at t pc s) = tv_func_id s" "tv_cbs (tv_at t pc s) = tv_cbs s" "tv_lock (tv_at t pc s) = tv_lock s"
  "tv_pc (tv_at t pc s) = (tv_pc s)(t := pc)" "tv_keys (tv_at t pc s) = tv_keys s" "tv_gone (tv_at t pc s) = tv_gone s"
  "tv_func_id (tv_locked x h s) = tv_func_id s" "tv_cbs (tv_locked x h s) = tv_cbs s" "tv_lock (tv_locked x h s) = (tv_lock s)(x := h)"
  "tv_pc (tv_locked x h s) = tv_pc s" "tv_keys (tv_locked x h s) = tv_keys s" "tv_gone (tv_locked x h s) = tv_gone s"
  by (simp_all add: tv_at_def tv_locked_def)

text \<open>A thread alone does what \<open>addListener\<close> says.\<close>

fun steps :: "nat list \<Rightarrow> type_vars \<Rightarrow> type_vars option" where
  "steps [] s = Some s"
| "steps (t # ts) s = (case key_step t s of None \<Rightarrow> None | Some s' \<Rightarrow> steps ts s')"

lemma steps_run: "steps ts s = Some s' \<Longrightarrow> key_run X s0 s \<Longrightarrow> key_run X s0 s'"
  by (induction ts arbitrary: s) (auto split: option.splits intro: keys_step)

lemma solo_addListener:
  assumes "tv_pc s t = K_lock x cb" "tv_lock s x = None" "cv_cbs cv = recorders t (tv_cbs s x)"
  shows "\<exists>s' cv'. steps [t, t, t, t, t] s = Some s' \<and>
    addListener (recorder t cb) (tv_func_id s) cv = (tv_func_id s', tv_func_id s', cv') \<and>
    cv_cbs cv' = recorders t (tv_cbs s' x) \<and> tv_keys s' = tv_keys s @ [(t, x, cb, tv_func_id s')] \<and> tv_pc s' t = K_idle"
  using assms by (simp add: key_step_def addListener_def Let_def)

section \<open>One variable\<close>

fun on_var :: "nat \<Rightarrow> key_pc \<Rightarrow> bool" where
  "on_var x K_idle = True"
| "on_var x (K_lock y cb) = (y = x)"
| "on_var x (K_load y cb) = (y = x)"
| "on_var x (K_store y cb i) = (y = x)"
| "on_var x (K_insert y cb) = (y = x)"
| "on_var x (K_return y cb) = (y = x)"
| "on_var x (K_del y key) = (y = x)"

fun adding :: "key_pc \<Rightarrow> bool" where
  "adding (K_load x cb) = True"
| "adding (K_store x cb i) = True"
| "adding (K_insert x cb) = True"
| "adding (K_return x cb) = True"
| "adding _ = False"

text \<open>The counter, read from where the thread with the lock stands; \<open>c\<close> is its value between calls.\<close>

fun counted :: "u64 \<Rightarrow> type_vars \<Rightarrow> key_pc \<Rightarrow> bool" where
  "counted c s (K_load x cb) \<longleftrightarrow> tv_func_id s = c"
| "counted c s (K_store x cb i) \<longleftrightarrow> tv_func_id s = c \<and> i = c"
| "counted c s (K_insert x cb) \<longleftrightarrow> tv_func_id s = c + 1"
| "counted c s (K_return x cb) \<longleftrightarrow> tv_func_id s = c + 1 \<and> om_find (tv_cbs s x) (c + 1) = Some cb"
| "counted c s _ \<longleftrightarrow> True"

abbreviation key_of :: "nat \<times> nat \<times> nat \<times> u64 \<Rightarrow> u64" where
  "key_of e \<equiv> snd (snd (snd e))"

abbreviation given :: "type_vars \<Rightarrow> nat" where
  "given s \<equiv> length (tv_keys s)"

definition keys_counted :: "u64 \<Rightarrow> type_vars \<Rightarrow> bool" where
  "keys_counted i s \<longleftrightarrow> (\<forall>k < given s. key_of (tv_keys s ! k) = i + of_nat (Suc k))"

definition keys_live :: "nat \<Rightarrow> type_vars \<Rightarrow> bool" where
  "keys_live x s \<longleftrightarrow> (given s < 2 ^ 64 \<longrightarrow>
     (\<forall>t y cb key. (t, y, cb, key) \<in> set (tv_keys s) \<longrightarrow> (x, key) \<notin> tv_gone s \<longrightarrow> om_find (tv_cbs s x) key = Some cb))"

definition lock_counted :: "nat \<Rightarrow> u64 \<Rightarrow> type_vars \<Rightarrow> bool" where
  "lock_counted x i s \<longleftrightarrow> (\<forall>t. on_var x (tv_pc s t)) \<and>
     (case tv_lock s x of
        None \<Rightarrow> (\<forall>t. \<not> adding (tv_pc s t)) \<and> tv_func_id s = i + of_nat (given s)
      | Some h \<Rightarrow> (\<forall>t. adding (tv_pc s t) \<longleftrightarrow> t = h) \<and> counted (i + of_nat (given s)) s (tv_pc s h))"

definition key_inv :: "nat \<Rightarrow> u64 \<Rightarrow> type_vars \<Rightarrow> bool" where
  "key_inv x i s \<longleftrightarrow> lock_counted x i s \<and> keys_counted i s \<and> om_sorted (tv_cbs s x) \<and> keys_live x s"

lemma of_nat_u64_eq: "a < 2 ^ 64 \<Longrightarrow> b < 2 ^ 64 \<Longrightarrow> (of_nat a :: u64) = of_nat b \<longleftrightarrow> a = b"
  by (auto simp: word_of_nat_eq_iff take_bit_eq_mod)

lemma key_inv_start: "om_sorted (cbs x) \<Longrightarrow> key_inv x i (new_type i cbs)"
  by (simp add: key_inv_def lock_counted_def keys_counted_def keys_live_def new_type_def)

lemma counted_at [simp]: "counted c (tv_at t pc s) pc' \<longleftrightarrow> counted c s pc'"
  by (cases pc') auto

lemma lock_section: "lock_counted x i s \<Longrightarrow> tv_lock s x = Some t \<Longrightarrow> adding (tv_pc s t)"
  by (simp add: lock_counted_def)

lemma key_inv_call:
  assumes "key_inv x i s" "tv_pc s t = K_idle" "on_var x pc" "\<not> adding pc"
  shows "key_inv x i (tv_at t pc s)"
proof -
  have "tv_lock s x \<noteq> Some t" using lock_section assms(1,2) by (fastforce simp: key_inv_def)
  then show ?thesis using assms
    by (auto simp: key_inv_def lock_counted_def keys_counted_def keys_live_def split: option.splits)
qed

lemma section_lock: "lock_counted x i s \<Longrightarrow> adding (tv_pc s t) \<Longrightarrow> tv_lock s x = Some t"
  by (auto simp: lock_counted_def split: option.splits)

text \<open>While one thread works on the variable, the others are outside.\<close>

lemma lock_counted_step:
  assumes "lock_counted x i s" "key_step t s = Some s'"
  shows "lock_counted x i s'"
proof (cases "adding (tv_pc s t)")
  case True
  have "tv_lock s x = Some t" "on_var x (tv_pc s t)" using section_lock [OF assms(1) True] assms(1) by (auto simp: lock_counted_def)
  then show ?thesis using assms True
    by (cases "tv_pc s t") (auto simp: lock_counted_def key_step_def om_find_set add_ac split: if_splits)
next
  case False
  have "on_var x (tv_pc s t)" using assms(1) by (simp add: lock_counted_def)
  then show ?thesis using assms False
    by (cases "tv_pc s t") (auto simp: lock_counted_def key_step_def split: if_splits option.splits)
qed

lemma keys_counted_step:
  assumes "lock_counted x i s" "keys_counted i s" "key_step t s = Some s'"
  shows "keys_counted i s'"
proof (cases "\<exists>y cb. tv_pc s t = K_return y cb")
  case True
  then have "counted (i + of_nat (given s)) s (tv_pc s t)"
    using section_lock [OF assms(1), of t] assms(1) by (auto simp: lock_counted_def)
  then show ?thesis using True assms(2,3) by (auto simp: keys_counted_def key_step_def nth_append add_ac less_Suc_eq)
next
  case False
  then have "tv_keys s' = tv_keys s" using assms(3) by (cases "tv_pc s t") (auto simp: key_step_def split: if_splits)
  then show ?thesis using assms(2) by (simp add: keys_counted_def)
qed

lemma new_key:
  assumes "keys_counted i s" "given s < 2 ^ 64" "(u, y, cb, key) \<in> set (tv_keys s)"
  shows "key \<noteq> i + of_nat (Suc (given s))"
proof -
  obtain k where k: "k < given s" "key = i + of_nat (Suc k)" using assms(1,3) by (force simp: keys_counted_def in_set_conv_nth)
  then have "(of_nat k :: u64) \<noteq> of_nat (given s)" using assms(2) of_nat_u64_eq [of k "given s"] by simp
  then show ?thesis by (simp add: k(2))
qed

lemma sorted_step: "om_sorted (tv_cbs s x) \<Longrightarrow> key_step t s = Some s' \<Longrightarrow> om_sorted (tv_cbs s' x)"
  by (cases "tv_pc s t") (auto simp: key_step_def om_sorted_set om_sorted_erase split: if_splits)

lemma keys_live_step:
  assumes inv: "lock_counted x i s" "keys_counted i s" "om_sorted (tv_cbs s x)" "keys_live x s" and step: "key_step t s = Some s'"
  shows "keys_live x s'"
proof (cases "tv_pc s t")
  case (K_insert y cb)
  have yx: "y = x" and cnt: "tv_func_id s = i + of_nat (Suc (given s))"
    using section_lock [OF inv(1), of t] inv(1) K_insert by (auto simp: lock_counted_def dest: spec [of _ t])
  show ?thesis using inv(4) step K_insert new_key [OF inv(2)]
    by (auto simp: keys_live_def key_step_def om_find_set yx cnt)
next
  case (K_return y cb)
  have yx: "y = x" and cnt: "om_find (tv_cbs s x) (tv_func_id s) = Some cb"
    using section_lock [OF inv(1), of t] inv(1) K_return by (auto simp: lock_counted_def dest: spec [of _ t])
  show ?thesis using inv(4) step K_return by (auto simp: keys_live_def key_step_def yx cnt)
next
  case (K_del y key)
  have "y = x" using inv(1) K_del by (auto simp: lock_counted_def dest: spec [of _ t])
  then show ?thesis using inv(3,4) step K_del by (auto simp: keys_live_def key_step_def om_find_erase split: if_splits)
qed (use inv(4) step in \<open>auto simp: keys_live_def key_step_def split: if_splits\<close>)

lemma key_inv_step: "key_inv x i s \<Longrightarrow> key_step t s = Some s' \<Longrightarrow> key_inv x i s'"
  unfolding key_inv_def by (blast intro: lock_counted_step keys_counted_step sorted_step keys_live_step)

lemma key_run_inv: "key_run {x} s0 s \<Longrightarrow> key_inv x i s0 \<Longrightarrow> key_inv x i s"
proof (induction rule: key_run.induct)
  case (keys_step s t s')
  then show ?case by (blast intro: key_inv_step)
qed (auto intro: key_inv_call)

text \<open>C35. When the threads use one variable of a type, in every interleaving the keys \<open>addListener\<close> returns are
  consecutive, no key is given twice until the 64-bit counter has wrapped around, and up to there every listener is
  found under the key its thread got until that key is deleted.\<close>

theorem one_variable_keys:
  assumes "key_run {x} (new_type i cbs) s" "om_sorted (cbs x)"
  shows "(\<forall>k < given s. key_of (tv_keys s ! k) = i + of_nat (Suc k)) \<and>
    (given s \<le> 2 ^ 64 \<longrightarrow> distinct (map key_of (tv_keys s))) \<and>
    (given s < 2 ^ 64 \<longrightarrow> (\<forall>t y cb key. (t, y, cb, key) \<in> set (tv_keys s) \<longrightarrow> (x, key) \<notin> tv_gone s \<longrightarrow>
       om_find (tv_cbs s x) key = Some cb))"
proof -
  have "key_inv x i s" by (rule key_run_inv [OF assms(1) key_inv_start [of cbs x, OF assms(2)]])
  then have inv: "keys_counted i s" "keys_live x s" by (simp_all add: key_inv_def)
  have "distinct (map key_of (tv_keys s))" if "given s \<le> 2 ^ 64"
    using inv(1) that by (auto simp: distinct_conv_nth keys_counted_def of_nat_u64_eq)
  then show ?thesis using inv by (simp add: keys_counted_def keys_live_def)
qed

text \<open>Two threads that add listeners to the variable at once.\<close>

theorem one_variable_keys_witness:
  "\<exists>s. key_run {4} (new_type 0 (\<lambda>_. [])) s \<and> map key_of (tv_keys s) = [1, 2] \<and> om_find (tv_cbs s 4) 1 = Some 8 \<and>
     distinct (map key_of (tv_keys s))"
proof -
  let ?s0 = "tv_at 2 (K_lock 4 9) (tv_at 1 (K_lock 4 8) (new_type 0 (\<lambda>_. [])))"
  have run: "key_run {4} (new_type 0 (\<lambda>_. [])) ?s0"
    by (rule keys_add [OF keys_add [OF keys_start]]) (simp_all add: new_type_def)
  obtain s where s: "steps [1, 1, 1, 1, 1, 2, 2, 2, 2, 2] ?s0 = Some s" "tv_keys s = [(1, 4, 8, 1), (2, 4, 9, 2)]" "tv_gone s = {}"
    by (simp add: key_step_def new_type_def)
  have r: "key_run {4} (new_type 0 (\<lambda>_. [])) s" by (rule steps_run [OF s(1) run])
  have "om_find (tv_cbs s 4) 1 = Some 8" "distinct (map key_of (tv_keys s))"
    using one_variable_keys [OF r] s(2,3) by auto
  then show ?thesis using r s(2) by auto
qed

section \<open>Two variables\<close>

definition two_adding :: "nat \<Rightarrow> nat \<Rightarrow> nat \<Rightarrow> nat \<Rightarrow> nat \<Rightarrow> nat \<Rightarrow> u64 \<Rightarrow> type_vars" where
  "two_adding t u x y a b i = tv_at u (K_lock y b) (tv_at t (K_lock x a) (new_type i (\<lambda>_. [])))"

lemma two_adding_run:
  "t \<noteq> u \<Longrightarrow> key_run {x, y} (new_type i (\<lambda>_. [])) (two_adding t u x y a b i)"
  unfolding two_adding_def by (rule keys_add [OF keys_add [OF keys_start]]) (simp_all add: new_type_def)

lemma alone_add:
  assumes "key_run X s0 s" "tv_pc s u = K_idle" "y \<in> X" "tv_lock s y = None"
  shows "\<exists>s'. key_run X s0 s' \<and> tv_func_id s' = tv_func_id s + 1 \<and> tv_pc s' = tv_pc s \<and> tv_lock s' = tv_lock s \<and>
    tv_keys s' = tv_keys s @ [(u, y, cb, tv_func_id s + 1)] \<and> tv_gone s' = tv_gone s - {(y, tv_func_id s + 1)} \<and>
    tv_cbs s' = (tv_cbs s)(y := om_set (tv_func_id s + 1) cb (tv_cbs s y))"
proof -
  have "\<exists>s'. steps [u, u, u, u, u] (tv_at u (K_lock y cb) s) = Some s' \<and> tv_func_id s' = tv_func_id s + 1 \<and> tv_pc s' = tv_pc s \<and>
    tv_lock s' = tv_lock s \<and> tv_keys s' = tv_keys s @ [(u, y, cb, tv_func_id s + 1)] \<and> tv_gone s' = tv_gone s - {(y, tv_func_id s + 1)} \<and>
    tv_cbs s' = (tv_cbs s)(y := om_set (tv_func_id s + 1) cb (tv_cbs s y))"
    using assms(2,4) by (auto simp: key_step_def fun_upd_idem)
  then show ?thesis using steps_run [OF _ keys_add [OF assms(1-3)]] by blast
qed

text \<open>C36. With two variables of a type the keys go wrong: a thread can be given the key after the one its listener
  has, so that deleting by that key leaves the listener in place; and a variable can give one key twice, so that a new
  listener replaces another that nobody deleted.\<close>

theorem shared_counter_races:
  assumes "t \<noteq> u" "x \<noteq> y"
  shows "(\<exists>s. key_run {x, y} (new_type i (\<lambda>_. [])) s \<and> (t, x, a, i + 2) \<in> set (tv_keys s) \<and> tv_gone s = {} \<and>
       tv_cbs s x = [(i + 1, a)] \<and> om_erase (i + 2) (tv_cbs s x) = tv_cbs s x) \<and>
    (\<exists>s. key_run {x, y} (new_type i (\<lambda>_. [])) s \<and> (u, y, c, i + 2) \<in> set (tv_keys s) \<and> (u, y, d, i + 2) \<in> set (tv_keys s) \<and>
       tv_gone s = {} \<and> om_find (tv_cbs s y) (i + 2) = Some d)"
proof (intro conjI)
  let ?s0 = "new_type i (\<lambda>_. [])"
  note run = two_adding_run [OF assms(1)]
  have "\<exists>s. steps [t, t, t, t, u, u, u, t] (two_adding t u x y a b i) = Some s \<and> (t, x, a, i + 2) \<in> set (tv_keys s) \<and> tv_gone s = {} \<and>
       tv_cbs s x = [(i + 1, a)] \<and> om_erase (i + 2) (tv_cbs s x) = tv_cbs s x" for b
    using assms by (simp add: two_adding_def key_step_def new_type_def)
  then show "\<exists>s. key_run {x, y} ?s0 s \<and> (t, x, a, i + 2) \<in> set (tv_keys s) \<and> tv_gone s = {} \<and>
       tv_cbs s x = [(i + 1, a)] \<and> om_erase (i + 2) (tv_cbs s x) = tv_cbs s x"
    using steps_run [OF _ run] by blast
  let ?s1 = "tv_at t (K_store x a i) (tv_locked x (Some t) ?s0)"
  have "key_run {x, y} ?s0 (tv_at t (K_lock x a) ?s0)" by (rule keys_add [OF keys_start]) (simp_all add: new_type_def)
  then have r1: "key_run {x, y} ?s0 ?s1"
    by (rule steps_run [of "[t, t]", rotated]) (simp add: key_step_def new_type_def tv_at_def tv_locked_def)
  have s1: "tv_pc ?s1 u = K_idle" "tv_lock ?s1 y = None" using assms by (simp_all add: new_type_def)
  obtain s2 where r2: "key_run {x, y} ?s0 s2" and s2: "tv_func_id s2 = i + 1" "tv_pc s2 = tv_pc ?s1" "tv_lock s2 = tv_lock ?s1" "tv_gone s2 = {}"
    using alone_add [OF r1 s1(1) _ s1(2)] by (auto simp: new_type_def)
  obtain s3 where r3: "key_run {x, y} ?s0 s3" and s3: "tv_pc s3 = tv_pc ?s1" "tv_lock s3 = tv_lock ?s1" "tv_gone s3 = {}" "(u, y, c, i + 2) \<in> set (tv_keys s3)"
    using alone_add [OF r2, of u y c] s1 s2 by auto
  let ?s4 = "tv_at t (K_insert x a) (s3\<lparr>tv_func_id := i + 1\<rparr>)"
  have r4: "key_run {x, y} ?s0 ?s4" by (rule keys_step [OF r3, of t]) (simp add: key_step_def s3)
  have s4: "tv_pc ?s4 u = K_idle" "tv_lock ?s4 y = None" using s1 s3 assms(1) by auto
  show "\<exists>s. key_run {x, y} ?s0 s \<and> (u, y, c, i + 2) \<in> set (tv_keys s) \<and> (u, y, d, i + 2) \<in> set (tv_keys s) \<and>
       tv_gone s = {} \<and> om_find (tv_cbs s y) (i + 2) = Some d"
    using alone_add [OF r4 s4(1) _ s4(2), of d] s3 by (auto simp: om_find_set)
qed

theorem shared_counter_races_witness:
  "\<exists>s. key_run {0, 1} (new_type 0 (\<lambda>_. [])) s \<and> (1, 0, 7, 2) \<in> set (tv_keys s) \<and> tv_cbs s 0 = [(1, 7)]"
  using shared_counter_races [of 1 2 0 1 0 7 8 9] by auto

end
