(* ===== verification/LogConfig.thy ===== *)
theory LogConfig
  imports LoggerInvariants LexicalCasts
begin

text \<open>
  The configuration of the loggers (second half of log.cpp): the two define structures, their
  conversions from and to YAML text, and the listener of the variable \<open>logs\<close> that carries a
  changed set of defines over to the logger manager.
\<close>

section \<open>Defines\<close>

record log_appender_define =
  lad_type :: int
  lad_level :: level
  lad_formatter :: string
  lad_file :: string

definition new_appender_define :: log_appender_define where
  "new_appender_define = \<lparr>lad_type = 0, lad_level = UNKNOW, lad_formatter = [], lad_file = []\<rparr>"

record log_define =
  ld_name :: string
  ld_level :: level
  ld_formatter :: string
  ld_appenders :: "log_appender_define list"

definition new_define :: log_define where
  "new_define = \<lparr>ld_name = [], ld_level = UNKNOW, ld_formatter = [], ld_appenders = []\<rparr>"

section \<open>From and to text\<close>

text \<open>
  Reading writes diagnostics to the standard output and may throw; a computation is the result
  together with the text written.
\<close>

type_synonym 'a reading = "(exc + 'a) \<times> string"

definition wret :: "'a \<Rightarrow> 'a reading" where "wret x = (Inr x, [])"

definition wlift :: "exc + 'a \<Rightarrow> 'a reading" where "wlift r = (r, [])"

definition wbind :: "'a reading \<Rightarrow> ('a \<Rightarrow> 'b reading) \<Rightarrow> 'b reading" where
  "wbind m f = (case m of (Inl e, out) \<Rightarrow> (Inl e, out)
     | (Inr x, out) \<Rightarrow> (case f x of (r, out') \<Rightarrow> (r, out @ out')))"

text \<open>A message followed by a node and the end of the line.\<close>

definition complain :: "yaml_lib \<Rightarrow> string \<Rightarrow> ynode \<Rightarrow> string" where
  "complain lib msg n = msg @ yl_emit lib n @ newline"

text \<open>\<open>n[key].as<std::string>()\<close> where the key is defined, and a default where it is not.\<close>

definition field_or :: "yaml_lib \<Rightarrow> ynode \<Rightarrow> string \<Rightarrow> string \<Rightarrow> exc + string" where
  "field_or lib n key dflt =
     rbind (y_field lib n key) (\<lambda>v. if y_is_defined v then y_as_string lib v else Inr dflt)"

text \<open>One turn of the loop over the appenders: \<open>None\<close> is \<open>continue\<close>.\<close>

definition read_appender :: "yaml_lib \<Rightarrow> ynode \<Rightarrow> log_appender_define option reading" where
  "read_appender lib a =
     wbind (wlift (y_field lib a ''type'')) (\<lambda>ty.
       if \<not> y_is_defined ty then
         (Inr None, complain lib ''log config error: appender type is null, '' a)
       else wbind (wlift (y_as_string lib ty)) (\<lambda>type.
         if type = ''FileLogAppender'' then
           wbind (wlift (y_field lib a ''file'')) (\<lambda>f.
             if \<not> y_is_defined f then
               (Inr None, complain lib ''log config error: fileappender file is null, '' a)
             else wbind (wlift (y_as_string lib f)) (\<lambda>file.
               wbind (wlift (field_or lib a ''formatter'' [])) (\<lambda>fmt.
                 wret (Some (new_appender_define\<lparr>lad_type := 1, lad_file := file, lad_formatter := fmt\<rparr>)))))
         else if type = ''StdoutLogAppender'' then
           wbind (wlift (field_or lib a ''formatter'' [])) (\<lambda>fmt.
             wret (Some (new_appender_define\<lparr>lad_type := 2, lad_formatter := fmt\<rparr>)))
         else (Inr None, complain lib ''log config error: appender type is invalid, '' a)))"

fun read_appenders :: "yaml_lib \<Rightarrow> ynode \<Rightarrow> nat list \<Rightarrow> log_appender_define list reading" where
  "read_appenders lib as [] = wret []"
| "read_appenders lib as (x # xs) =
     wbind (wlift (y_index lib as x)) (\<lambda>a.
       wbind (read_appender lib a) (\<lambda>lad.
         wbind (read_appenders lib as xs) (\<lambda>lads.
           wret (case lad of None \<Rightarrow> lads | Some d \<Rightarrow> d # lads))))"

text \<open>\<open>LexicalCast<std::string, LogDefine>\<close>\<close>

definition define_from :: "yaml_lib \<Rightarrow> string \<Rightarrow> log_define reading" where
  "define_from lib v =
     wbind (wlift (yl_load lib v)) (\<lambda>n.
       wbind (wlift (y_field lib n ''name'')) (\<lambda>nm.
         if \<not> y_is_defined nm then
           (Inl (Std_exception ''log config name is null''),
            complain lib ''log config error: name is null, '' n)
         else wbind (wlift (y_as_string lib nm)) (\<lambda>name.
           wbind (wlift (field_or lib n ''level'' [])) (\<lambda>level.
             wbind (wlift (field_or lib n ''formatter'' [])) (\<lambda>fmt.
               wbind (wlift (y_field lib n ''appenders'')) (\<lambda>as.
                 wbind (if y_is_defined as then read_appenders lib as [0..<y_size as] else wret []) (\<lambda>aps.
                   wret (new_define\<lparr>ld_name := name, ld_level := from_string level, ld_formatter := fmt,
                           ld_appenders := aps\<rparr>))))))))"

text \<open>\<open>LexicalCast<LogDefine, std::string>\<close>\<close>

definition appender_node :: "log_appender_define \<Rightarrow> ynode" where
  "appender_node a =
     (let n1 = (if lad_type a = 1 then
                  y_set ''file'' (YScalar (lad_file a)) (y_set ''type'' (YScalar ''FileLogAppender'') YNull)
                else if lad_type a = 2 then y_set ''type'' (YScalar ''StdoutLogAppender'') YNull
                else YNull);
          n2 = (if lad_level a \<noteq> UNKNOW then y_set ''level'' (YScalar (to_string (lad_level a))) n1 else n1)
      in if lad_formatter a \<noteq> [] then y_set ''formatter'' (YScalar (lad_formatter a)) n2 else n2)"

definition define_node :: "log_define \<Rightarrow> ynode" where
  "define_node i =
     (let n1 = y_set ''name'' (YScalar (ld_name i)) YNull;
          n2 = (if ld_level i \<noteq> UNKNOW then y_set ''level'' (YScalar (to_string (ld_level i))) n1 else n1);
          n3 = (if ld_formatter i \<noteq> [] then y_set ''formatter'' (YScalar (ld_formatter i)) n2 else n2)
      in fold (\<lambda>a n. y_push_field ''appenders'' (appender_node a) n) (ld_appenders i) n3)"

definition define_to :: "yaml_lib \<Rightarrow> log_define \<Rightarrow> exc + string" where
  "define_to lib i = Inr (yl_emit lib (define_node i))"

section \<open>The listener\<close>

text \<open>One appender of a define: made, given its level and formatter, and attached.\<close>

definition apply_appender :: "env \<Rightarrow> string \<Rightarrow> addr \<Rightarrow> log_appender_define \<Rightarrow> log_world \<Rightarrow> fault + log_world" where
  "apply_appender env name logger a w =
     (let ap = (if lad_type a = 1 then mk_file_appender env (lad_file a) else mk_stdout_appender);
          ap1 = appender_setLevel (lad_level a) ap;
          fmt = mk_formatter (lad_formatter a);
          (ap2, w1) =
            (if lad_formatter a \<noteq> [] then
               let w' = print (init_output (lad_formatter a)) w
               in if \<not> fm_error fmt then (appender_setFormatter (Some fmt) ap1, w')
                  else (ap1, print (''log.name='' @ name @ '' appender type='' @ show_int (lad_type a) @
                              '' formatter='' @ lad_formatter a @ '' is invalid'' @ newline) w')
             else (ap1, w));
          (p, w2) = new_appender ap2 w1
      in addAppender logger p w2)"

text \<open>A define that is new or has changed.\<close>

definition apply_define :: "env \<Rightarrow> log_define \<Rightarrow> log_world \<Rightarrow> fault + log_world" where
  "apply_define env i w =
     (let (logger, w1) = getLogger (ld_name i) w
      in rbind (logger_setLevel logger (ld_level i) w1) (\<lambda>w2.
           rbind (if ld_formatter i \<noteq> [] then logger_setPattern logger (ld_formatter i) w2 else Inr w2) (\<lambda>w3.
             rbind (clearAppenders logger w3)
               (rfold (apply_appender env (ld_name i) logger) (ld_appenders i)))))"

text \<open>A define that is gone: its logger gets the level \<open>(LogLevel::Level)0\<close> and no appenders.\<close>

definition retire_define :: "log_define \<Rightarrow> log_world \<Rightarrow> fault + log_world" where
  "retire_define i w =
     (let (logger, w1) = getLogger (ld_name i) w
      in rbind (logger_setLevel logger UNKNOW w1) (clearAppenders logger))"

text \<open>The callback of \<open>LogIniter\<close>: \<open>old_value\<close> and \<open>new_value\<close> are sets ordered by name.\<close>

definition on_logs_changed ::
  "env \<Rightarrow> (addr \<Rightarrow> level \<Rightarrow> log_event) \<Rightarrow> log_define list \<Rightarrow> log_define list \<Rightarrow> log_world \<Rightarrow> fault + log_world" where
  "on_logs_changed env ctx old_value new_value w =
     (case w_root w of
        None \<Rightarrow> Inl Null_deref
      | Some root \<Rightarrow>
          rbind (log_stmt env ctx root INFO ''on_logger_conf_changed'' w) (\<lambda>w1.
            rbind (rfold (\<lambda>i w.
                case os_find ld_name (ld_name i) old_value of
                  None \<Rightarrow> apply_define env i w
                | Some it \<Rightarrow> if i \<noteq> it then apply_define env i w else Inr w) new_value w1)
              (rfold (\<lambda>i w.
                case os_find ld_name (ld_name i) new_value of
                  None \<Rightarrow> retire_define i w
                | Some _ \<Rightarrow> Inr w) old_value)))"

end
