(* ===== verification/LogConfigInvariants.thy ===== *)
theory LogConfigInvariants
  imports LogConfig
begin

text \<open>Correctness of the configuration of the loggers: the text form of a define, and what
  the listener of the variable \<open>logs\<close> does to the logger manager.\<close>

section \<open>Round trip of a define\<close>

lemma wbind_simps [simp]:
  "wbind (Inl e, out) f = (Inl e, out)"
  "wbind (Inr x, out) f = (fst (f x), out @ snd (f x))"
  by (simp_all add: wbind_def split: prod.split)

lemma wret_simps [simp]: "fst (wret x) = Inr x" "snd (wret x) = []"
  by (simp_all add: wret_def)

lemma wlift_simps [simp]: "wlift (Inl e) = (Inl e, [])" "wlift (Inr x) = (Inr x, [])"
  by (simp_all add: wlift_def)

definition writable :: "log_appender_define \<Rightarrow> bool" where
  "writable a \<longleftrightarrow> lad_type a = 1 \<or> lad_type a = 2 \<and> lad_file a = []"

lemma appender_node_fields:
  assumes "writable a"
  shows "\<exists>kvs. appender_node a = YMap kvs \<and>
    y_lookup kvs ''type'' = YScalar (if lad_type a = 1 then ''FileLogAppender'' else ''StdoutLogAppender'') \<and>
    y_lookup kvs ''file'' = (if lad_type a = 1 then YScalar (lad_file a) else YUndefined) \<and>
    y_lookup kvs ''formatter'' = (if lad_formatter a = [] then YUndefined else YScalar (lad_formatter a))"
proof -
  consider "lad_type a = 1" | "lad_type a = 2" using assms by (auto simp: writable_def)
  then show ?thesis
    by cases (cases "lad_level a = UNKNOW"; cases "lad_formatter a = []"; simp add: appender_node_def)+
qed

lemma read_appender_node:
  assumes "writable a"
  shows "read_appender lib (appender_node a) = wret (Some (a\<lparr>lad_level := UNKNOW\<rparr>))"
proof -
  obtain kvs where kvs: "appender_node a = YMap kvs"
    "y_lookup kvs ''type'' = YScalar (if lad_type a = 1 then ''FileLogAppender'' else ''StdoutLogAppender'')"
    "y_lookup kvs ''file'' = (if lad_type a = 1 then YScalar (lad_file a) else YUndefined)"
    "y_lookup kvs ''formatter'' = (if lad_formatter a = [] then YUndefined else YScalar (lad_formatter a))"
    using appender_node_fields [OF assms] by blast
  have f: "wlift (field_or lib (YMap kvs) ''formatter'' []) = wret (lad_formatter a)"
    using kvs(4) by (simp add: field_or_def wret_def)
  show ?thesis using assms unfolding kvs(1) read_appender_def f
    by (cases "lad_type a = 1") (simp_all add: kvs(2,3) writable_def wret_def new_appender_define_def)
qed

lemma read_appender_nodes:
  assumes "\<forall>a\<in>set as. writable a" "\<forall>x\<in>set xs. x < length as"
  shows "read_appenders lib (YSequence (map appender_node as)) xs =
     wret (map (\<lambda>x. (as ! x)\<lparr>lad_level := UNKNOW\<rparr>) xs)"
  using assms(2) by (induction xs) (simp_all add: assms(1) read_appender_node wret_def)

lemma map_upt_nth: "map (\<lambda>x. f (xs ! x)) [0..<length xs] = map f xs"
  by (rule nth_equalityI) simp_all

lemma push_fields:
  assumes "y_lookup kvs k = YSequence ns"
  shows "\<exists>kvs'. fold (\<lambda>a n. y_push_field k (f a) n) as (YMap kvs) = YMap kvs' \<and>
    (\<forall>k'. y_lookup kvs' k' = (if k' = k then YSequence (ns @ map f as) else y_lookup kvs k'))"
  using assms
proof (induction "as" arbitrary: kvs ns)
  case Nil
  then show ?case by auto
next
  case (Cons a as)
  let ?kvs = "y_put k (y_push (f a) (y_lookup kvs k)) kvs"
  have "y_lookup ?kvs k = YSequence (ns @ [f a])" using Cons.prems by simp
  from Cons.IH [OF this] show ?case by auto
qed

lemma push_all_fields:
  assumes "y_lookup kvs k = YUndefined"
  shows "\<exists>kvs'. fold (\<lambda>a n. y_push_field k (f a) n) as (YMap kvs) = YMap kvs' \<and>
    (\<forall>k'. y_lookup kvs' k' = (if k' = k then (if as = [] then YUndefined else YSequence (map f as)) else y_lookup kvs k'))"
proof (cases "as")
  case Nil
  then show ?thesis using assms by auto
next
  case (Cons a bs)
  have "y_lookup (y_put k (y_push (f a) (y_lookup kvs k)) kvs) k = YSequence [f a]" using assms by simp
  from push_fields [OF this, of f bs] Cons show ?thesis by auto
qed

lemma define_node_fields:
  "\<exists>kvs. define_node d = YMap kvs \<and> y_lookup kvs ''name'' = YScalar (ld_name d) \<and>
    y_lookup kvs ''level'' = (if ld_level d = UNKNOW then YUndefined else YScalar (to_string (ld_level d))) \<and>
    y_lookup kvs ''formatter'' = (if ld_formatter d = [] then YUndefined else YScalar (ld_formatter d)) \<and>
    y_lookup kvs ''appenders'' = (if ld_appenders d = [] then YUndefined else YSequence (map appender_node (ld_appenders d)))"
proof -
  define n where "n = (let n1 = y_set ''name'' (YScalar (ld_name d)) YNull;
          n2 = (if ld_level d \<noteq> UNKNOW then y_set ''level'' (YScalar (to_string (ld_level d))) n1 else n1)
      in (if ld_formatter d \<noteq> [] then y_set ''formatter'' (YScalar (ld_formatter d)) n2 else n2))"
  have dn: "define_node d = fold (\<lambda>a n. y_push_field ''appenders'' (appender_node a) n) (ld_appenders d) n"
    by (simp add: define_node_def n_def Let_def)
  obtain kvs where kvs: "n = YMap kvs" "y_lookup kvs ''name'' = YScalar (ld_name d)"
    "y_lookup kvs ''level'' = (if ld_level d = UNKNOW then YUndefined else YScalar (to_string (ld_level d)))"
    "y_lookup kvs ''formatter'' = (if ld_formatter d = [] then YUndefined else YScalar (ld_formatter d))"
    "y_lookup kvs ''appenders'' = YUndefined"
    unfolding n_def
    by (cases "ld_level d = UNKNOW"; cases "ld_formatter d = []") (simp_all add: Let_def)
  from push_all_fields [OF kvs(5), of appender_node "ld_appenders d"] kvs show ?thesis
    unfolding dn kvs(1) by auto
qed

text \<open>C26. A define written to YAML and read back keeps its name, level, format and appenders with
  their kinds, files and formats, but the levels of the appenders are lost: they are written
  and never read.\<close>

theorem define_roundtrip:
  assumes "reloads lib (define_node d)" "\<forall>a\<in>set (ld_appenders d). writable a"
  shows "\<exists>s. define_to lib d = Inr s \<and>
    define_from lib s = wret (d\<lparr>ld_appenders := map (\<lambda>a. a\<lparr>lad_level := UNKNOW\<rparr>) (ld_appenders d)\<rparr>)"
proof -
  obtain kvs where kvs: "define_node d = YMap kvs" "y_lookup kvs ''name'' = YScalar (ld_name d)"
    "y_lookup kvs ''level'' = (if ld_level d = UNKNOW then YUndefined else YScalar (to_string (ld_level d)))"
    "y_lookup kvs ''formatter'' = (if ld_formatter d = [] then YUndefined else YScalar (ld_formatter d))"
    "y_lookup kvs ''appenders'' = (if ld_appenders d = [] then YUndefined else YSequence (map appender_node (ld_appenders d)))"
    using define_node_fields by blast
  have ra: "read_appenders lib (YSequence (map appender_node (ld_appenders d))) [0..<length (ld_appenders d)] =
     wret (map (\<lambda>a. a\<lparr>lad_level := UNKNOW\<rparr>) (ld_appenders d))"
    using read_appender_nodes [OF assms(2), of "[0..<length (ld_appenders d)]" lib]
    by (simp add: map_upt_nth [where f = "\<lambda>a. a\<lparr>lad_level := UNKNOW\<rparr>"])
  let ?as = "map (\<lambda>a. a\<lparr>lad_level := UNKNOW\<rparr>) (ld_appenders d)"
  have lv: "field_or lib (YMap kvs) ''level'' [] = Inr (if ld_level d = UNKNOW then [] else to_string (ld_level d))"
    using kvs(3) by (simp add: field_or_def)
  have fm: "field_or lib (YMap kvs) ''formatter'' [] = Inr (ld_formatter d)"
    using kvs(4) by (simp add: field_or_def)
  have ap: "(if y_is_defined (y_lookup kvs ''appenders'')
     then read_appenders lib (y_lookup kvs ''appenders'') [0..<y_size (y_lookup kvs ''appenders'')] else wret []) = wret ?as"
    using kvs(5) ra by simp
  have fs: "from_string (if ld_level d = UNKNOW then [] else to_string (ld_level d)) = ld_level d"
    by (cases "ld_level d = UNKNOW") (simp_all, simp add: from_string_def)
  have "yl_load lib (yl_emit lib (YMap kvs)) = Inr (YMap kvs)"
    using assms(1) by (simp add: reloads_def kvs(1))
  then have "define_from lib (yl_emit lib (YMap kvs)) = wret (d\<lparr>ld_appenders := ?as\<rparr>)"
    by (simp add: define_from_def kvs(2) lv fm ap fs del: if_split)
      (simp add: wret_def new_define_def)
  then show ?thesis by (simp add: define_to_def kvs(1))
qed


section \<open>What a define makes of a logger\<close>

text \<open>The appender a define's entry stands for, attached to the logger \<open>l\<close>.\<close>

definition own_pattern :: "string \<Rightarrow> bool" where
  "own_pattern p \<longleftrightarrow> p \<noteq> [] \<and> \<not> fm_error (mk_formatter p)"

definition configured :: "env \<Rightarrow> logger \<Rightarrow> log_appender_define \<Rightarrow> appender" where
  "configured env l d =
     (if lad_type d = 1 then mk_file_appender env (lad_file d) else mk_stdout_appender)
       \<lparr>ap_level := lad_level d,
        ap_formatter := (if own_pattern (lad_formatter d) then Some (mk_formatter (lad_formatter d)) else lg_formatter l),
        ap_hasFormatter := own_pattern (lad_formatter d)\<rparr>"

lemma fresh_appender_formatter:
  "ap_formatter mk_stdout_appender = None" "ap_hasFormatter mk_stdout_appender = False"
  "ap_formatter (mk_file_appender env f) = None" "ap_hasFormatter (mk_file_appender env f) = False"
  by (simp_all add: mk_stdout_appender_def mk_file_appender_def reopen_def Let_def)

lemma addAppender_new:
  assumes "lg < length (w_loggers w)"
  shows "addAppender lg (length (w_appenders w)) (snd (new_appender ap w)) =
    Inr (w\<lparr>w_loggers := (w_loggers w)[lg := (w_loggers w ! lg)\<lparr>lg_appenders := lg_appenders (w_loggers w ! lg) @ [length (w_appenders w)]\<rparr>],
       w_appenders := w_appenders w @
         [if ap_formatter ap = None then ap\<lparr>ap_formatter := lg_formatter (w_loggers w ! lg)\<rparr> else ap]\<rparr>)"
  using assms
  by (auto simp: addAppender_def on_logger_def on_appender_def new_appender_def hget_def hset_def halloc_def
      set_logger_def set_appender_def Let_def)

lemma apply_appender_steps:
  "\<exists>out ap. apply_appender env name lg d w = addAppender lg (length (w_appenders w)) (snd (new_appender ap (print out w))) \<and>
     (\<forall>l. (if ap_formatter ap = None then ap\<lparr>ap_formatter := lg_formatter l\<rparr> else ap) = configured env l d)"
proof -
  define ap where "ap = (if lad_type d = 1 then mk_file_appender env (lad_file d) else mk_stdout_appender)"
  have ap: "ap_formatter ap = None" "ap_hasFormatter ap = False"
    by (simp_all add: ap_def fresh_appender_formatter)
  define out where "out = (if lad_formatter d = [] then [] else init_output (lad_formatter d) @
      (if fm_error (mk_formatter (lad_formatter d))
       then ''log.name='' @ name @ '' appender type='' @ show_int (lad_type d) @ '' formatter='' @ lad_formatter d @
          '' is invalid'' @ newline else []))"
  define ap2 where "ap2 = (if own_pattern (lad_formatter d)
     then appender_setFormatter (Some (mk_formatter (lad_formatter d))) (appender_setLevel (lad_level d) ap)
     else appender_setLevel (lad_level d) ap)"
  have "apply_appender env name lg d w = addAppender lg (length (w_appenders w)) (snd (new_appender ap2 (print out w)))"
    unfolding apply_appender_def ap_def [symmetric] out_def ap2_def own_pattern_def
    by (auto simp: Let_def new_appender_def hfresh_def)
  moreover have "(if ap_formatter ap2 = None then ap2\<lparr>ap_formatter := lg_formatter l\<rparr> else ap2) = configured env l d" for l
    unfolding configured_def ap_def [symmetric] ap2_def
    using ap by (auto simp: appender_setFormatter_def appender_setLevel_def)
  ultimately show ?thesis by blast
qed

lemma apply_appender_eq:
  assumes "lg < length (w_loggers w)"
  shows "\<exists>out. apply_appender env name lg d w =
    Inr (w\<lparr>w_loggers := (w_loggers w)[lg := (w_loggers w ! lg)\<lparr>lg_appenders := lg_appenders (w_loggers w ! lg) @ [length (w_appenders w)]\<rparr>],
       w_appenders := w_appenders w @ [configured env (w_loggers w ! lg) d],
       w_stdout := w_stdout w @ out\<rparr>)"
proof -
  obtain out ap where
    s: "apply_appender env name lg d w = addAppender lg (length (w_appenders w)) (snd (new_appender ap (print out w)))"
    and conf: "\<And>l. (if ap_formatter ap = None then ap\<lparr>ap_formatter := lg_formatter l\<rparr> else ap) = configured env l d"
    using apply_appender_steps [of env name lg d w] by blast
  have "lg < length (w_loggers (print out w))" using assms by (simp add: print_def)
  from addAppender_new [OF this, of ap, unfolded conf] show ?thesis
    unfolding s by (intro exI [of _ out]) (simp add: print_def)
qed

lemma apply_appenders_eq:
  assumes "lg < length (w_loggers w)"
  shows "\<exists>w'. rfold (apply_appender env name lg) ds w = Inr w' \<and> w_names w' = w_names w \<and> w_root w' = w_root w \<and>
    w_loggers w' = (w_loggers w)[lg := (w_loggers w ! lg)\<lparr>lg_appenders := lg_appenders (w_loggers w ! lg) @
       [length (w_appenders w)..<length (w_appenders w) + length ds]\<rparr>] \<and>
    w_appenders w' = w_appenders w @ map (configured env (w_loggers w ! lg)) ds"
  using assms
proof (induction ds arbitrary: w)
  case Nil
  then show ?case by simp
next
  case (Cons d ds)
  obtain out where "apply_appender env name lg d w =
    Inr (w\<lparr>w_loggers := (w_loggers w)[lg := (w_loggers w ! lg)\<lparr>lg_appenders := lg_appenders (w_loggers w ! lg) @ [length (w_appenders w)]\<rparr>],
       w_appenders := w_appenders w @ [configured env (w_loggers w ! lg) d],
       w_stdout := w_stdout w @ out\<rparr>)" (is "_ = Inr ?w1")
    using apply_appender_eq [OF Cons.prems] by blast
  moreover have conf: "configured env (w_loggers ?w1 ! lg) = configured env (w_loggers w ! lg)"
    using Cons.prems by (intro ext) (simp add: configured_def)
  moreover have "lg < length (w_loggers ?w1)" using Cons.prems by simp
  ultimately show ?case using Cons.IH [of ?w1] Cons.prems by (auto simp: upt_conv_Cons simp del: upt_Suc)
qed

lemma inherit_all_frame:
  assumes "rfold (inherit_formatter val) as w = Inr w'"
  shows "w_names w' = w_names w \<and> w_root w' = w_root w"
  by (rule rfold_invariant [OF assms])
    (auto simp: inherit_formatter_def set_appender_def on_appender_def split: option.splits if_splits)

lemma setPattern_effect:
  assumes "mgr_inv w" "hget (w_loggers w) lg = Some l"
  shows "\<exists>w'. logger_setPattern lg p w = Inr w' \<and> w_names w' = w_names w \<and> w_root w' = w_root w \<and>
    w_loggers w' = (w_loggers w)[lg := l\<lparr>lg_formatter := (if fm_error (mk_formatter p) then lg_formatter l else Some (mk_formatter p))\<rparr>] \<and>
    length (w_appenders w') = length (w_appenders w) \<and>
    (\<forall>a < length (w_appenders w). a \<notin> set (lg_appenders l) \<longrightarrow> w_appenders w' ! a = w_appenders w ! a)"
proof (cases "fm_error (mk_formatter p)")
  case True
  have "(w_loggers w)[lg := l\<lparr>lg_formatter := lg_formatter l\<rparr>] = w_loggers w"
    using assms(2) by (auto simp: hget_Some_iff)
  then show ?thesis using True assms(2) by (simp add: logger_setPattern_def on_logger_def Let_def print_def)
next
  case False
  let ?w = "set_logger lg (l\<lparr>lg_formatter := Some (mk_formatter p)\<rparr>) (print (init_output p) w)"
  have alloc: "\<forall>a\<in>set (lg_appenders l). a < length (w_appenders ?w)"
    using ptrs_invD [OF mgr_inv_ptrs [OF assms(1)] assms(2)] by (auto simp: has_formatter_def print_def)
  have "\<exists>w'. rfold (inherit_formatter (Some (mk_formatter p))) (lg_appenders l) ?w = Inr w' \<and>
      length (w_appenders w') = length (w_appenders ?w)"
    by (rule rfold_total) (use alloc in \<open>auto simp: inherit_formatter_eq\<close>)
  then obtain w' where w': "rfold (inherit_formatter (Some (mk_formatter p))) (lg_appenders l) ?w = Inr w'" by blast
  then have "logger_setPattern lg p w = Inr w'"
    using False assms(2) by (simp add: logger_setPattern_def logger_setFormatter_def on_logger_def Let_def print_def)
  then show ?thesis using False inherit_all [OF w'] inherit_all_frame [OF w']
    by (auto simp: hset_def print_def)
qed

text \<open>The logger of a name as a define leaves it.\<close>

definition logger_named :: "string \<Rightarrow> log_world \<Rightarrow> logger option" where
  "logger_named n w = (case om_find (w_names w) n of None \<Rightarrow> None | Some a \<Rightarrow> hget (w_loggers w) a)"


text \<open>
  The appenders of a logger are its own when no other logger has one of them attached.
\<close>

definition own_appenders :: "log_world \<Rightarrow> addr \<Rightarrow> bool" where
  "own_appenders w a \<longleftrightarrow> (\<forall>b < length (w_loggers w). b \<noteq> a \<longrightarrow>
     set (lg_appenders (w_loggers w ! b)) \<inter> set (lg_appenders (w_loggers w ! a)) = {})"

definition define_applied :: "env \<Rightarrow> log_define \<Rightarrow> log_world \<Rightarrow> bool" where
  "define_applied env i w \<longleftrightarrow>
     (\<exists>a l. om_find (w_names w) (ld_name i) = Some a \<and> hget (w_loggers w) a = Some l \<and>
        lg_level l = ld_level i \<and>
        (own_pattern (ld_formatter i) \<longrightarrow> lg_formatter l = Some (mk_formatter (ld_formatter i))) \<and>
        map (hget (w_appenders w)) (lg_appenders l) = map (Some \<circ> configured env l) (ld_appenders i) \<and>
        own_appenders w a)"

definition retired :: "string \<Rightarrow> log_world \<Rightarrow> bool" where
  "retired n w \<longleftrightarrow> (\<exists>l. logger_named n w = Some l \<and> lg_level l = UNKNOW \<and> lg_appenders l = [])"

text \<open>
  What both branches of the listener do to the world, seen from outside: one named logger
  is replaced, appenders are added, and appenders of other loggers stay as they are.
\<close>

definition one_logger_changed :: "string \<Rightarrow> log_world \<Rightarrow> log_world \<Rightarrow> bool" where
  "one_logger_changed n w w' \<longleftrightarrow> mgr_inv w' \<and> w_root w' = w_root w \<and>
     length (w_loggers w) \<le> length (w_loggers w') \<and> length (w_appenders w) \<le> length (w_appenders w') \<and>
     (\<forall>m. m \<noteq> n \<longrightarrow> om_find (w_names w') m = om_find (w_names w) m) \<and>
     (\<exists>a. om_find (w_names w') n = Some a \<and>
        (\<forall>b < length (w_loggers w'). b \<noteq> a \<longrightarrow> b < length (w_loggers w) \<and> w_loggers w' ! b = w_loggers w ! b) \<and>
        set (lg_appenders (w_loggers w' ! a)) \<subseteq> {length (w_appenders w)..<length (w_appenders w')} \<and>
        (\<forall>p < length (w_appenders w). (\<exists>b < length (w_loggers w). b \<noteq> a \<and> p \<in> set (lg_appenders (w_loggers w ! b)) \<and>
            (a < length (w_loggers w) \<longrightarrow> p \<notin> set (lg_appenders (w_loggers w ! a)))) \<longrightarrow>
           w_appenders w' ! p = w_appenders w ! p))"

lemma names_invD:
  assumes "mgr_inv w" "om_find (w_names w) n = Some a"
  shows "a < length (w_loggers w)" "lg_name (w_loggers w ! a) = n"
  using assms by (auto simp: mgr_inv_def names_inv_def)

lemma appenders_allocated:
  "mgr_inv w \<Longrightarrow> b < length (w_loggers w) \<Longrightarrow> p \<in> set (lg_appenders (w_loggers w ! b)) \<Longrightarrow> p < length (w_appenders w)"
  by (auto simp: mgr_inv_def ptrs_inv_def has_formatter_def)

lemma one_logger_changed_keeps:
  assumes "mgr_inv w" "one_logger_changed n w w'" "m \<noteq> n"
  shows "logger_named m w' = logger_named m w"
    and "define_applied env i w \<Longrightarrow> ld_name i = m \<Longrightarrow> define_applied env i w'"
proof -
  from assms(2) obtain a where inv: "mgr_inv w'" and len: "length (w_appenders w) \<le> length (w_appenders w')"
      "length (w_loggers w) \<le> length (w_loggers w')"
    and nm: "\<forall>m. m \<noteq> n \<longrightarrow> om_find (w_names w') m = om_find (w_names w) m" and a: "om_find (w_names w') n = Some a"
    and other: "\<forall>b < length (w_loggers w'). b \<noteq> a \<longrightarrow> b < length (w_loggers w) \<and> w_loggers w' ! b = w_loggers w ! b"
    and fresh: "set (lg_appenders (w_loggers w' ! a)) \<subseteq> {length (w_appenders w)..<length (w_appenders w')}"
    and kept: "\<forall>p < length (w_appenders w). (\<exists>b < length (w_loggers w). b \<noteq> a \<and> p \<in> set (lg_appenders (w_loggers w ! b)) \<and>
            (a < length (w_loggers w) \<longrightarrow> p \<notin> set (lg_appenders (w_loggers w ! a)))) \<longrightarrow>
           w_appenders w' ! p = w_appenders w ! p"
    unfolding one_logger_changed_def by blast
  have ne: "b \<noteq> a \<and> b < length (w_loggers w)" if "om_find (w_names w) m = Some b" for b
    using names_invD [OF inv a] names_invD [OF assms(1) that] names_invD [OF inv, of m b] nm assms(3) that by auto
  show "logger_named m w' = logger_named m w"
    using ne other nm assms(3) len by (auto simp: logger_named_def hget_def split: option.splits)
  assume da: "define_applied env i w" and im: "ld_name i = m"
  then obtain b l where b: "om_find (w_names w) m = Some b" "hget (w_loggers w) b = Some l"
      and l: "lg_level l = ld_level i" "own_pattern (ld_formatter i) \<longrightarrow> lg_formatter l = Some (mk_formatter (ld_formatter i))"
        "map (hget (w_appenders w)) (lg_appenders l) = map (Some \<circ> configured env l) (ld_appenders i)"
      and own: "own_appenders w b"
    unfolding define_applied_def by blast
  have lb: "b < length (w_loggers w)" "w_loggers w ! b = l" using b(2) by (auto simp: hget_Some_iff)
  have b': "hget (w_loggers w') b = Some l" using ne [OF b(1)] other lb len by (simp add: hget_Some_iff)
  have "hget (w_appenders w') p = hget (w_appenders w) p" if p: "p \<in> set (lg_appenders l)" for p
  proof -
    have "p < length (w_appenders w)" using appenders_allocated [OF assms(1) lb(1)] p lb(2) by simp
    moreover have "a < length (w_loggers w) \<longrightarrow> p \<notin> set (lg_appenders (w_loggers w ! a))"
      using own p lb(2) ne [OF b(1)] by (auto simp: own_appenders_def)
    ultimately have "w_appenders w' ! p = w_appenders w ! p"
      using kept p lb ne [OF b(1)] by blast
    then show ?thesis using \<open>p < length (w_appenders w)\<close> len by (simp add: hget_def)
  qed
  then have "map (hget (w_appenders w')) (lg_appenders l) = map (Some \<circ> configured env l) (ld_appenders i)"
    using l(3) by (metis (no_types, lifting) map_eq_conv)
  moreover have "own_appenders w' b"
    unfolding own_appenders_def
  proof (intro allI impI)
    fix c assume c: "c < length (w_loggers w')" "c \<noteq> b"
    have lb': "w_loggers w' ! b = l" using b' by (simp add: hget_Some_iff)
    have old: "set (lg_appenders l) \<subseteq> {..<length (w_appenders w)}"
      using appenders_allocated [OF assms(1) lb(1)] lb(2) by auto
    show "set (lg_appenders (w_loggers w' ! c)) \<inter> set (lg_appenders (w_loggers w' ! b)) = {}"
    proof (cases "c = a")
      case True
      then show ?thesis using fresh old unfolding lb' by fastforce
    next
      case False
      then show ?thesis using own other c lb lb' by (auto simp: own_appenders_def)
    qed
  qed
  ultimately show "define_applied env i w'"
    using b(1) b' l(1,2) nm assms(3) im unfolding define_applied_def by auto
qed


lemma mgr_inv_apply_appender:
  assumes "mgr_inv w" "apply_appender env name lg d w = Inr w'"
  shows "mgr_inv w'"
proof -
  obtain out ap where
    "apply_appender env name lg d w = addAppender lg (length (w_appenders w)) (snd (new_appender ap (print out w)))"
    using apply_appender_steps by blast
  then show ?thesis
    using assms mgr_inv_addAppender [OF mgr_inv_new_appender, of "print out w"] by auto
qed

lemma getLogger_effect:
  assumes "mgr_inv w" "getLogger n w = (a, w')"
  shows "mgr_inv w'" "w_root w' = w_root w" "w_appenders w' = w_appenders w"
    "length (w_loggers w) \<le> length (w_loggers w')" "\<forall>m. m \<noteq> n \<longrightarrow> om_find (w_names w') m = om_find (w_names w) m"
    "om_find (w_names w') n = Some a" "a < length (w_loggers w')"
    "\<forall>b < length (w_loggers w'). b \<noteq> a \<longrightarrow> b < length (w_loggers w)"
    "\<forall>b < length (w_loggers w). w_loggers w' ! b = w_loggers w ! b"
proof -
  show "mgr_inv w'" using mgr_inv_getLogger [OF assms(1), of n] assms(2) by simp
  show "w_root w' = w_root w" "w_appenders w' = w_appenders w" "length (w_loggers w) \<le> length (w_loggers w')"
    "\<forall>m. m \<noteq> n \<longrightarrow> om_find (w_names w') m = om_find (w_names w) m"
    "om_find (w_names w') n = Some a"
    "\<forall>b < length (w_loggers w'). b \<noteq> a \<longrightarrow> b < length (w_loggers w)"
    "\<forall>b < length (w_loggers w). w_loggers w' ! b = w_loggers w ! b"
    using assms(2) by (auto simp: getLogger_cases om_find_set nth_append split: option.splits)
  then show "a < length (w_loggers w')" using names_invD(1) [OF \<open>mgr_inv w'\<close>] by blast
qed

text \<open>From any point of the branch on, the logger at \<open>a\<close> is the only one that differs.\<close>

lemma one_logger_changedI:
  assumes w: "mgr_inv w" and g: "getLogger n w = (a, w1)"
    and w': "mgr_inv w'" "w_root w' = w_root w1" "w_names w' = w_names w1"
      "w_loggers w' = (w_loggers w1)[a := l']"
    and aps: "length (w_appenders w1) \<le> length (w_appenders w')"
      "\<forall>p < length (w_appenders w1). p \<notin> set (lg_appenders (w_loggers w1 ! a)) \<longrightarrow> w_appenders w' ! p = w_appenders w1 ! p"
      "set (lg_appenders l') \<subseteq> {length (w_appenders w1)..<length (w_appenders w')}"
  shows "one_logger_changed n w w'" "own_appenders w' a"
proof -
  note ge = getLogger_effect [OF w g]
  have new: "p \<notin> set (lg_appenders (w_loggers w1 ! a))"
    if "b < length (w_loggers w)" "b \<noteq> a" "p \<in> set (lg_appenders (w_loggers w ! b))"
      "a < length (w_loggers w) \<longrightarrow> p \<notin> set (lg_appenders (w_loggers w ! a))" for p b
  proof (cases "a < length (w_loggers w)")
    case True
    then show ?thesis using that ge(9) by simp
  next
    case False
    then have "om_find (w_names w) n = None"
      using g names_invD(1) [OF w] by (auto simp: getLogger_cases split: option.splits)
    then have "lg_appenders (w_loggers w1 ! a) = []" using g by (auto simp: getLogger_cases)
    then show ?thesis by simp
  qed
  show "one_logger_changed n w w'"
    unfolding one_logger_changed_def
  proof (intro conjI exI [of _ a])
    show "\<forall>b < length (w_loggers w'). b \<noteq> a \<longrightarrow> b < length (w_loggers w) \<and> w_loggers w' ! b = w_loggers w ! b"
      using w'(4) ge(8,9) by auto
    show "\<forall>p < length (w_appenders w). (\<exists>b < length (w_loggers w). b \<noteq> a \<and> p \<in> set (lg_appenders (w_loggers w ! b)) \<and>
            (a < length (w_loggers w) \<longrightarrow> p \<notin> set (lg_appenders (w_loggers w ! a)))) \<longrightarrow>
           w_appenders w' ! p = w_appenders w ! p"
      using aps(2) new ge(3) by fastforce
  qed (use w' ge aps in auto)
  show "own_appenders w' a"
    unfolding own_appenders_def
  proof (intro allI impI)
    fix b assume b: "b < length (w_loggers w')" "b \<noteq> a"
    then have "set (lg_appenders (w_loggers w' ! b)) \<subseteq> {..<length (w_appenders w1)}"
      using appenders_allocated [OF ge(1), of b] w'(4) by auto
    then show "set (lg_appenders (w_loggers w' ! b)) \<inter> set (lg_appenders (w_loggers w' ! a)) = {}"
      using aps(3) w'(4) ge(7) by fastforce
  qed
qed

lemma retire_define_effect:
  assumes "mgr_inv w"
  shows "\<exists>w'. retire_define i w = Inr w' \<and> one_logger_changed (ld_name i) w w' \<and> retired (ld_name i) w'"
proof -
  obtain a w1 where g: "getLogger (ld_name i) w = (a, w1)" by (rule prod.exhaust)
  note ge = getLogger_effect [OF assms g]
  let ?l = "(w_loggers w1 ! a)\<lparr>lg_level := UNKNOW, lg_appenders := []\<rparr>"
  let ?w = "set_logger a ?l w1"
  have r: "retire_define i w = Inr ?w"
    using ge(7) by (simp add: retire_define_def g logger_setLevel_def clearAppenders_def on_logger_def hget_def
        set_logger_def hset_def)
  have inv: "mgr_inv ?w"
    using ptrs_invD [OF mgr_inv_ptrs [OF ge(1)], of a "w_loggers w1 ! a"] ge(7)
    by (intro mgr_inv_set_logger [OF ge(1), of a "w_loggers w1 ! a"]) (auto simp: hget_def)
  have "one_logger_changed (ld_name i) w ?w"
    by (rule one_logger_changedI(1) [OF assms g inv, where l' = ?l]) (simp_all add: hset_def)
  moreover have "retired (ld_name i) ?w"
    using ge(6,7) by (simp add: retired_def logger_named_def hget_def hset_def)
  ultimately show ?thesis using r by blast
qed


text \<open>The optional change of the formatter.\<close>

lemma pattern_step:
  assumes "mgr_inv w" "hget (w_loggers w) lg = Some l"
  shows "\<exists>w' f. (if p \<noteq> [] then logger_setPattern lg p w else Inr w) = Inr w' \<and> mgr_inv w' \<and>
    w_names w' = w_names w \<and> w_root w' = w_root w \<and>
    w_loggers w' = (w_loggers w)[lg := l\<lparr>lg_formatter := f\<rparr>] \<and> f \<noteq> None \<and>
    (own_pattern p \<longrightarrow> f = Some (mk_formatter p)) \<and> length (w_appenders w') = length (w_appenders w) \<and>
    (\<forall>a < length (w_appenders w). a \<notin> set (lg_appenders l) \<longrightarrow> w_appenders w' ! a = w_appenders w ! a)"
proof -
  have f: "lg_formatter l \<noteq> None" using ptrs_invD [OF mgr_inv_ptrs [OF assms(1)] assms(2)] by simp
  show ?thesis
  proof (cases "p = []")
    case True
    have "w_loggers w = (w_loggers w)[lg := l\<lparr>lg_formatter := lg_formatter l\<rparr>]"
      using assms(2) by (auto simp: hget_Some_iff)
    then show ?thesis using True assms(1) f
      by (intro exI [of _ w] exI [of _ "lg_formatter l"]) (simp add: own_pattern_def)
  next
    case False
    let ?f = "if fm_error (mk_formatter p) then lg_formatter l else Some (mk_formatter p)"
    from setPattern_effect [OF assms, of p] obtain w' where w': "logger_setPattern lg p w = Inr w'"
      "w_names w' = w_names w \<and> w_root w' = w_root w \<and> w_loggers w' = (w_loggers w)[lg := l\<lparr>lg_formatter := ?f\<rparr>] \<and>
       length (w_appenders w') = length (w_appenders w) \<and>
       (\<forall>a < length (w_appenders w). a \<notin> set (lg_appenders l) \<longrightarrow> w_appenders w' ! a = w_appenders w ! a)"
      by blast
    with False f mgr_inv_setPattern [OF assms(1) w'(1)] show ?thesis
      by (intro exI [of _ w'] exI [of _ ?f]) (auto simp: own_pattern_def)
  qed
qed

lemma configured_cong: "lg_formatter l = lg_formatter l' \<Longrightarrow> configured env l = configured env l'"
  by (rule ext) (simp add: configured_def)

interpretation attaching: keeps "apply_appender env name lg" mgr_inv for env name lg
  by unfold_locales (rule mgr_inv_apply_appender)

lemma apply_define_effect:
  assumes "mgr_inv w"
  shows "\<exists>w'. apply_define env i w = Inr w' \<and> one_logger_changed (ld_name i) w w' \<and> define_applied env i w'"
proof -
  obtain a w1 where g: "getLogger (ld_name i) w = (a, w1)" by (rule prod.exhaust)
  note ge = getLogger_effect [OF assms g]
  let ?l1 = "w_loggers w1 ! a" and ?l2 = "(w_loggers w1 ! a)\<lparr>lg_level := ld_level i\<rparr>"
  have h1: "hget (w_loggers w1) a = Some ?l1" using ge(7) by (simp add: hget_def)
  let ?w2 = "set_logger a ?l2 w1"
  have s2: "logger_setLevel a (ld_level i) w1 = Inr ?w2" by (simp add: logger_setLevel_def on_logger_def h1)
  have inv2: "mgr_inv ?w2" by (rule mgr_inv_setLevel [OF ge(1) s2])
  have h2: "hget (w_loggers ?w2) a = Some ?l2" using ge(7) by (simp add: hget_def hset_def)
  from pattern_step [OF inv2 h2, of "ld_formatter i"] obtain w3 f where
    s3: "(if ld_formatter i \<noteq> [] then logger_setPattern a (ld_formatter i) ?w2 else Inr ?w2) = Inr w3" and inv3: "mgr_inv w3"
    and w3: "w_names w3 = w_names w1" "w_root w3 = w_root w1" "w_loggers w3 = (w_loggers w1)[a := ?l2\<lparr>lg_formatter := f\<rparr>]"
    and f: "own_pattern (ld_formatter i) \<longrightarrow> f = Some (mk_formatter (ld_formatter i))"
    and aps3: "length (w_appenders w3) = length (w_appenders w1)"
      "\<forall>p < length (w_appenders w1). p \<notin> set (lg_appenders ?l1) \<longrightarrow> w_appenders w3 ! p = w_appenders w1 ! p"
    by (auto simp: hset_def)
  let ?l4 = "?l2\<lparr>lg_formatter := f, lg_appenders := []\<rparr>"
  let ?w4 = "set_logger a ?l4 w3"
  have s4: "clearAppenders a w3 = Inr ?w4"
    using ge(7) by (simp add: clearAppenders_def on_logger_def hget_def w3(3))
  have l4: "w_loggers ?w4 = (w_loggers w1)[a := ?l4]" "w_loggers ?w4 ! a = ?l4" "a < length (w_loggers ?w4)"
    using ge(7) by (simp_all add: w3(3) hset_def)
  let ?n = "length (w_appenders w1)" and ?k = "length (ld_appenders i)"
  let ?l' = "?l4\<lparr>lg_appenders := [?n..<?n + ?k]\<rparr>"
  from apply_appenders_eq [OF l4(3), of env "ld_name i" "ld_appenders i"] obtain w' where
    s': "rfold (apply_appender env (ld_name i) a) (ld_appenders i) ?w4 = Inr w'"
    and w': "w_names w' = w_names w1" "w_root w' = w_root w1" "w_loggers w' = (w_loggers w1)[a := ?l']"
      "w_appenders w' = w_appenders w3 @ map (configured env ?l4) (ld_appenders i)"
    unfolding l4(1,2) using w3(1,2) aps3(1) ge(7) by auto
  have run: "apply_define env i w = Inr w'"
    using s3 by (simp add: apply_define_def g s2 s4 s')
  have "mgr_inv w'"
    by (rule attaching.loop_keeps [OF s' mgr_inv_clearAppenders [OF inv3 s4]])
  then have ch: "one_logger_changed (ld_name i) w w'" and own: "own_appenders w' a"
    by (rule one_logger_changedI [OF assms g, where l' = ?l'];
        use w' aps3 in \<open>simp add: nth_append\<close>)+
  have "map (hget (w_appenders w')) [?n..<?n + ?k] = map (Some \<circ> configured env ?l') (ld_appenders i)"
    using aps3(1) w'(4) configured_cong [of ?l4 ?l' env]
    by (intro nth_equalityI) (simp_all add: hget_def nth_append)
  then have "define_applied env i w'"
    unfolding define_applied_def using ge(6,7) w'(1,3) own f
    by (intro exI [of _ a] exI [of _ ?l']) (simp add: hget_def)
  then show ?thesis using run ch by blast
qed

section \<open>The listener as a whole\<close>

text \<open>
  The contract of a loop over defines: a selected define changes one logger and what it is to bring
  about holds and stays, the others are passed over.
\<close>

locale define_loop =
  fixes env :: env and body :: "log_define \<Rightarrow> log_world \<Rightarrow> fault + log_world"
    and sel :: "log_define \<Rightarrow> bool" and Q :: "log_define \<Rightarrow> log_world \<Rightarrow> bool"
  assumes step: "mgr_inv w \<Longrightarrow> sel i \<Longrightarrow> \<exists>w'. body i w = Inr w' \<and> one_logger_changed (ld_name i) w w' \<and> Q i w'"
    and skip: "\<not> sel i \<Longrightarrow> body i w = Inr w"
    and keep: "mgr_inv w \<Longrightarrow> one_logger_changed n w w' \<Longrightarrow> ld_name i \<noteq> n \<Longrightarrow> Q i w \<Longrightarrow> Q i w'"
begin

lemma run:
  assumes "distinct (map ld_name ds)" "mgr_inv w"
  shows "\<exists>w'. rfold body ds w = Inr w' \<and> mgr_inv w' \<and> w_root w' = w_root w \<and>
    (\<forall>i\<in>set ds. sel i \<longrightarrow> Q i w') \<and>
    (\<forall>m. (\<forall>i\<in>set ds. sel i \<longrightarrow> ld_name i \<noteq> m) \<longrightarrow> logger_named m w' = logger_named m w) \<and>
    (\<forall>i. (\<forall>j\<in>set ds. sel j \<longrightarrow> ld_name j \<noteq> ld_name i) \<longrightarrow> define_applied env i w \<longrightarrow> define_applied env i w') \<and>
    (\<forall>i. (\<forall>j\<in>set ds. sel j \<longrightarrow> ld_name j \<noteq> ld_name i) \<longrightarrow> Q i w \<longrightarrow> Q i w')"
  using assms
proof (induction ds arbitrary: w)
  case Nil
  then show ?case by simp
next
  case (Cons d ds)
  show ?case
  proof (cases "sel d")
    case False
    then have "body d w = Inr w" using skip by simp
    moreover have "distinct (map ld_name ds)" using Cons.prems(1) by simp
    ultimately show ?thesis using Cons.IH [OF _ Cons.prems(2)] False by simp
  next
    case True
    then obtain w1 where w1: "body d w = Inr w1" "one_logger_changed (ld_name d) w w1" "Q d w1"
      using step [OF Cons.prems(2)] by blast
    have inv1: "mgr_inv w1" "w_root w1 = w_root w" using w1(2) by (simp_all add: one_logger_changed_def)
    have notin: "\<forall>j\<in>set ds. ld_name j \<noteq> ld_name d" using Cons.prems(1) by (simp add: image_iff) metis
    from Cons.IH [OF _ inv1(1)] Cons.prems(1) obtain w' where
      w': "rfold body ds w1 = Inr w'" "mgr_inv w'" "w_root w' = w_root w1" "\<forall>i\<in>set ds. sel i \<longrightarrow> Q i w'"
      "\<forall>m. (\<forall>i\<in>set ds. sel i \<longrightarrow> ld_name i \<noteq> m) \<longrightarrow> logger_named m w' = logger_named m w1"
      "\<forall>i. (\<forall>j\<in>set ds. sel j \<longrightarrow> ld_name j \<noteq> ld_name i) \<longrightarrow> define_applied env i w1 \<longrightarrow> define_applied env i w'"
      "\<forall>i. (\<forall>j\<in>set ds. sel j \<longrightarrow> ld_name j \<noteq> ld_name i) \<longrightarrow> Q i w1 \<longrightarrow> Q i w'"
      by auto
    note k = one_logger_changed_keeps [OF Cons.prems(2) w1(2)]
    have "rfold body (d # ds) w = Inr w'" using w1(1) w'(1) by simp
    moreover have "Q d w'" using w'(7) w1(3) notin by blast
    moreover have "logger_named m w' = logger_named m w" if "\<forall>i\<in>set (d # ds). sel i \<longrightarrow> ld_name i \<noteq> m" for m
      using that True w'(5) k(1) [of m] by auto
    moreover have "define_applied env i w'" if "\<forall>j\<in>set (d # ds). sel j \<longrightarrow> ld_name j \<noteq> ld_name i" "define_applied env i w" for i
    proof -
      have "ld_name i \<noteq> ld_name d" using that(1) True by auto
      from k(2) [OF this that(2) refl] show ?thesis using w'(6) that(1) by simp
    qed
    moreover have "Q i w'" if "\<forall>j\<in>set (d # ds). sel j \<longrightarrow> ld_name j \<noteq> ld_name i" "Q i w" for i
    proof -
      have "ld_name i \<noteq> ld_name d" using that(1) True by auto
      from keep [OF Cons.prems(2) w1(2) this that(2)] show ?thesis using w'(7) that(1) by simp
    qed
    moreover have "\<forall>i\<in>set (d # ds). sel i \<longrightarrow> Q i w'" using calculation(2) w'(4) by simp
    ultimately show ?thesis using w'(2,3) inv1(2) 
      by (intro exI [of _ w'] conjI allI impI) (blast | simp)+
  qed
qed

end

lemma os_find_mem: "os_sorted f ys \<Longrightarrow> os_find f (f x) ys = Some x \<longleftrightarrow> x \<in> set ys"
  by (auto simp: os_find_sorted dest: os_find_Some)

lemma os_sorted_distinct: "os_sorted f xs \<Longrightarrow> distinct (map f xs)"
  by (simp add: os_sorted_def strict_sorted_iff)

text \<open>The statement at the top of the listener returns and leaves the configuration alone.\<close>

definition event_context :: "(addr \<Rightarrow> level \<Rightarrow> log_event) \<Rightarrow> bool" where
  "event_context ctx \<longleftrightarrow> (\<forall>lg l. ev_logger (ctx lg l) = lg \<and> ev_level (ctx lg l) = l)"

lemma log_stmt_root:
  assumes "mgr_inv w" "w_root w = Some r" "lg_appenders (w_loggers w ! r) \<noteq> []" "dates_fit env"
    and "event_context ctx"
  shows "\<exists>w1. log_stmt env ctx r level s w = Inr w1 \<and> same_config w w1"
proof -
  have root: "om_find (w_names w) ''root'' = Some r" "r < length (w_loggers w)"
    using assms(1,2) by (auto simp: mgr_inv_def names_inv_def)
  obtain w1 where "logger_log env [] r level (ss_write s (ctx r level)) w = Inr w1"
    using log_never_faults_inv [OF assms(1) root(1) assms(2-4)] by blast
  moreover have "ev_logger (ss_write s (ctx r level)) = r" "ev_level (ss_write s (ctx r level)) = level"
    using assms(5) by (simp_all add: event_context_def ss_write_def)
  ultimately show ?thesis using root(2)
    by (auto simp: log_stmt_def on_logger_def hget_def wrap_dtor_def intro: logger_log_same_config)
qed

lemma same_config_named: "same_config w w' \<Longrightarrow> logger_named m w' = logger_named m w"
  by (simp add: same_config_def logger_named_def split: option.split)

text \<open>The two loops of the listener.\<close>

abbreviation apply_changed :: "env \<Rightarrow> log_define list \<Rightarrow> log_define \<Rightarrow> log_world \<Rightarrow> fault + log_world" where
  "apply_changed env old \<equiv> \<lambda>i w. case os_find ld_name (ld_name i) old of None \<Rightarrow> apply_define env i w
      | Some it \<Rightarrow> if i \<noteq> it then apply_define env i w else Inr w"

abbreviation retire_missing :: "log_define list \<Rightarrow> log_define \<Rightarrow> log_world \<Rightarrow> fault + log_world" where
  "retire_missing new \<equiv> \<lambda>i w. case os_find ld_name (ld_name i) new of None \<Rightarrow> retire_define i w | Some _ \<Rightarrow> Inr w"

interpretation applying: define_loop env "apply_changed env old" "\<lambda>i. os_find ld_name (ld_name i) old \<noteq> Some i"
    "define_applied env" for env old
  by unfold_locales
    (auto split: option.split intro: apply_define_effect one_logger_changed_keeps(2))

interpretation retiring: define_loop env "retire_missing new" "\<lambda>i. os_find ld_name (ld_name i) new = None"
    "\<lambda>i. retired (ld_name i)" for env new
proof (unfold_locales, goal_cases)
  case (1 w i)
  then show ?case using retire_define_effect [OF 1(1)] by simp
next
  case (2 i w)
  then show ?case by (auto split: option.split)
next
  case (3 w n w' i)
  then show ?case using one_logger_changed_keeps(1) by (simp add: retired_def)
qed

lemma logs_changed_effect:
  assumes "mgr_inv w" "w_root w = Some r" "lg_appenders (w_loggers w ! r) \<noteq> []" "dates_fit env"
    and "event_context ctx" "os_sorted ld_name old" "os_sorted ld_name new"
  shows "\<exists>w'. on_logs_changed env ctx old new w = Inr w' \<and> mgr_inv w' \<and> w_root w' = Some r \<and>
    (\<forall>i\<in>set new - set old. define_applied env i w') \<and>
    (\<forall>i\<in>set old. ld_name i \<notin> ld_name ` set new \<longrightarrow> retired (ld_name i) w') \<and>
    (\<forall>m. m \<notin> ld_name ` (set new - set old) \<and> m \<notin> ld_name ` set old - ld_name ` set new \<longrightarrow>
       logger_named m w' = logger_named m w)"
proof -
  obtain w1 where w1: "log_stmt env ctx r INFO ''on_logger_conf_changed'' w = Inr w1" "same_config w w1"
    using log_stmt_root [OF assms(1-5)] by blast
  have inv1: "mgr_inv w1" using mgr_inv_same_config [OF w1(2)] assms(1) by simp
  have root1: "w_root w1 = Some r" using w1(2) assms(2) by (simp add: same_config_def)
  have mem: "os_find ld_name (ld_name i) old \<noteq> Some i \<longleftrightarrow> i \<notin> set old" for i by (simp add: os_find_mem [OF assms(6)])
  from applying.run [OF os_sorted_distinct [OF assms(7)] inv1, where env = env and old = old, unfolded mem] obtain w2 where
    w2: "rfold (apply_changed env old) new w1 = Inr w2" "mgr_inv w2" "w_root w2 = w_root w1"
    "\<forall>i\<in>set new. i \<notin> set old \<longrightarrow> define_applied env i w2"
    "\<forall>m. (\<forall>i\<in>set new. i \<notin> set old \<longrightarrow> ld_name i \<noteq> m) \<longrightarrow> logger_named m w2 = logger_named m w1" by blast
  from retiring.run [OF os_sorted_distinct [OF assms(6)] w2(2), where env = env and new = new, unfolded os_find_None] obtain w3 where
    w3: "rfold (retire_missing new) old w2 = Inr w3" "mgr_inv w3" "w_root w3 = w_root w2"
    "\<forall>i\<in>set old. ld_name i \<notin> ld_name ` set new \<longrightarrow> retired (ld_name i) w3"
    "\<forall>m. (\<forall>i\<in>set old. ld_name i \<notin> ld_name ` set new \<longrightarrow> ld_name i \<noteq> m) \<longrightarrow> logger_named m w3 = logger_named m w2"
    "\<forall>i. (\<forall>j\<in>set old. ld_name j \<notin> ld_name ` set new \<longrightarrow> ld_name j \<noteq> ld_name i) \<longrightarrow> define_applied env i w2 \<longrightarrow> define_applied env i w3"
    by blast
  have "on_logs_changed env ctx old new w = Inr w3"
    using assms(2) w1(1) w2(1) w3(1) by (simp add: on_logs_changed_def)
  moreover have "\<forall>i\<in>set new - set old. define_applied env i w3"
    using w2(4) w3(6) by (metis DiffD1 DiffD2 image_eqI)
  moreover have "logger_named m w3 = logger_named m w"
    if "m \<notin> ld_name ` (set new - set old) \<and> m \<notin> ld_name ` set old - ld_name ` set new" for m
  proof -
    have "logger_named m w3 = logger_named m w2"
      by (rule w3(5) [rule_format]) (use that in auto)
    also have "\<dots> = logger_named m w1" by (rule w2(5) [rule_format]) (use that in auto)
    finally show ?thesis using same_config_named [OF w1(2), of m] by simp
  qed
  ultimately show ?thesis using w2(3) w3 root1 by auto
qed


text \<open>C18. When the set of defines changes, every define that is new or different is what its logger
  then is (level, valid formatter, and one private appender per entry, in order, with the
  entry's kind, level and format), a define that is gone leaves its logger at level
  \<open>UNKNOW\<close> without appenders, every other logger is untouched, and no call faults, as long as
  the root logger still has an appender when the listener starts.\<close>

theorem logs_changed_applies:
  assumes "log_reachable w" "w_root w = Some r" "lg_appenders (w_loggers w ! r) \<noteq> []" "dates_fit env"
    and "event_context ctx" "os_sorted ld_name old" "os_sorted ld_name new"
  shows "\<exists>w'. on_logs_changed env ctx old new w = Inr w' \<and> mgr_inv w' \<and> w_root w' = Some r \<and>
    (\<forall>i\<in>set new - set old. define_applied env i w') \<and>
    (\<forall>i\<in>set old. ld_name i \<notin> ld_name ` set new \<longrightarrow> retired (ld_name i) w') \<and>
    (\<forall>m. m \<notin> ld_name ` (set new - set old) \<and> m \<notin> ld_name ` set old - ld_name ` set new \<longrightarrow>
       logger_named m w' = logger_named m w)"
  by (rule logs_changed_effect [OF reachable_inv [OF assms(1)] assms(2-7)])

text \<open>A logger whose define was removed is not disabled: it is at the lowest level and without
  appenders, so that every event of any level is printed by the root logger.\<close>

theorem retired_logger_prints_through_root:
  assumes "log_reachable w" "w_root w = Some r" "lg_appenders (w_loggers w ! r) \<noteq> []" "dates_fit env"
    and "event_context ctx" "os_sorted ld_name old" "os_sorted ld_name new"
    and "i \<in> set old" "ld_name i \<notin> ld_name ` set new" "ld_name i \<noteq> ''root''"
    and "on_logs_changed env ctx old new w = Inr w'"
  shows "\<exists>a. om_find (w_names w') (ld_name i) = Some a \<and>
    (\<forall>env' level e. logger_log env' [] a level e w' = logger_log env' [] r level e w')"
proof -
  from logs_changed_effect [OF reachable_inv [OF assms(1)] assms(2-7)] assms(8,9,11)
  have inv: "mgr_inv w'" and r: "w_root w' = Some r" and ret: "retired (ld_name i) w'" by auto
  from ret obtain a where a: "om_find (w_names w') (ld_name i) = Some a"
    "lg_level (w_loggers w' ! a) = UNKNOW" "lg_appenders (w_loggers w' ! a) = []"
    by (auto simp: retired_def logger_named_def hget_Some_iff split: option.splits)
  have "om_find (w_names w') ''root'' = Some r" using inv r by (auto simp: mgr_inv_def names_inv_def)
  then have "a \<noteq> r" using names_invD(2) [OF inv] a(1) assms(10) by metis
  then show ?thesis using log_delegates_inv [OF inv a(1) r _ a(3)] a by auto
qed

section \<open>Witnesses\<close>

text \<open>The root logger is a logger like the others to the listener: when its define is removed, it
  is left without appenders, and the next change of the defines faults at the listener's own
  first line.\<close>

theorem dropped_root_faults:
  assumes "log_reachable w" "w_root w = Some r" "lg_appenders (w_loggers w ! r) \<noteq> []" "dates_fit env"
    and "event_context ctx" "os_sorted ld_name old" "os_sorted ld_name new"
    and "''root'' \<in> ld_name ` set old" "''root'' \<notin> ld_name ` set new"
    and "on_logs_changed env ctx old new w = Inr w'"
  shows "on_logs_changed env' ctx new newer w' = Inl Null_deref"
proof -
  from logs_changed_effect [OF reachable_inv [OF assms(1)] assms(2-7)] assms(8-10)
  have inv: "mgr_inv w'" and r: "w_root w' = Some r" and ret: "retired ''root'' w'" by auto
  have root: "om_find (w_names w') ''root'' = Some r" using inv r by (auto simp: mgr_inv_def names_inv_def)
  note nr = named_logger_inv [OF inv root r]
  have l: "hget (w_loggers w') r = Some (w_loggers w' ! r)" using nr(1) by (simp add: hget_def)
  have bare: "lg_level (w_loggers w' ! r) = UNKNOW" "lg_appenders (w_loggers w' ! r) = []"
    using ret root l by (simp_all add: retired_def logger_named_def)
  have "logger_log env' [] r INFO e w' = Inl Null_deref" for e
    using l bare nr(2) by (subst logger_log.simps) simp
  then show ?thesis using assms(5) r l bare(1)
    by (simp add: less_eq_level_def on_logs_changed_def log_stmt_def on_logger_def wrap_dtor_def event_context_def ss_write_def)
qed

definition demo_define :: log_define where
  "demo_define = \<lparr>ld_name = ''system'', ld_level = WARN, ld_formatter = [],
     ld_appenders = [\<lparr>lad_type = 2, lad_level = ERROR, lad_formatter = [], lad_file = []\<rparr>]\<rparr>"

definition demo_ctx :: "addr \<Rightarrow> level \<Rightarrow> log_event" where
  "demo_ctx lg l = mk_event lg l ''f'' 1 0 0 0 0 ''t''"

lemma demo_ctx_context: "event_context demo_ctx"
  by (simp add: event_context_def demo_ctx_def mk_event_def)

lemma boot_hyps:
  "w_root boot_world = Some 0" "lg_appenders (w_loggers boot_world ! 0) \<noteq> []" "dates_fit plain_env"
  by (simp_all add: boot_world_eq dates_fit_def plain_env_def)

theorem logs_changed_applies_witness:
  "\<exists>w'. on_logs_changed plain_env demo_ctx [] [demo_define] boot_world = Inr w' \<and>
     define_applied plain_env demo_define w'"
  using logs_changed_applies [OF boot_reachable boot_hyps demo_ctx_context, of "[]" "[demo_define]"] by auto

theorem retired_logger_prints_through_root_witness:
  "\<exists>w' a. on_logs_changed plain_env demo_ctx [demo_define] [] boot_world = Inr w' \<and>
     logger_log plain_env [] a DEBUG (demo_ctx a DEBUG) w' = logger_log plain_env [] 0 DEBUG (demo_ctx a DEBUG) w'"
proof -
  obtain w' where w': "on_logs_changed plain_env demo_ctx [demo_define] [] boot_world = Inr w'"
    using logs_changed_effect [OF reachable_inv [OF boot_reachable] boot_hyps demo_ctx_context, of "[demo_define]" "[]"] by auto
  show ?thesis
    using retired_logger_prints_through_root [OF boot_reachable boot_hyps demo_ctx_context _ _ _ _ _ w', of demo_define] w'
    by (auto simp: demo_define_def)
qed

theorem define_roundtrip_witness:
  "\<exists>lib s. define_to lib demo_define = Inr s \<and>
     define_from lib s = wret (demo_define\<lparr>ld_appenders := [\<lparr>lad_type = 2, lad_level = UNKNOW, lad_formatter = [], lad_file = []\<rparr>]\<rparr>)"
  using define_roundtrip [of "demo_lib\<lparr>yl_load := (\<lambda>s. Inr (define_node demo_define))\<rparr>" demo_define]
  by (auto simp: reloads_def writable_def demo_define_def)

definition root_define :: log_define where
  "root_define = demo_define\<lparr>ld_name := ''root''\<rparr>"

theorem dropped_root_faults_witness:
  "\<exists>w'. on_logs_changed plain_env demo_ctx [root_define] [] boot_world = Inr w' \<and>
     on_logs_changed plain_env demo_ctx [] [demo_define] w' = Inl Null_deref"
proof -
  obtain w' where w': "on_logs_changed plain_env demo_ctx [root_define] [] boot_world = Inr w'"
    using logs_changed_effect [OF reachable_inv [OF boot_reachable] boot_hyps demo_ctx_context, of "[root_define]" "[]"] by auto
  show ?thesis
    using dropped_root_faults [OF boot_reachable boot_hyps demo_ctx_context _ _ _ _ w', of plain_env "[demo_define]"] w'
    by (simp add: root_define_def)
qed

end
