(* ===== verification/Fibers.thy ===== *)
theory Fibers
  imports Containers LogCore
begin

text \<open>
  Fibers (fiber.h and fiber.cpp): the objects with their saved contexts, the thread-local
  pointers of one thread, and the machine on which contexts are switched.  A context is what
  the thread will do when it is resumed, so \<open>getcontext\<close>, \<open>makecontext\<close> and \<open>swapcontext\<close>
  store and load values of a data type; the code the fibers run is arbitrary, given by the
  calls it makes.
\<close>

section \<open>State\<close>

text \<open>The state \<open>TERM\<close> is primed: the name is a token of the logic.\<close>

datatype fiber_state = INIT | HOLD | EXEC | TERM' | READY | EXCEPT

text \<open>The two entry functions of a fiber.\<close>

datatype entry = MainFunc | CallerMainFunc

text \<open>
  What lies below the code that runs: nothing (the thread's own stack), or an entry function
  whose local variable \<open>cur\<close> is the fiber at an address.
\<close>

datatype frame = Host | Body entry addr

text \<open>
  \<open>ucontext_t\<close>: never stored; made by \<open>makecontext\<close>; stored by \<open>swapcontext\<close> in the middle of
  code of type \<open>'c\<close>; stored by the last \<open>swapcontext\<close> of an entry function.
\<close>

datatype 'c ctx = Ctx_unset | Ctx_entry entry | Ctx_user frame 'c | Ctx_end entry addr

record 'c fiber =
  fb_id :: u64
  fb_stacksize :: u32
  fb_state :: fiber_state
  fb_ctx :: "'c ctx"
  fb_stack :: bool
  fb_cb :: "'c option"

text \<open>
  The heap of fibers (\<open>None\<close> once destroyed), \<open>s_fiber_id\<close> and \<open>s_fiber_count\<close>, the thread's
  \<open>t_fiber\<close>, \<open>t_threadFiber\<close> and \<open>t_scheduler_fiber\<close>, the value of \<open>fiber.stack_size\<close>, and the
  lines logged.
\<close>

record 'c fibers =
  f_heap :: "'c fiber option list"
  f_next_id :: u64
  f_count :: u64
  f_this :: "addr option"
  f_thread :: "addr option"
  f_main :: "addr option"
  f_stack_cfg :: u32
  f_log :: "(level \<times> string) list"

text \<open>What the operating system answers, and the text of a stack trace.\<close>

record fiber_os =
  os_malloc :: "u32 \<Rightarrow> bool"
  os_getcontext :: int
  os_swapcontext :: int
  os_backtrace :: string

definition fget :: "'c fibers \<Rightarrow> addr \<Rightarrow> 'c fiber option" where
  "fget st a = (case hget (f_heap st) a of Some (Some f) \<Rightarrow> Some f | _ \<Rightarrow> None)"

definition fset :: "addr \<Rightarrow> 'c fiber \<Rightarrow> 'c fibers \<Rightarrow> 'c fibers" where
  "fset a f st = st\<lparr>f_heap := hset (f_heap st) a (Some f)\<rparr>"

definition flog :: "level \<Rightarrow> string \<Rightarrow> 'c fibers \<Rightarrow> 'c fibers" where
  "flog l s st = st\<lparr>f_log := f_log st @ [(l, s)]\<rparr>"

text \<open>A member access through a pointer.\<close>

definition on_fiber :: "addr \<Rightarrow> 'c fibers \<Rightarrow> ('c fiber \<Rightarrow> fault + 'r) \<Rightarrow> fault + 'r" where
  "on_fiber a st k = (case fget st a of None \<Rightarrow> Inl Null_deref | Some f \<Rightarrow> k f)"

text \<open>\<open>ATPDXY_ASSERT(cond)\<close>\<close>

definition check :: "string \<Rightarrow> bool \<Rightarrow> (fault + 'r) \<Rightarrow> fault + 'r" where
  "check msg cond r = (if cond then r else Inl (Assertion msg))"

section \<open>Construction, destruction and reset\<close>

definition SetThis :: "addr option \<Rightarrow> 'c fibers \<Rightarrow> 'c fibers" where
  "SetThis f st = st\<lparr>f_this := f\<rparr>"

text \<open>\<open>Fiber::Fiber()\<close>: the fiber of the thread itself.\<close>

definition new_main_fiber :: "fiber_os \<Rightarrow> 'c fibers \<Rightarrow> fault + addr \<times> 'c fibers" where
  "new_main_fiber os st =
     (let a = hfresh (f_heap st);
          f = \<lparr>fb_id = 0, fb_stacksize = 0, fb_state = EXEC, fb_ctx = Ctx_unset, fb_stack = False, fb_cb = None\<rparr>;
          st1 = SetThis (Some a) (st\<lparr>f_heap := halloc (f_heap st) (Some f)\<rparr>)
      in check ''getcontext'' (os_getcontext os = 0)
           (Inr (a, flog DEBUG '' Fiber::Fiber main'' (st1\<lparr>f_count := f_count st1 + 1\<rparr>))))"

text \<open>\<open>Fiber::Fiber(cb, stacksize, use_caller)\<close>: \<open>stacksize\<close> is a \<open>size_t\<close>, \<open>m_stacksize\<close> a
  \<open>uint32_t\<close>.\<close>

definition new_fiber ::
  "fiber_os \<Rightarrow> 'c option \<Rightarrow> u64 \<Rightarrow> bool \<Rightarrow> 'c fibers \<Rightarrow> fault + addr \<times> 'c fibers" where
  "new_fiber os cb stacksize use_caller st =
     (let i = f_next_id st + 1;
          sz = (if stacksize \<noteq> 0 then ucast stacksize else f_stack_cfg st);
          a = hfresh (f_heap st);
          f = \<lparr>fb_id = i, fb_stacksize = sz, fb_state = INIT,
               fb_ctx = Ctx_entry (if \<not> use_caller then MainFunc else CallerMainFunc),
               fb_stack = os_malloc os sz, fb_cb = cb\<rparr>
      in check ''getcontext'' (os_getcontext os = 0)
           (Inr (a, flog DEBUG ('' Fiber::Fiber id='' @ show_nat (unat i))
             (st\<lparr>f_heap := halloc (f_heap st) (Some f), f_next_id := i, f_count := f_count st + 1\<rparr>))))"

text \<open>\<open>Fiber::~Fiber()\<close>\<close>

definition may_end :: "fiber_state \<Rightarrow> bool" where
  "may_end s \<longleftrightarrow> s = TERM' \<or> s = EXCEPT \<or> s = INIT"

definition fiber_dtor :: "addr \<Rightarrow> 'c fibers \<Rightarrow> fault + 'c fibers" where
  "fiber_dtor a st =
     on_fiber a st (\<lambda>f.
       let st1 = st\<lparr>f_count := f_count st - 1\<rparr>;
           gone = (\<lambda>s. flog DEBUG ('' Fiber::~Fiber id='' @ show_nat (unat (fb_id f)) @ '' total='' @
                      show_nat (unat (f_count s))) (s\<lparr>f_heap := hset (f_heap s) a None\<rparr>))
       in if fb_stack f then check ''m_state == TERM || m_state == EXCEPT || m_state == INIT'' (may_end (fb_state f)) (Inr (gone st1))
          else check ''!m_cb'' (fb_cb f = None) (check ''m_state == EXEC'' (fb_state f = EXEC)
                 (Inr (gone (if f_this st1 = Some a then SetThis None st1 else st1)))))"

text \<open>\<open>reset\<close>: the new context starts \<open>MainFunc\<close>.\<close>

definition fiber_reset :: "fiber_os \<Rightarrow> addr \<Rightarrow> 'c option \<Rightarrow> 'c fibers \<Rightarrow> fault + 'c fibers" where
  "fiber_reset os a cb st =
     on_fiber a st (\<lambda>f.
       check ''m_stack'' (fb_stack f) (check ''m_state ==TERM || m_state == EXCEPT || m_state == INIT'' (may_end (fb_state f))
         (check ''getcontext'' (os_getcontext os = 0)
           (Inr (fset a (f\<lparr>fb_cb := cb, fb_ctx := Ctx_entry MainFunc, fb_state := INIT\<rparr>) st)))))"

text \<open>\<open>GetThis\<close>: the first call on a thread makes the thread's own fiber.\<close>

definition fiber_GetThis :: "fiber_os \<Rightarrow> 'c fibers \<Rightarrow> fault + addr \<times> 'c fibers" where
  "fiber_GetThis os st =
     (case f_this st of
        Some a \<Rightarrow> Inr (a, st)
      | None \<Rightarrow>
          rbind (new_main_fiber os st) (\<lambda>(a, st1).
            check ''t_fiber == main_fiber.get()'' (f_this st1 = Some a) (Inr (a, st1\<lparr>f_thread := Some a\<rparr>))))"

definition TotalFibers :: "'c fibers \<Rightarrow> u64" where
  "TotalFibers st = f_count st"

definition fiber_GetFiberId :: "'c fibers \<Rightarrow> fault + u64" where
  "fiber_GetFiberId st =
     (case f_this st of None \<Rightarrow> Inr 0 | Some a \<Rightarrow> on_fiber a st (\<lambda>f. Inr (fb_id f)))"

text \<open>\<open>atpdxy::GetFiberId\<close> of util.cpp narrows the identifier to 32 bits.\<close>

definition util_GetFiberId :: "'c fibers \<Rightarrow> fault + u32" where
  "util_GetFiberId st = rbind (fiber_GetFiberId st) (\<lambda>i. Inr (ucast i))"

section \<open>Switching contexts\<close>

text \<open>
  What the thread is doing: running user code above a frame, at the end of an entry function
  (after the call of \<open>m_cb\<close> returned or threw), or done.
\<close>

datatype ending = Returned | Threw exc

datatype 'c control = At_user frame 'c | Ending entry addr ending | Done

text \<open>
  Resuming a context.  An entry function starts with \<open>cur = GetThis()\<close> and calls \<open>cur->m_cb\<close>;
  an empty \<open>std::function\<close> throws \<open>std::bad_function_call\<close>.  A context stored by the last
  switch of an entry function goes on to \<open>ATPDXY_ASSERT2(false, "never reach")\<close>.
\<close>

definition resume :: "fiber_os \<Rightarrow> 'c ctx \<Rightarrow> 'c fibers \<Rightarrow> fault + 'c fibers \<times> 'c control" where
  "resume os c st =
     (case c of
        Ctx_unset \<Rightarrow> Inl Indeterminate
      | Ctx_entry e \<Rightarrow>
          rbind (fiber_GetThis os st) (\<lambda>(cur, st1).
            on_fiber cur st1 (\<lambda>f.
              case fb_cb f of
                None \<Rightarrow> Inr (st1, Ending e cur (Threw (Std_exception ''bad_function_call'')))
              | Some cb \<Rightarrow> Inr (st1, At_user (Body e cur) cb)))
      | Ctx_user fr k \<Rightarrow> Inr (st, At_user fr k)
      | Ctx_end e a \<Rightarrow> on_fiber a st (\<lambda>f. Inl (Assertion (''never reach fiber_id='' @ show_nat (unat (fb_id f))))))"

text \<open>\<open>swapcontext(&from->m_ctx, &to->m_ctx)\<close> with \<open>here\<close> as the context that is stored.\<close>

definition swapcontext ::
  "fiber_os \<Rightarrow> addr \<Rightarrow> addr \<Rightarrow> 'c ctx \<Rightarrow> 'c fibers \<Rightarrow> fault + 'c fibers \<times> 'c control" where
  "swapcontext os from to here st =
     (if os_swapcontext os \<noteq> 0 then Inl (Assertion ''swapcontext'')
      else on_fiber from st (\<lambda>f.
        let st1 = fset from (f\<lparr>fb_ctx := here\<rparr>) st
        in on_fiber to st1 (\<lambda>g. resume os (fb_ctx g) st1)))"

text \<open>A pointer that may be null.\<close>

definition deref :: "addr option \<Rightarrow> (addr \<Rightarrow> fault + 'r) \<Rightarrow> fault + 'r" where
  "deref p k = (case p of None \<Rightarrow> Inl Null_deref | Some a \<Rightarrow> k a)"

definition swapIn :: "fiber_os \<Rightarrow> addr \<Rightarrow> 'c ctx \<Rightarrow> 'c fibers \<Rightarrow> fault + 'c fibers \<times> 'c control" where
  "swapIn os this here st =
     (let st1 = SetThis (Some this) st
      in on_fiber this st1 (\<lambda>f. check ''m_state != EXEC'' (fb_state f \<noteq> EXEC)
           (let st2 = fset this (f\<lparr>fb_state := EXEC\<rparr>) st1
            in deref (f_main st2) (\<lambda>m. swapcontext os m this here st2))))"

definition swapOut :: "fiber_os \<Rightarrow> addr \<Rightarrow> 'c ctx \<Rightarrow> 'c fibers \<Rightarrow> fault + 'c fibers \<times> 'c control" where
  "swapOut os this here st =
     (let st1 = SetThis (f_main st) st
      in deref (f_main st1) (\<lambda>m. swapcontext os this m here st1))"

definition fiber_call :: "fiber_os \<Rightarrow> addr \<Rightarrow> 'c ctx \<Rightarrow> 'c fibers \<Rightarrow> fault + 'c fibers \<times> 'c control" where
  "fiber_call os this here st =
     (let st1 = SetThis (Some this) st
      in on_fiber this st1 (\<lambda>f.
           let st2 = fset this (f\<lparr>fb_state := EXEC\<rparr>) st1
           in deref (f_thread st2) (\<lambda>m. swapcontext os m this here st2)))"

definition fiber_back :: "fiber_os \<Rightarrow> addr \<Rightarrow> 'c ctx \<Rightarrow> 'c fibers \<Rightarrow> fault + 'c fibers \<times> 'c control" where
  "fiber_back os this here st =
     (let st1 = SetThis (f_thread st) st
      in deref (f_thread st1) (\<lambda>m. swapcontext os this m here st1))"

text \<open>\<open>YieldToReady\<close> and \<open>YieldToHold\<close>\<close>

definition yield_to :: "fiber_os \<Rightarrow> fiber_state \<Rightarrow> 'c ctx \<Rightarrow> 'c fibers \<Rightarrow> fault + 'c fibers \<times> 'c control" where
  "yield_to os s here st =
     rbind (fiber_GetThis os st) (\<lambda>(cur, st1).
       on_fiber cur st1 (\<lambda>f. check ''cur->m_state == EXEC'' (fb_state f = EXEC)
         (swapOut os cur here (fset cur (f\<lparr>fb_state := s\<rparr>) st1))))"

definition YieldToReady :: "fiber_os \<Rightarrow> 'c ctx \<Rightarrow> 'c fibers \<Rightarrow> fault + 'c fibers \<times> 'c control" where
  "YieldToReady os = yield_to os READY"

definition YieldToHold :: "fiber_os \<Rightarrow> 'c ctx \<Rightarrow> 'c fibers \<Rightarrow> fault + 'c fibers \<times> 'c control" where
  "YieldToHold os = yield_to os HOLD"

text \<open>The end of \<open>MainFunc\<close> and \<open>CallerMainFunc\<close>: the handlers, and the last switch.\<close>

definition fiber_end ::
  "fiber_os \<Rightarrow> entry \<Rightarrow> addr \<Rightarrow> ending \<Rightarrow> 'c fibers \<Rightarrow> fault + 'c fibers \<times> 'c control" where
  "fiber_end os e cur how st =
     on_fiber cur st (\<lambda>f.
       let tail = '' fiber_id='' @ show_nat (unat (fb_id f)) @ newline @ os_backtrace os;
           st1 = (case how of
             Returned \<Rightarrow> fset cur (f\<lparr>fb_cb := None, fb_state := TERM'\<rparr>) st
           | Threw (Std_exception what) \<Rightarrow>
               flog ERROR (''Fiber Except: '' @ what @ tail) (fset cur (f\<lparr>fb_state := EXCEPT\<rparr>) st)
           | Threw Other_exception \<Rightarrow>
               flog ERROR (''Fiber Except'' @ tail) (fset cur (f\<lparr>fb_state := EXCEPT\<rparr>) st))
       in (case e of
             MainFunc \<Rightarrow> swapOut os cur (Ctx_end e cur) st1
           | CallerMainFunc \<Rightarrow> fiber_back os cur (Ctx_end e cur) st1))"

section \<open>The machine\<close>

text \<open>
  The next call of a piece of user code, with what the code goes on to do.  \<open>Op_ext\<close> is any
  computation that does not involve fibers, on a state of its own.
\<close>

datatype ('c, 'x) fiber_op =
    Op_swapIn addr 'c
  | Op_swapOut addr 'c
  | Op_call addr 'c
  | Op_back addr 'c
  | Op_yieldReady 'c
  | Op_yieldHold 'c
  | Op_new "'c option" u64 bool "addr \<Rightarrow> 'c"
  | Op_reset addr "'c option" 'c
  | Op_delete addr 'c
  | Op_getThis "addr \<Rightarrow> 'c"
  | Op_ext "'x \<Rightarrow> 'c \<times> 'x"
  | Op_return
  | Op_throw exc

record ('c, 'x) machine =
  m_fibers :: "'c fibers"
  m_control :: "'c control"
  m_ext :: 'x

definition switched :: "('c, 'x) machine \<Rightarrow> (fault + 'c fibers \<times> 'c control) \<Rightarrow> fault + ('c, 'x) machine" where
  "switched m r = rbind r (\<lambda>(st, ct). Inr (m\<lparr>m_fibers := st, m_control := ct\<rparr>))"

definition machine_step ::
  "fiber_os \<Rightarrow> ('c \<Rightarrow> ('c, 'x) fiber_op) \<Rightarrow> ('c, 'x) machine \<Rightarrow> fault + ('c, 'x) machine" where
  "machine_step os code m =
     (let st = m_fibers m in
      case m_control m of
        Done \<Rightarrow> Inr m
      | Ending e cur how \<Rightarrow> switched m (fiber_end os e cur how st)
      | At_user fr c \<Rightarrow>
          (case code c of
             Op_swapIn a k \<Rightarrow> switched m (swapIn os a (Ctx_user fr k) st)
           | Op_swapOut a k \<Rightarrow> switched m (swapOut os a (Ctx_user fr k) st)
           | Op_call a k \<Rightarrow> switched m (fiber_call os a (Ctx_user fr k) st)
           | Op_back a k \<Rightarrow> switched m (fiber_back os a (Ctx_user fr k) st)
           | Op_yieldReady k \<Rightarrow> switched m (YieldToReady os (Ctx_user fr k) st)
           | Op_yieldHold k \<Rightarrow> switched m (YieldToHold os (Ctx_user fr k) st)
           | Op_new cb stacksize use_caller k \<Rightarrow>
               switched m (rbind (new_fiber os cb stacksize use_caller st) (\<lambda>(a, st1). Inr (st1, At_user fr (k a))))
           | Op_reset a cb k \<Rightarrow> switched m (rbind (fiber_reset os a cb st) (\<lambda>st1. Inr (st1, At_user fr k)))
           | Op_delete a k \<Rightarrow> switched m (rbind (fiber_dtor a st) (\<lambda>st1. Inr (st1, At_user fr k)))
           | Op_getThis k \<Rightarrow> switched m (rbind (fiber_GetThis os st) (\<lambda>(a, st1). Inr (st1, At_user fr (k a))))
           | Op_ext f \<Rightarrow> (case f (m_ext m) of (k, x) \<Rightarrow> Inr (m\<lparr>m_control := At_user fr k, m_ext := x\<rparr>))
           | Op_return \<Rightarrow>
               Inr (m\<lparr>m_control := (case fr of Host \<Rightarrow> Done | Body e cur \<Rightarrow> Ending e cur Returned)\<rparr>)
           | Op_throw e \<Rightarrow>
               (case fr of Host \<Rightarrow> Inl (Throws e) | Body en cur \<Rightarrow> Inr (m\<lparr>m_control := Ending en cur (Threw e)\<rparr>))))"

text \<open>The states a machine passes through, until a fault.\<close>

inductive machine_reach ::
  "fiber_os \<Rightarrow> ('c \<Rightarrow> ('c, 'x) fiber_op) \<Rightarrow> ('c, 'x) machine \<Rightarrow> fault + ('c, 'x) machine \<Rightarrow> bool"
  for os code m0 where
  mreach_start: "machine_reach os code m0 (Inr m0)"
| mreach_step: "machine_reach os code m0 (Inr m) \<Longrightarrow> machine_reach os code m0 (machine_step os code m)"

end
