(* ===== verification/LibraryConfig.thy ===== *)
theory LibraryConfig
  imports LogConfigInvariants ConfigInvariants Fibers
begin

text \<open>
  The library put together: the two configuration variables it registers before \<open>main\<close>
  (\<open>fiber.stack_size\<close> of fiber.cpp and \<open>logs\<close> of log.cpp), the listener on the second, and what
  loading a configuration file does to the loggers.
\<close>

section \<open>The variables of the library\<close>

datatype lib_type = T_stack_size | T_log_defines

datatype lib_value = V_stack_size u32 | V_log_defines "log_define list"

text \<open>
  Their conversions: \<open>boost::lexical_cast\<close> for the number, a parameter, and the templates for
  sets over those of \<open>LogDefine\<close>.  The lines the conversion of a define writes to the standard
  output are left out here.
\<close>

definition lib_codec :: "yaml_lib \<Rightarrow> u32 from_str \<Rightarrow> u32 to_str \<Rightarrow> (lib_type, lib_value) codec" where
  "lib_codec lib from_u32 to_u32 =
     \<lparr>c_from = (\<lambda>t s. case t of
          T_stack_size \<Rightarrow> rbind (from_u32 s) (\<lambda>n. Inr (V_stack_size n))
        | T_log_defines \<Rightarrow> rbind (from_set lib ld_name (\<lambda>v. fst (define_from lib v)) s) (\<lambda>ds. Inr (V_log_defines ds))),
      c_to = (\<lambda>t v. case v of
          V_stack_size n \<Rightarrow> to_u32 n
        | V_log_defines ds \<Rightarrow> to_set lib (define_to lib) ds),
      c_type_name = (\<lambda>t. case t of T_stack_size \<Rightarrow> ''j'' | T_log_defines \<Rightarrow> ''std::set<LogDefine>'')\<rparr>"

text \<open>
  The listener acts on the world of the loggers; once a call has faulted the process is gone,
  which is a state that stays.
\<close>

type_synonym log_process = "fault + log_world"

definition logs_listener ::
  "env \<Rightarrow> (addr \<Rightarrow> level \<Rightarrow> log_event) \<Rightarrow> (lib_value, log_process) on_change_cb" where
  "logs_listener env ctx old new st =
     (case (old, new) of
        (V_log_defines old_value, V_log_defines new_value) \<Rightarrow>
          (None, rbind st (on_logs_changed env ctx old_value new_value))
      | _ \<Rightarrow> (None, st))"

type_synonym library = "(lib_type, lib_value, log_process) config_state"

text \<open>The initialisers of the static variables.\<close>

definition init_stack_size :: "(lib_type, lib_value) codec \<Rightarrow> library \<Rightarrow> (fault + addr option) \<times> library" where
  "init_stack_size cod cs =
     Lookup cod T_stack_size ''fiber.stack_size'' (V_stack_size (1024 * 1024)) ''fiber stack size'' cs"

definition init_logs ::
  "(lib_type, lib_value) codec \<Rightarrow> env \<Rightarrow> (addr \<Rightarrow> level \<Rightarrow> log_event) \<Rightarrow> library \<Rightarrow> fault + library" where
  "init_logs cod env ctx cs =
     (case Lookup cod T_log_defines ''logs'' (V_log_defines []) ''logs config'' cs of
        (Inl e, _) \<Rightarrow> Inl e
      | (Inr None, _) \<Rightarrow> Inl Null_deref
      | (Inr (Some a), cs1) \<Rightarrow> rbind (var_addListener a (logs_listener env ctx) cs1) (\<lambda>(key, cs2). Inr cs2))"

section \<open>The effect of loading on the listeners\<close>

text \<open>The value of a variable and the state of its listeners after one of its members is read.\<close>

definition entry_effect ::
  "('t, 'v) codec \<Rightarrow> yaml_lib \<Rightarrow> ('t, 'v, 's) config_var \<Rightarrow> ynode \<Rightarrow> 'v \<times> 's \<Rightarrow> 'v \<times> 's" where
  "entry_effect cod lib cv n p =
     (case c_from cod (cv_type cv) (node_text lib n) of
        Inl _ \<Rightarrow> p
      | Inr v \<Rightarrow> if v = fst p then p else (v, snd (run_cbs (cv_cbs cv) (fst p) v (snd p))))"

definition others_silent :: "addr \<Rightarrow> ('t, 'v, 's) config_state \<Rightarrow> bool" where
  "others_silent a cs \<longleftrightarrow> (\<forall>b < length (cs_vars cs). b \<noteq> a \<longrightarrow> cv_cbs (cs_vars cs ! b) = [])"

lemma others_silent_same: "same_vars cs cs' \<Longrightarrow> others_silent a cs \<Longrightarrow> others_silent a cs'"
  by (simp add: others_silent_def same_vars_def)

lemma entry_effect_value [simp]: "fst (entry_effect cod lib cv n p) = entry_value cod lib (cv_type cv) n (fst p)"
  by (simp add: entry_effect_def entry_value_def split: sum.split)

lemma entry_effect_val [simp]: "entry_effect cod lib (cv\<lparr>cv_val := v\<rparr>) = entry_effect cod lib cv"
  by (intro ext) (simp add: entry_effect_def split: sum.split)

lemma fromString_ext:
  assumes "\<forall>cb\<in>snd ` set (cv_cbs cv). calm cb"
  shows "snd (snd (snd (fromString cod (node_text lib n) cv s))) = snd (entry_effect cod lib cv n (cv_val cv, s))"
proof (cases "c_from cod (cv_type cv) (node_text lib n)")
  case (Inl e)
  then show ?thesis by (cases e) (simp_all add: fromString_def entry_effect_def)
next
  case (Inr v)
  then show ?thesis using run_cbs_calm [OF assms] by (simp add: fromString_def setValue_def entry_effect_def)
qed

lemma load_entry_ext:
  assumes "registry_inv cs" "calm_vars cs" "others_silent a cs" "valid_name (fst i)"
    and "LookupBase name cs = Some a" "name \<noteq> []" "hget (cs_vars cs) a = Some cv"
  shows "cs_ext (snd (load_entry cod lib i cs)) =
    (if fst i = name then snd (entry_effect cod lib cv (snd i) (cv_val cv, cs_ext cs)) else cs_ext cs)"
proof (cases "fst i = [] \<or> LookupBase (fst i) cs = None")
  case True
  then show ?thesis using assms(5,6) valid_name_tolower [OF assms(4)] by (auto simp: load_entry_def Let_def)
next
  case False
  then obtain b where b: "LookupBase (fst i) cs = Some b" "fst i \<noteq> []" by auto
  let ?cb = "cs_vars cs ! b"
  note nb = LookupBase_name [OF assms(1) b(1)] and na = LookupBase_name [OF assms(1,5)]
  have l: "b < length (cs_vars cs)" using nb(1) by (simp add: hget_Some_iff)
  have "load_entry cod lib i cs = var_fromString cod (node_text lib (snd i)) b cs"
    using b valid_name_tolower [OF assms(4)] by (simp add: load_entry_def)
  moreover have "\<forall>cb\<in>snd ` set (cv_cbs ?cb). calm cb" using assms(2) l by (simp add: calm_vars_def)
  note fromString_ext [OF this, of cod lib "snd i" "cs_ext cs"]
  ultimately have e: "cs_ext (snd (load_entry cod lib i cs)) = snd (entry_effect cod lib ?cb (snd i) (cv_val ?cb, cs_ext cs))"
    using nb(1) by (cases "fromString cod (node_text lib (snd i)) ?cb (cs_ext cs)") (simp add: var_fromString_def)
  show ?thesis
  proof (cases "fst i = name")
    case True
    then show ?thesis using e b(1) assms(5,7) na(1) by simp
  next
    case ne: False
    then have "b \<noteq> a" using na(2) nb(2) by auto
    then have "cv_cbs ?cb = []" using assms(3) l by (simp add: others_silent_def)
    then show ?thesis using e ne by (simp add: entry_effect_def split: sum.split)
  qed
qed

lemma load_entries_effect:
  assumes "registry_inv cs" "calm_vars cs" "std_codec cod" "others_silent a cs" "\<forall>i\<in>set is. valid_name (fst i)"
    and "LookupBase name cs = Some a" "name \<noteq> []" "hget (cs_vars cs) a = Some cv"
  shows "\<exists>cs' p. load_entries cod lib is cs = (None, cs') \<and>
    p = fold (\<lambda>i. entry_effect cod lib cv (snd i)) (filter (\<lambda>i. fst i = name) is) (cv_val cv, cs_ext cs) \<and>
    hget (cs_vars cs') a = Some (cv\<lparr>cv_val := fst p\<rparr>) \<and> cs_ext cs' = snd p"
  using assms
proof (induction "is" arbitrary: cs cv)
  case Nil
  then show ?case by simp
next
  case (Cons i "is")
  let ?p = "if fst i = name then entry_effect cod lib cv (snd i) (cv_val cv, cs_ext cs) else (cv_val cv, cs_ext cs)"
  let ?cv = "cv\<lparr>cv_val := fst ?p\<rparr>"
  have v: "valid_name (fst i)" using Cons.prems(5) by simp
  obtain cs1 where cs1: "load_entry cod lib i cs = (None, cs1)" "hget (cs_vars cs1) a = Some ?cv"
    using load_entry_value [OF Cons.prems(1-3) v Cons.prems(6-8), of lib] by auto
  have ext: "cs_ext cs1 = snd ?p"
    using load_entry_ext [OF Cons.prems(1,2,4) v Cons.prems(6-8), of cod lib] cs1(1) by (auto split: if_splits)
  have same: "same_vars cs cs1" using load_entry_same [of cs cod lib i] cs1(1) by simp
  have look: "LookupBase name cs1 = Some a" using same Cons.prems(6) by (simp add: same_vars_def LookupBase_def)
  have vs: "\<forall>i\<in>set is. valid_name (fst i)" using Cons.prems(5) by simp
  from Cons.IH [OF registry_inv_same_vars [OF same Cons.prems(1)] calm_vars_same [OF same Cons.prems(2)] Cons.prems(3)
      others_silent_same [OF same Cons.prems(4)] vs look Cons.prems(7) cs1(2)]
  show ?case using cs1(1) ext by (cases "fst i = name") (simp_all del: entry_effect_value)
qed

section \<open>Loading the configuration of the loggers\<close>

text \<open>
  The library between two loads: the registry is well formed, \<open>logs\<close> is the variable at \<open>a\<close>
  with the defines \<open>ds\<close> and the one listener of the process, and \<open>w\<close> is the world of the
  loggers.
\<close>

definition library_state ::
  "env \<Rightarrow> (addr \<Rightarrow> level \<Rightarrow> log_event) \<Rightarrow> addr \<Rightarrow> log_define list \<Rightarrow> log_world \<Rightarrow> library \<Rightarrow> bool" where
  "library_state env ctx a ds w cs \<longleftrightarrow> config_reachable cs \<and> others_silent a cs \<and> LookupBase ''logs'' cs = Some a \<and>
     (\<exists>cv k. hget (cs_vars cs) a = Some cv \<and> cv_type cv = T_log_defines \<and> cv_val cv = V_log_defines ds \<and>
        cv_cbs cv = [(k, logs_listener env ctx)]) \<and>
     os_sorted ld_name ds \<and> cs_ext cs = Inr w \<and> mgr_inv w"

lemma calm_logs_listener: "calm (logs_listener env ctx)"
  by (simp add: calm_def logs_listener_def split: lib_value.split)

lemma library_calm:
  assumes "library_state env ctx a ds w cs"
  shows "calm_vars cs"
proof -
  have "\<forall>cb\<in>snd ` set (cv_cbs (cs_vars cs ! b)). calm cb" if "b < length (cs_vars cs)" for b
    using assms that calm_logs_listener by (cases "b = a") (auto simp: library_state_def others_silent_def hget_Some_iff)
  then show ?thesis by (simp add: calm_vars_def)
qed

lemma from_set_sorted:
  assumes "from_set lib key f v = Inr xs"
  shows "os_sorted key xs"
proof -
  have step: "os_sorted key ys \<Longrightarrow> rfold (\<lambda>i vec. rbind (y_index lib node i) (\<lambda>ni. rbind (f (yl_emit lib ni)) (\<lambda>x. Inr (os_insert key x vec)))) is ys = Inr zs
      \<Longrightarrow> os_sorted key zs" for node "is" ys zs
    by (rule rfold_invariant [where P = "os_sorted key"]) (auto simp: os_sorted_insert)
  show ?thesis using assms step [of "[]"] by (auto simp: from_set_def)
qed

text \<open>C8. Loading a document with the member \<open>logs\<close> configures the loggers: the variable takes the
  defines the member's text converts to, every define that is new or changed is what its
  logger then is, every define that is gone leaves its logger retired, other loggers are as
  they were, and the library is again in a state from which the next load starts.\<close>

theorem load_configures_loggers:
  assumes "library_state env ctx a old w cs" "std_codec (lib_codec lib from_u32 to_u32)"
    and "w_root w = Some r" "lg_appenders (w_loggers w ! r) \<noteq> []" "dates_fit env" "event_context ctx"
    and "filter (\<lambda>i. fst i = ''logs'') (fst (ListAllMember lib [] root)) = [(''logs'', n)]"
    and "from_set lib ld_name (\<lambda>v. fst (define_from lib v)) (node_text lib n) = Inr new"
  shows "\<exists>cs' w'. LoadFromYaml (lib_codec lib from_u32 to_u32) lib root cs = (None, cs') \<and>
    library_state env ctx a new w' cs' \<and> w_root w' = Some r \<and>
    (\<forall>i\<in>set new - set old. define_applied env i w') \<and>
    (\<forall>i\<in>set old. ld_name i \<notin> ld_name ` set new \<longrightarrow> retired (ld_name i) w') \<and>
    (\<forall>m. m \<notin> ld_name ` (set new - set old) \<and> m \<notin> ld_name ` set old - ld_name ` set new \<longrightarrow>
       logger_named m w' = logger_named m w)"
proof -
  let ?cod = "lib_codec lib from_u32 to_u32"
  obtain cv k where cs: "config_reachable cs" "others_silent a cs" "LookupBase ''logs'' cs = Some a"
    "hget (cs_vars cs) a = Some cv" "cv_type cv = T_log_defines" "cv_val cv = V_log_defines old"
    "cv_cbs cv = [(k, logs_listener env ctx)]" "os_sorted ld_name old" "cs_ext cs = Inr w" "mgr_inv w"
    using assms(1) unfolding library_state_def by blast
  obtain nodes lines where l: "ListAllMember lib [] root = (nodes, lines)" by force
  let ?cs = "cs\<lparr>cs_log := cs_log cs @ lines\<rparr>"
  have valid: "\<forall>i\<in>set nodes. valid_name (fst i)" using members_paths [of _ _ lib "[]" root] l by auto
  have pre: "registry_inv ?cs" "calm_vars ?cs" "others_silent a ?cs" "LookupBase ''logs'' ?cs = Some a" "hget (cs_vars ?cs) a = Some cv"
    using config_reachable_inv [OF cs(1)] library_calm [OF assms(1)] cs(2-4)
    by (simp_all add: calm_vars_def others_silent_def LookupBase_def)
  have ne: "''logs'' \<noteq> []" by simp
  have new: "c_from ?cod (cv_type cv) (node_text lib n) = Inr (V_log_defines new)"
    using assms(8) by (simp add: lib_codec_def cs(5))
  define p where "p = entry_effect ?cod lib cv n (V_log_defines old, Inr w :: log_process)"
  have "fold (\<lambda>i. entry_effect ?cod lib cv (snd i)) (filter (\<lambda>i. fst i = ''logs'') nodes) (cv_val cv, cs_ext ?cs) = p"
    using assms(7) l cs(6,9) by (simp add: p_def)
  then obtain cs' where cs': "load_entries ?cod lib nodes ?cs = (None, cs')"
    "hget (cs_vars cs') a = Some (cv\<lparr>cv_val := fst p\<rparr>)" "cs_ext cs' = snd p"
    using load_entries_effect [OF pre(1,2) assms(2) pre(3) valid pre(4) ne pre(5), of lib] by auto
  have load: "LoadFromYaml ?cod lib root cs = (None, cs')" using l cs'(1) by (simp add: LoadFromYaml_def)
  have same: "same_vars cs cs'" using LoadFromYaml_same [of cs ?cod lib root] load by simp
  have reach: "config_reachable cs'" using config_next [OF cs(1) step_load, of ?cod lib root] load by simp
  have p1: "fst p = V_log_defines new" using new by (simp add: p_def entry_value_def)
  obtain w' where w': "snd p = Inr w'" "mgr_inv w'" "w_root w' = Some r" "\<forall>i\<in>set new - set old. define_applied env i w'"
    "\<forall>i\<in>set old. ld_name i \<notin> ld_name ` set new \<longrightarrow> retired (ld_name i) w'"
    "\<forall>m. m \<notin> ld_name ` (set new - set old) \<and> m \<notin> ld_name ` set old - ld_name ` set new \<longrightarrow> logger_named m w' = logger_named m w"
  proof (cases "new = old")
    case True
    then have "snd p = Inr w" using new by (simp add: p_def entry_effect_def)
    then show ?thesis using cs(10) assms(3) True by (intro that [of w]) auto
  next
    case False
    then have "snd p = on_logs_changed env ctx old new w"
      using new cs(7) by (simp add: p_def entry_effect_def logs_listener_def)
    then show ?thesis
      using logs_changed_effect [OF cs(10) assms(3-6) cs(8) from_set_sorted [OF assms(8)]] that by auto
  qed
  have "library_state env ctx a new w' cs'"
    unfolding library_state_def
    using reach others_silent_same [OF same cs(2)] same cs(3,5,7) cs'(2,3) p1 w'(1,2) from_set_sorted [OF assms(8)]
    by (auto simp: same_vars_def LookupBase_def)
  then show ?thesis using load w' by blast
qed


section \<open>Before main\<close>

text \<open>The order in which the variables of different source files are initialised is not
  specified: \<open>logs_first\<close> is one order or the other.\<close>

definition library_boot ::
  "bool \<Rightarrow> (lib_type, lib_value) codec \<Rightarrow> env \<Rightarrow> (addr \<Rightarrow> level \<Rightarrow> log_event) \<Rightarrow> library \<Rightarrow> fault + library" where
  "library_boot logs_first cod env ctx cs =
     (if logs_first then
        rbind (init_logs cod env ctx cs) (\<lambda>cs1. case init_stack_size cod cs1 of (Inl e, _) \<Rightarrow> Inl e | (Inr _, cs2) \<Rightarrow> Inr cs2)
      else (case init_stack_size cod cs of (Inl e, _) \<Rightarrow> Inl e | (Inr _, cs1) \<Rightarrow> init_logs cod env ctx cs1))"

definition no_variables :: "log_world \<Rightarrow> library" where
  "no_variables w = \<lparr>cs_datas = [], cs_vars = [], cs_func_id = (\<lambda>_. 0), cs_log = [], cs_ext = Inr w\<rparr>"

definition stack_size_var :: "(lib_type, lib_value, log_process) config_var" where
  "stack_size_var = \<lparr>cv_name = ''fiber.stack_size'', cv_description = ''fiber stack size'', cv_type = T_stack_size,
     cv_val = V_stack_size 1048576, cv_cbs = []\<rparr>"

definition logs_var :: "(lib_value, log_process) on_change_cb \<Rightarrow> (lib_type, lib_value, log_process) config_var" where
  "logs_var cb = \<lparr>cv_name = ''logs'', cv_description = ''logs config'', cv_type = T_log_defines, cv_val = V_log_defines [],
     cv_cbs = [(1, cb)]\<rparr>"

lemma lib_names: "valid_name ''fiber.stack_size''" "valid_name ''logs''"
  by (simp_all add: valid_name_def name_alphabet_def)

lemma init_stack_size_new:
  "om_find (cs_datas cs) ''fiber.stack_size'' = None \<Longrightarrow> init_stack_size cod cs =
    (Inr (Some (length (cs_vars cs))), cs\<lparr>cs_vars := cs_vars cs @ [stack_size_var],
       cs_datas := om_set ''fiber.stack_size'' (length (cs_vars cs)) (cs_datas cs)\<rparr>)"
  using valid_name_tolower [OF lib_names(1)]
  by (simp add: init_stack_size_def Lookup_new lib_names mk_config_var_def stack_size_var_def)

lemma init_logs_new:
  "om_find (cs_datas cs) ''logs'' = None \<Longrightarrow> cs_func_id cs T_log_defines = 0 \<Longrightarrow> init_logs cod env ctx cs =
    Inr (cs\<lparr>cs_vars := cs_vars cs @ [logs_var (logs_listener env ctx)],
       cs_datas := om_set ''logs'' (length (cs_vars cs)) (cs_datas cs), cs_func_id := (cs_func_id cs)(T_log_defines := 1)\<rparr>)"
  using valid_name_tolower [OF lib_names(2)]
  by (simp add: init_logs_def Lookup_new lib_names mk_config_var_def logs_var_def var_addListener_def addListener_def hget_def hset_def Let_def)

lemma init_stack_size_reachable: "config_reachable cs \<Longrightarrow> config_reachable (snd (init_stack_size cod cs))"
  unfolding init_stack_size_def by (rule config_next [OF _ step_Lookup])

lemma init_logs_reachable:
  assumes "config_reachable cs" "init_logs cod env ctx cs = Inr cs'"
  shows "config_reachable cs'"
proof -
  obtain a cs1 key where l: "Lookup cod T_log_defines ''logs'' (V_log_defines []) ''logs config'' cs = (Inr (Some a), cs1)"
    and add: "var_addListener a (logs_listener env ctx) cs1 = Inr (key, cs')"
    using assms(2) by (auto simp: init_logs_def split: prod.splits sum.splits option.splits)
  have "config_reachable cs1"
    using config_next [OF assms(1) step_Lookup, of cod T_log_defines "''logs''" "V_log_defines []" "''logs config''"] l by simp
  then show ?thesis by (rule config_next [OF _ step_addListener [OF add]])
qed

definition booted :: "bool \<Rightarrow> env \<Rightarrow> (addr \<Rightarrow> level \<Rightarrow> log_event) \<Rightarrow> log_world \<Rightarrow> library" where
  "booted logs_first env ctx w =
     \<lparr>cs_datas = [(''fiber.stack_size'', if logs_first then 1 else 0), (''logs'', if logs_first then 0 else 1)],
      cs_vars = (if logs_first then [logs_var (logs_listener env ctx), stack_size_var]
                 else [stack_size_var, logs_var (logs_listener env ctx)]),
      cs_func_id = (\<lambda>_. 0)(T_log_defines := 1), cs_log = [], cs_ext = Inr w\<rparr>"

lemma library_boot_eq: "library_boot logs_first cod env ctx (no_variables w) = Inr (booted logs_first env ctx w)"
  by (simp add: library_boot_def init_stack_size_new init_logs_new no_variables_def booted_def list_less_def)

lemma library_boot_reachable:
  assumes "config_reachable cs" "library_boot logs_first cod env ctx cs = Inr cs'"
  shows "config_reachable cs'"
proof (cases logs_first)
  case True
  then obtain cs1 where 1: "init_logs cod env ctx cs = Inr cs1"
    using assms(2) by (cases "init_logs cod env ctx cs") (simp_all add: library_boot_def)
  then have "cs' = snd (init_stack_size cod cs1)"
    using assms(2) True by (cases "init_stack_size cod cs1") (simp add: library_boot_def split: sum.splits)
  then show ?thesis using init_stack_size_reachable init_logs_reachable [OF assms(1) 1] by simp
next
  case False
  then have "init_logs cod env ctx (snd (init_stack_size cod cs)) = Inr cs'"
    using assms(2) by (auto simp: library_boot_def split: prod.splits sum.splits)
  then show ?thesis by (rule init_logs_reachable [OF init_stack_size_reachable [OF assms(1)]])
qed

lemma booted_reachable: "config_reachable (booted logs_first env ctx w)"
proof -
  have "config_reachable (no_variables w)" by (rule config_start) (simp add: no_variables_def)
  from library_boot_reachable [OF this library_boot_eq [of logs_first undefined]] show ?thesis .
qed

lemma booted_state:
  assumes "mgr_inv w"
  shows "library_state env ctx (if logs_first then 0 else 1) [] w (booted logs_first env ctx w)"
  using booted_reachable [of logs_first env ctx w] assms
  by (auto simp: library_state_def booted_def others_silent_def LookupBase_def hget_def logs_var_def stack_size_var_def less_Suc_eq)

text \<open>Whatever the order of the initialisers, at the start of \<open>main\<close> the two variables are
  registered with their defaults and the listener is in place.\<close>

theorem library_boots:
  assumes "mgr_inv w"
  shows "\<exists>cs a b. library_boot logs_first cod env ctx (no_variables w) = Inr cs \<and>
    library_state env ctx a [] w cs \<and> LookupBase ''fiber.stack_size'' cs = Some b \<and>
    map_option cv_val (hget (cs_vars cs) b) = Some (V_stack_size 1048576)"
proof (intro exI conjI)
  let ?b = "if logs_first then 1 else 0 :: addr"
  show "library_boot logs_first cod env ctx (no_variables w) = Inr (booted logs_first env ctx w)" by (rule library_boot_eq)
  show "library_state env ctx (if logs_first then 0 else 1) [] w (booted logs_first env ctx w)" by (rule booted_state [OF assms])
  show "LookupBase ''fiber.stack_size'' (booted logs_first env ctx w) = Some ?b"
    "map_option cv_val (hget (cs_vars (booted logs_first env ctx w)) ?b) = Some (V_stack_size 1048576)"
    by (simp_all add: booted_def LookupBase_def hget_def stack_size_var_def)
qed

theorem library_boots_witness:
  "\<exists>cs a. library_boot True (lib_codec demo_lib (\<lambda>_. Inr 0) (\<lambda>_. Inr [])) plain_env demo_ctx (no_variables boot_world) = Inr cs \<and>
     library_state plain_env demo_ctx a [] boot_world cs"
  using library_boots [OF reachable_inv [OF boot_reachable], of True "lib_codec demo_lib (\<lambda>_. Inr 0) (\<lambda>_. Inr [])" plain_env demo_ctx]
  by blast

section \<open>A load for the witness\<close>

definition demo_node :: ynode where
  "demo_node = YMap [(YScalar ''name'', YScalar ''system''), (YScalar ''level'', YScalar ''WARN''),
     (YScalar ''appenders'', YSequence [YMap [(YScalar ''type'', YScalar ''StdoutLogAppender'')]])]"

definition demo_log_lib :: yaml_lib where
  "demo_log_lib = demo_lib\<lparr>yl_load := (\<lambda>s. Inr (if s = ''seq'' then YSequence [demo_node] else demo_node)),
     yl_emit := (\<lambda>n. if n = YSequence [demo_node] then ''seq'' else ''def'')\<rparr>"

definition demo_read :: log_define where
  "demo_read = \<lparr>ld_name = ''system'', ld_level = WARN, ld_formatter = [],
     ld_appenders = [\<lparr>lad_type = 2, lad_level = UNKNOW, lad_formatter = [], lad_file = []\<rparr>]\<rparr>"

lemma demo_define_from: "s \<noteq> ''seq'' \<Longrightarrow> fst (define_from demo_log_lib s) = Inr demo_read"
  by (simp add: define_from_def demo_log_lib_def demo_node_def wbind_def wlift_def wret_def field_or_def read_appender_def
      demo_read_def new_define_def new_appender_define_def from_string_def)

lemma demo_from_set:
  "from_set demo_log_lib ld_name (\<lambda>v. fst (define_from demo_log_lib v)) s = Inr [demo_read]"
proof -
  have i: "[0..<3::nat] = [0, 1, 2]" by (simp add: upt_rec)
  have e: "n \<noteq> YSequence [demo_node] \<Longrightarrow> fst (define_from demo_log_lib (yl_emit demo_log_lib n)) = Inr demo_read" for n
    by (subst demo_define_from) (simp_all add: demo_log_lib_def)
  have n: "y_size demo_node = 3" "demo_node \<noteq> YSequence [demo_node]" by (simp_all add: demo_node_def)
  have x: "y_index demo_log_lib demo_node i = Inr YUndefined" for i by (simp add: demo_node_def demo_log_lib_def demo_lib_def)
  have l: "yl_load demo_log_lib s = Inr (if s = ''seq'' then YSequence [demo_node] else demo_node)" by (simp add: demo_log_lib_def)
  show ?thesis by (simp add: from_set_def l e n x i)
qed

lemma demo_lib_codec: "std_codec (lib_codec demo_log_lib (\<lambda>_. Inr 0) to_u32)"
  by (simp add: std_codec_def lib_codec_def demo_from_set split: lib_type.split)

definition demo_logs_doc :: ynode where
  "demo_logs_doc = YMap [(YScalar ''logs'', YSequence [demo_node])]"

lemma demo_logs_members:
  "filter (\<lambda>i. fst i = ''logs'') (fst (ListAllMember demo_log_lib [] demo_logs_doc)) = [(''logs'', YSequence [demo_node])]"
  by (simp add: demo_logs_doc_def ListAllMember.simps join_key_def name_alphabet_def)

theorem load_configures_loggers_witness:
  "\<exists>cs' w'. LoadFromYaml (lib_codec demo_log_lib (\<lambda>_. Inr 0) (\<lambda>_. Inr [])) demo_log_lib demo_logs_doc
       (booted False plain_env demo_ctx boot_world) = (None, cs') \<and>
     cs_ext cs' = Inr w' \<and> define_applied plain_env demo_read w'"
proof -
  obtain a where a: "library_state plain_env demo_ctx a [] boot_world (booted False plain_env demo_ctx boot_world)"
    using booted_state [OF reachable_inv [OF boot_reachable]] by blast
  show ?thesis
    using load_configures_loggers [OF a demo_lib_codec boot_hyps demo_ctx_context demo_logs_members demo_from_set, of "\<lambda>_. Inr []"]
    by (auto simp: library_state_def)
qed

end
