(* ===== verification/Util.thy ===== *)
theory Util
  imports LogConfigInvariants
begin

text \<open>
  Stack traces (util.cpp), the assertion macros (macro.h) and the singletons (singleton.h).
  What the stack looks like is the system's answer: the return addresses of the innermost
  frames and the texts \<open>backtrace_symbols\<close> makes of them, if it has the memory.
\<close>

section \<open>Stack traces\<close>

record stack_os =
  so_backtrace :: "int \<Rightarrow> u64 list"
  so_symbols :: "u64 list \<Rightarrow> string list option"

text \<open>What \<open>BackTrace\<close> leaves behind: the texts in \<open>bt\<close>, the lines logged, and whether the array
  it allocated was freed.\<close>

record traced =
  tr_bt :: "string list"
  tr_log :: "(level \<times> string) list"
  tr_freed :: bool

lemma u64_Suc:
  assumes "(i :: u64) < s"
  shows "unat (i + 1) = Suc (unat i)"
proof -
  have "1 + i \<noteq> 0"
  proof
    assume "1 + i = 0"
    then have "i = - 1" by (simp add: eq_neg_iff_add_eq_0 add.commute)
    then show False using assms by (simp add: word_order.extremum_strict)
  qed
  then show ?thesis using unatSuc [of i] by (simp add: add.commute)
qed

text \<open>The loop from \<open>size_t i = skip\<close> to \<open>s\<close>.\<close>

function push_frames :: "string list \<Rightarrow> u64 \<Rightarrow> u64 \<Rightarrow> string list \<Rightarrow> string list" where
  "push_frames strings i s bt =
     (if i < s then push_frames strings (i + 1) s (bt @ [strings ! unat i]) else bt)"
  by pat_completeness auto
termination
proof (relation "measure (\<lambda>(strings, i, s, bt). unat s - unat i)", goal_cases)
  case (2 strings i s bt)
  then show ?case using u64_Suc [OF 2] by (simp add: word_less_nat_alt)
qed simp

declare push_frames.simps [simp del]

definition BackTrace :: "stack_os \<Rightarrow> string list \<Rightarrow> int \<Rightarrow> int \<Rightarrow> traced" where
  "BackTrace os bt depth skip =
     (let array = so_backtrace os depth; s = of_nat (length array) in
      case so_symbols os array of
        None \<Rightarrow> \<lparr>tr_bt = bt, tr_log = [(ERROR, ''backtrace_symnols error'')], tr_freed = False\<rparr>
      | Some strings \<Rightarrow> \<lparr>tr_bt = push_frames strings (word_of_int skip) s bt, tr_log = [], tr_freed = True\<rparr>)"

definition BacktraceToString :: "stack_os \<Rightarrow> int \<Rightarrow> int \<Rightarrow> string \<Rightarrow> string" where
  "BacktraceToString os depth skip prefix =
     concat (map (\<lambda>b. prefix @ b @ newline) (tr_bt (BackTrace os [] depth skip)))"

text \<open>The system answers with one text for every address, and with no more than asked for.\<close>

definition stack_ok :: "stack_os \<Rightarrow> bool" where
  "stack_ok os \<longleftrightarrow> (\<forall>depth. length (so_backtrace os depth) < 2 ^ 31) \<and>
     (\<forall>array strings. so_symbols os array = Some strings \<longrightarrow> length strings = length array)"

lemma push_frames_eq:
  assumes "unat s \<le> length strings"
  shows "push_frames strings i s bt = bt @ map ((!) strings) [unat i..<unat s]"
  using assms
proof (induction strings i s bt rule: push_frames.induct)
  case (1 strings i s bt)
  show ?case
  proof (cases "i < s")
    case True
    then have "unat i < unat s" by (simp add: word_less_nat_alt)
    then show ?thesis using 1 True u64_Suc [OF True]
      by (subst push_frames.simps) (simp add: upt_conv_Cons)
  next
    case False
    then have "\<not> unat i < unat s" by (simp add: word_less_nat_alt)
    then show ?thesis using False by (subst push_frames.simps) simp
  qed
qed


lemma BackTrace_lines:
  assumes "stack_ok os" "so_symbols os (so_backtrace os depth) = Some strings" "0 \<le> skip" "skip < 2 ^ 31"
  shows "BackTrace os bt depth skip = \<lparr>tr_bt = bt @ drop (nat skip) strings, tr_log = [], tr_freed = True\<rparr>"
proof -
  let ?n = "length strings"
  have n: "length (so_backtrace os depth) = ?n" "?n < 2 ^ 31" using assms(1,2) by (auto simp: stack_ok_def)
  then have u: "unat (of_nat ?n :: u64) = ?n" by (simp add: unsigned_of_nat take_bit_nat_eq_self)
  have i: "unat (word_of_int skip :: u64) = nat skip"
    using assms(3,4) by (simp add: unsigned_of_int take_bit_int_eq_self nat_eq_iff)
  have "push_frames strings (word_of_int skip) (of_nat ?n) bt = bt @ map ((!) strings) [nat skip..<?n]"
    by (subst push_frames_eq) (simp_all add: u i)
  also have "map ((!) strings) [nat skip..<?n] = drop (nat skip) strings"
    by (rule nth_equalityI) simp_all
  finally show ?thesis using assms(2) n(1) by (simp add: BackTrace_def Let_def)
qed

section \<open>Assertions\<close>

text \<open>
  \<open>ATPDXY_ASSERT(x)\<close> and \<open>ATPDXY_ASSERT2(x, w)\<close>: a condition that fails is logged at the root
  logger with a stack trace; then \<open>assert(x)\<close> aborts, unless the program was compiled with
  \<open>NDEBUG\<close>.
\<close>

definition assert_text :: "stack_os \<Rightarrow> string \<Rightarrow> string option \<Rightarrow> string" where
  "assert_text os x w = ''ASSERTION: '' @ x @ (case w of None \<Rightarrow> [] | Some s \<Rightarrow> newline @ s) @
     newline @ ''backtrace:'' @ newline @ BacktraceToString os 100 2 ''    ''"

definition assert_stmt ::
  "bool \<Rightarrow> stack_os \<Rightarrow> env \<Rightarrow> (addr \<Rightarrow> level \<Rightarrow> log_event) \<Rightarrow> string \<Rightarrow> bool \<Rightarrow> string option \<Rightarrow> log_world \<Rightarrow> fault + log_world" where
  "assert_stmt ndebug os env ctx x holds w world =
     (if holds then Inr world
      else (case w_root world of
              None \<Rightarrow> Inl Null_deref
            | Some root \<Rightarrow>
                rbind (log_stmt env ctx root ERROR (assert_text os x w) world) (\<lambda>world'.
                  if ndebug then Inr world' else Inl (Assertion x))))"

section \<open>Singletons\<close>

text \<open>\<open>Singleton<T>::GetInstance\<close>: the local static object, made by the first call.\<close>

definition GetInstance :: "('s \<Rightarrow> 't \<times> 's) \<Rightarrow> 't option \<times> 's \<Rightarrow> 't \<times> 't option \<times> 's" where
  "GetInstance construct st =
     (case st of
        (Some x, s) \<Rightarrow> (x, Some x, s)
      | (None, s) \<Rightarrow> (case construct s of (x, s') \<Rightarrow> (x, Some x, s')))"


section \<open>Properties\<close>

text \<open>A stack trace is one line for every frame beyond the first \<open>skip\<close>, innermost first, each
  after the prefix; when the system has no memory for the texts it is empty and the array of
  addresses is never freed.\<close>

theorem backtrace_text:
  assumes "stack_ok os" "0 \<le> skip" "skip < 2 ^ 31"
  shows "(case so_symbols os (so_backtrace os depth) of
      None \<Rightarrow> BacktraceToString os depth skip prefix = [] \<and> \<not> tr_freed (BackTrace os bt depth skip)
    | Some strings \<Rightarrow> BacktraceToString os depth skip prefix = concat (map (\<lambda>b. prefix @ b @ newline) (drop (nat skip) strings)) \<and>
        tr_freed (BackTrace os bt depth skip))"
proof (cases "so_symbols os (so_backtrace os depth)")
  case None
  then show ?thesis by (simp add: BacktraceToString_def BackTrace_def Let_def)
next
  case (Some strings)
  then show ?thesis using BackTrace_lines [OF assms(1) Some assms(2,3)] by (simp add: BacktraceToString_def)
qed

text \<open>A condition that fails ends in a failed assertion after it has been logged at the root
  logger; with \<open>NDEBUG\<close> the program goes on; and when the root logger has no appenders the
  report itself is the fault, with \<open>NDEBUG\<close> or without.\<close>

theorem failed_assertion:
  assumes "log_reachable w" "w_root w = Some r" "dates_fit env" "event_context ctx"
    and "lg_level (w_loggers w ! r) \<le> ERROR"
  shows "assert_stmt ndebug os env ctx x True info w = Inr w \<and>
    (if lg_appenders (w_loggers w ! r) = [] then assert_stmt ndebug os env ctx x False info w = Inl Null_deref
     else (\<exists>w'. log_stmt env ctx r ERROR (assert_text os x info) w = Inr w' \<and>
       assert_stmt ndebug os env ctx x False info w = (if ndebug then Inr w' else Inl (Assertion x))))"
proof (cases "lg_appenders (w_loggers w ! r) = []")
  case True
  have inv: "mgr_inv w" by (rule reachable_inv [OF assms(1)])
  then have root: "om_find (w_names w) ''root'' = Some r" using assms(2) by (auto simp: mgr_inv_def names_inv_def)
  note nr = named_logger_inv [OF inv root assms(2)]
  have l: "hget (w_loggers w) r = Some (w_loggers w ! r)" using nr(1) by (simp add: hget_def)
  have "logger_log env [] r ERROR e w = Inl Null_deref" for e
    using l True assms(5) nr(2) by (subst logger_log.simps) simp
  then have "log_stmt env ctx r ERROR s w = Inl Null_deref" for s
    using assms(4,5) l by (simp add: log_stmt_def on_logger_def wrap_dtor_def event_context_def ss_write_def)
  then show ?thesis using True assms(2) by (simp add: assert_stmt_def)
next
  case False
  obtain w' where "log_stmt env ctx r ERROR (assert_text os x info) w = Inr w'"
    using log_stmt_root [OF reachable_inv [OF assms(1)] assms(2) False assms(3,4)] by blast
  then show ?thesis using False assms(2) by (simp add: assert_stmt_def)
qed

definition demo_stack :: stack_os where
  "demo_stack = \<lparr>so_backtrace = (\<lambda>depth. if depth = 100 then [1, 2, 3] else []), so_symbols = (\<lambda>array. Some (map (\<lambda>_. ''f'') array))\<rparr>"

lemma demo_stack_ok: "stack_ok demo_stack"
  by (simp add: stack_ok_def demo_stack_def)

theorem backtrace_text_witness:
  "BacktraceToString demo_stack 100 2 ''  '' = ''  f'' @ newline"
  using backtrace_text [OF demo_stack_ok, of 2 100 "''  ''" "[]"] by (simp add: demo_stack_def)

theorem failed_assertion_witness:
  "assert_stmt False demo_stack plain_env demo_ctx ''x'' False None boot_world = Inl (Assertion ''x'')"
  using failed_assertion [OF boot_reachable boot_hyps(1,3) demo_ctx_context, of False demo_stack "''x''" None]
  by (auto simp: boot_world_eq mk_logger_def less_eq_level_def)

end
