(* ===== verification/Locks.thy ===== *)
theory Locks
  imports Prelude
begin

text \<open>
  The locks of mutex.h and mutex.cpp: the classes that wrap the operating system's locks, the
  three guard templates, the counting semaphore, and the spinning lock on an atomic flag.
  The wrapped objects belong to the operating system; what the code does is which calls it
  makes on them, so an operation of a wrapper is the list of calls it makes.
\<close>

section \<open>The wrappers\<close>

datatype sys_call =
    Mutex_init | Mutex_destroy | Mutex_lock | Mutex_unlock
  | Rwlock_init | Rwlock_destroy | Rwlock_rdlock | Rwlock_wrlock | Rwlock_unlock
  | Spin_init nat | Spin_destroy | Spin_lock | Spin_unlock

text \<open>
  The members the guard templates call on their \<open>T& m_mutex\<close>.  A class without \<open>rdlock\<close> is
  never used with \<open>ReadLockImpl\<close>: the template would not compile, so those fields are
  read only for the classes that have them.
\<close>

record lock_class =
  lc_ctor :: "sys_call list"
  lc_dtor :: "sys_call list"
  lc_lock :: "sys_call list"
  lc_rdlock :: "sys_call list"
  lc_wrlock :: "sys_call list"
  lc_unlock :: "sys_call list"

definition Mutex_class :: lock_class where
  "Mutex_class = \<lparr>lc_ctor = [Mutex_init], lc_dtor = [Mutex_destroy], lc_lock = [Mutex_lock],
     lc_rdlock = [], lc_wrlock = [], lc_unlock = [Mutex_unlock]\<rparr>"

definition NullMutex_class :: lock_class where
  "NullMutex_class = \<lparr>lc_ctor = [], lc_dtor = [], lc_lock = [], lc_rdlock = [], lc_wrlock = [], lc_unlock = []\<rparr>"

definition RWMutex_class :: lock_class where
  "RWMutex_class = \<lparr>lc_ctor = [Rwlock_init], lc_dtor = [Rwlock_destroy], lc_lock = [],
     lc_rdlock = [Rwlock_rdlock], lc_wrlock = [Rwlock_wrlock], lc_unlock = [Rwlock_unlock]\<rparr>"

definition NullRWMutex_class :: lock_class where
  "NullRWMutex_class = \<lparr>lc_ctor = [], lc_dtor = [], lc_lock = [], lc_rdlock = [], lc_wrlock = [], lc_unlock = []\<rparr>"

definition Spinlock_class :: lock_class where
  "Spinlock_class = \<lparr>lc_ctor = [Spin_init 0], lc_dtor = [Spin_destroy], lc_lock = [Spin_lock],
     lc_rdlock = [], lc_wrlock = [], lc_unlock = [Spin_unlock]\<rparr>"

section \<open>The guards\<close>

text \<open>
  A guard is its \<open>m_locked\<close>.  Its operations act on the state of the lock: \<open>acq\<close> is
  \<open>m_mutex.lock()\<close>, \<open>rdlock()\<close> or \<open>wrlock()\<close>, and \<open>rel\<close> is \<open>m_mutex.unlock()\<close>.
\<close>

record 'm guard =
  g_mutex :: 'm
  g_locked :: bool

definition guard_lock :: "('m \<Rightarrow> 'm) \<Rightarrow> 'm guard \<Rightarrow> 'm guard" where
  "guard_lock acq g = (if \<not> g_locked g then \<lparr>g_mutex = acq (g_mutex g), g_locked = True\<rparr> else g)"

definition guard_unlock :: "('m \<Rightarrow> 'm) \<Rightarrow> 'm guard \<Rightarrow> 'm guard" where
  "guard_unlock rel g = (if g_locked g then \<lparr>g_mutex = rel (g_mutex g), g_locked = False\<rparr> else g)"

definition guard_ctor :: "('m \<Rightarrow> 'm) \<Rightarrow> 'm \<Rightarrow> 'm guard" where
  "guard_ctor acq m = \<lparr>g_mutex = acq m, g_locked = True\<rparr>"

definition guard_dtor :: "('m \<Rightarrow> 'm) \<Rightarrow> 'm guard \<Rightarrow> 'm" where
  "guard_dtor rel g = g_mutex (guard_unlock rel g)"

text \<open>What the scope of a guard may do between its constructor and its destructor.\<close>

datatype guard_op = G_lock | G_unlock

fun guard_do :: "('m \<Rightarrow> 'm) \<Rightarrow> ('m \<Rightarrow> 'm) \<Rightarrow> guard_op \<Rightarrow> 'm guard \<Rightarrow> 'm guard" where
  "guard_do acq rel G_lock g = guard_lock acq g"
| "guard_do acq rel G_unlock g = guard_unlock rel g"

definition guard_scope :: "('m \<Rightarrow> 'm) \<Rightarrow> ('m \<Rightarrow> 'm) \<Rightarrow> guard_op list \<Rightarrow> 'm \<Rightarrow> 'm" where
  "guard_scope acq rel ops m = guard_dtor rel (fold (guard_do acq rel) ops (guard_ctor acq m))"

text \<open>On the calls a wrapper makes: an operation appends its calls to those made so far.\<close>

definition calls :: "sys_call list \<Rightarrow> sys_call list \<Rightarrow> sys_call list" where
  "calls cs made = made @ cs"

text \<open>\<open>ScopedLockImpl<T>\<close>, \<open>ReadLockImpl<T>\<close> and \<open>WriteLockImpl<T>\<close> over a wrapper class\<close>

definition scoped_lock :: "lock_class \<Rightarrow> guard_op list \<Rightarrow> sys_call list \<Rightarrow> sys_call list" where
  "scoped_lock c = guard_scope (calls (lc_lock c)) (calls (lc_unlock c))"

definition read_lock :: "lock_class \<Rightarrow> guard_op list \<Rightarrow> sys_call list \<Rightarrow> sys_call list" where
  "read_lock c = guard_scope (calls (lc_rdlock c)) (calls (lc_unlock c))"

definition write_lock :: "lock_class \<Rightarrow> guard_op list \<Rightarrow> sys_call list \<Rightarrow> sys_call list" where
  "write_lock c = guard_scope (calls (lc_wrlock c)) (calls (lc_unlock c))"

text \<open>
  The contract of a lock, as the guards use it: the lock is acquired only when this owner
  does not hold it and released only when it does.
\<close>

locale lockable =
  fixes acq :: "'m \<Rightarrow> 'm" and rel :: "'m \<Rightarrow> 'm"
    and free :: "'m \<Rightarrow> bool" and held :: "'m \<Rightarrow> bool"
  assumes acq_held: "free m \<Longrightarrow> held (acq m)"
    and rel_free: "held m \<Longrightarrow> free (rel m)"
begin

lemma guard_ops:
  "(if g_locked g then held (g_mutex g) else free (g_mutex g)) \<Longrightarrow>
   (let g' = fold (guard_do acq rel) ops g in if g_locked g' then held (g_mutex g') else free (g_mutex g'))"
proof (induction ops arbitrary: g)
  case Nil
  then show ?case by (simp add: Let_def)
next
  case (Cons x xs)
  have "if g_locked (guard_do acq rel x g) then held (g_mutex (guard_do acq rel x g))
      else free (g_mutex (guard_do acq rel x g))"
    using Cons.prems by (cases x) (auto simp: guard_lock_def guard_unlock_def acq_held rel_free)
  from Cons.IH [OF this] show ?case by simp
qed

text \<open>Whatever the scope does with its guard, the lock is free at the end.\<close>

lemma scope_free: "free m \<Longrightarrow> free (guard_scope acq rel ops m)"
  using guard_ops [of "guard_ctor acq m" ops]
  by (auto simp: guard_scope_def guard_ctor_def guard_dtor_def guard_unlock_def acq_held rel_free Let_def
      split: if_splits)

end

text \<open>The calls of a lock: acquiring and releasing alternate.\<close>

fun alternating :: "'c \<Rightarrow> 'c \<Rightarrow> bool \<Rightarrow> 'c list \<Rightarrow> bool" where
  "alternating a r locked [] = (\<not> locked)"
| "alternating a r locked (c # cs) =
     (if locked then c = r \<and> alternating a r False cs else c = a \<and> alternating a r True cs)"

definition open_calls :: "'c \<Rightarrow> 'c \<Rightarrow> bool \<Rightarrow> 'c list \<Rightarrow> bool" where
  "open_calls a r locked cs \<longleftrightarrow> alternating a r False (cs @ (if locked then [r] else []))"

lemma alternating_close: "alternating a r l cs \<Longrightarrow> alternating a r l (cs @ [a, r])"
  by (induction a r l cs rule: alternating.induct) auto

lemma trace_lockable:
  "lockable (\<lambda>cs. cs @ [a]) (\<lambda>cs. cs @ [r]) (open_calls a r False) (open_calls a r True)"
  by unfold_locales (auto simp: open_calls_def alternating_close)

interpretation mutex_calls: lockable "calls (lc_lock Mutex_class)" "calls (lc_unlock Mutex_class)"
    "open_calls Mutex_lock Mutex_unlock False" "open_calls Mutex_lock Mutex_unlock True"
  using trace_lockable by (simp add: calls_def [abs_def] Mutex_class_def)

interpretation spin_calls: lockable "calls (lc_lock Spinlock_class)" "calls (lc_unlock Spinlock_class)"
    "open_calls Spin_lock Spin_unlock False" "open_calls Spin_lock Spin_unlock True"
  using trace_lockable by (simp add: calls_def [abs_def] Spinlock_class_def)

interpretation read_calls: lockable "calls (lc_rdlock RWMutex_class)" "calls (lc_unlock RWMutex_class)"
    "open_calls Rwlock_rdlock Rwlock_unlock False" "open_calls Rwlock_rdlock Rwlock_unlock True"
  using trace_lockable by (simp add: calls_def [abs_def] RWMutex_class_def)

interpretation write_calls: lockable "calls (lc_wrlock RWMutex_class)" "calls (lc_unlock RWMutex_class)"
    "open_calls Rwlock_wrlock Rwlock_unlock False" "open_calls Rwlock_wrlock Rwlock_unlock True"
  using trace_lockable by (simp add: calls_def [abs_def] RWMutex_class_def)

text \<open>C29. Every guard leaves its lock released, and its calls alternate between acquiring and
  releasing, whatever explicit \<open>lock()\<close> and \<open>unlock()\<close> calls its scope makes.\<close>

theorem guards_balanced:
  "alternating Mutex_lock Mutex_unlock False (scoped_lock Mutex_class ops []) \<and>
   alternating Spin_lock Spin_unlock False (scoped_lock Spinlock_class ops []) \<and>
   alternating Rwlock_rdlock Rwlock_unlock False (read_lock RWMutex_class ops []) \<and>
   alternating Rwlock_wrlock Rwlock_unlock False (write_lock RWMutex_class ops [])"
  using mutex_calls.scope_free [of "[]" ops] spin_calls.scope_free [of "[]" ops]
    read_calls.scope_free [of "[]" ops] write_calls.scope_free [of "[]" ops]
  by (simp add: scoped_lock_def read_lock_def write_lock_def open_calls_def)

lemma null_guards:
  "scoped_lock NullMutex_class ops cs = cs" "read_lock NullRWMutex_class ops cs = cs"
  "write_lock NullRWMutex_class ops cs = cs"
proof -
  have f: "g_mutex (fold (guard_do (calls []) (calls [])) ops g) = g_mutex g" for g :: "sys_call list guard"
  proof (induction ops arbitrary: g)
    case (Cons x xs)
    have "g_mutex (guard_do (calls []) (calls []) x g) = g_mutex g"
      by (cases x) (simp_all add: guard_lock_def guard_unlock_def calls_def)
    with Cons show ?case by simp
  qed simp
  show "scoped_lock NullMutex_class ops cs = cs" "read_lock NullRWMutex_class ops cs = cs"
    "write_lock NullRWMutex_class ops cs = cs"
    by (simp_all add: scoped_lock_def read_lock_def write_lock_def guard_scope_def guard_dtor_def
        guard_unlock_def guard_ctor_def f NullMutex_class_def NullRWMutex_class_def)
      (simp_all add: calls_def)
qed

section \<open>The semaphore\<close>

text \<open>
  The return codes of \<open>sem_init\<close>, \<open>sem_wait\<close> and \<open>sem_post\<close> are the system's; a code other
  than zero is an exception.  A successful wait takes one from the count.
\<close>

definition sem_ctor :: "int \<Rightarrow> u32 \<Rightarrow> fault + nat" where
  "sem_ctor rt count = (if rt \<noteq> 0 then Inl (Throws (Std_exception ''sem_init error'')) else Inr (unat count))"

definition sem_wait :: "int \<Rightarrow> nat \<Rightarrow> fault + nat" where
  "sem_wait rt n = (if rt \<noteq> 0 then Inl (Throws (Std_exception ''sem_wait error'')) else Inr (n - 1))"

definition sem_notify :: "int \<Rightarrow> nat \<Rightarrow> fault + nat" where
  "sem_notify rt n = (if rt \<noteq> 0 then Inl (Throws (Std_exception ''sem_post error'')) else Inr (n + 1))"

section \<open>The lock on an atomic flag\<close>

text \<open>
  \<open>CASLock\<close>: \<open>lock()\<close> repeats an atomic test-and-set until it reads a clear flag, \<open>unlock()\<close>
  clears the flag.  The steps of the threads interleave; a thread is outside, in the loop of
  \<open>lock()\<close>, or past it.
\<close>

datatype cas_pc = Outside | Spinning | Inside

record cas_state =
  cas_flag :: bool
  cas_pc :: "nat \<Rightarrow> cas_pc"

definition test_and_set :: "cas_state \<Rightarrow> bool \<times> cas_state" where
  "test_and_set s = (cas_flag s, s\<lparr>cas_flag := True\<rparr>)"

definition cas_ctor :: cas_state where
  "cas_ctor = \<lparr>cas_flag = False, cas_pc = (\<lambda>_. Outside)\<rparr>"

definition cas_unlock :: "nat \<Rightarrow> cas_state \<Rightarrow> cas_state" where
  "cas_unlock t s = s\<lparr>cas_flag := False, cas_pc := (cas_pc s)(t := Outside)\<rparr>"

text \<open>One evaluation of the loop's condition.\<close>

definition cas_spin :: "nat \<Rightarrow> cas_state \<Rightarrow> cas_state" where
  "cas_spin t s =
     (case test_and_set s of (was, s') \<Rightarrow>
        if was then s' else s'\<lparr>cas_pc := (cas_pc s')(t := Inside)\<rparr>)"

inductive cas_step :: "cas_state \<Rightarrow> cas_state \<Rightarrow> bool" where
  cas_enter: "cas_pc s t = Outside \<Longrightarrow> cas_step s (s\<lparr>cas_pc := (cas_pc s)(t := Spinning)\<rparr>)"
| cas_try: "cas_pc s t = Spinning \<Longrightarrow> cas_step s (cas_spin t s)"
| cas_leave: "cas_pc s t = Inside \<Longrightarrow> cas_step s (cas_unlock t s)"

inductive cas_reachable :: "cas_state \<Rightarrow> bool" where
  cas_start: "cas_reachable cas_ctor"
| cas_next: "cas_reachable s \<Longrightarrow> cas_step s s' \<Longrightarrow> cas_reachable s'"

definition cas_inv :: "cas_state \<Rightarrow> bool" where
  "cas_inv s \<longleftrightarrow> (\<forall>t. cas_pc s t = Inside \<longrightarrow> cas_flag s) \<and> (cas_flag s \<longrightarrow> (\<exists>t. cas_pc s t = Inside)) \<and>
     (\<forall>t u. cas_pc s t = Inside \<and> cas_pc s u = Inside \<longrightarrow> t = u)"

lemma cas_inv_step: "cas_step s s' \<Longrightarrow> cas_inv s \<Longrightarrow> cas_inv s'"
proof (induction rule: cas_step.induct)
  case (cas_enter s t)
  then show ?case unfolding cas_inv_def by (simp add: fun_upd_def) (metis cas_pc.distinct(3))
next
  case (cas_try s t)
  then show ?case
    by (cases "cas_flag s") (auto simp: cas_inv_def cas_spin_def test_and_set_def)
next
  case (cas_leave s t)
  then show ?case unfolding cas_inv_def cas_unlock_def by auto
qed

lemma cas_reachable_inv: "cas_reachable s \<Longrightarrow> cas_inv s"
proof (induction rule: cas_reachable.induct)
  case cas_start
  then show ?case by (simp add: cas_inv_def cas_ctor_def)
next
  case (cas_next s s')
  then show ?case by (blast intro: cas_inv_step)
qed

text \<open>At most one thread is past the loop of \<open>lock()\<close>, the flag is set exactly while one is,
  and when none is, a spinning thread gets the lock with its next test.\<close>

theorem cas_mutual_exclusion:
  assumes "cas_reachable s"
  shows "(\<forall>t u. cas_pc s t = Inside \<and> cas_pc s u = Inside \<longrightarrow> t = u) \<and>
    (cas_flag s \<longleftrightarrow> (\<exists>t. cas_pc s t = Inside)) \<and>
    (\<forall>t. \<not> cas_flag s \<longrightarrow> cas_pc (cas_spin t s) t = Inside) \<and>
    (\<forall>t. cas_flag s \<longrightarrow> cas_spin t s = s)"
  using cas_reachable_inv [OF assms]
  by (auto simp: cas_inv_def cas_spin_def test_and_set_def)

theorem cas_mutual_exclusion_witness:
  "cas_flag (cas_spin 1 (cas_ctor\<lparr>cas_pc := (cas_pc cas_ctor)(1 := Spinning)\<rparr>))"
proof -
  let ?s = "cas_ctor\<lparr>cas_pc := (cas_pc cas_ctor)(1 := Spinning)\<rparr>"
  have r: "cas_reachable ?s"
    by (rule cas_next [OF cas_start cas_enter]) (simp add: cas_ctor_def)
  have "cas_reachable (cas_spin 1 ?s)" by (rule cas_next [OF r cas_try]) simp
  moreover have "cas_pc (cas_spin 1 ?s) 1 = Inside"
    using cas_mutual_exclusion [OF r] by (simp add: cas_ctor_def)
  ultimately show ?thesis using cas_mutual_exclusion by blast
qed

end
