(* ===== verification/Threads.thy ===== *)
theory Threads
  imports Locks Containers
begin

text \<open>
  Threads (thread.h and thread.cpp): the constructor and the new thread's entry function run
  side by side and meet at a semaphore; \<open>join\<close> and the destructor release the handle; the
  thread-local pointer and name serve the logging of the thread.
\<close>

section \<open>The object and the thread-local variables\<close>

record 'c thread_obj =
  th_id :: int
  th_thread :: nat
  th_cb :: "'c option"
  th_name :: string
  th_semaphore :: nat

text \<open>\<open>t_thread\<close> and \<open>t_thread_name\<close> of one thread\<close>

record thread_locals =
  tl_thread :: "addr option"
  tl_name :: string

definition fresh_locals :: thread_locals where
  "fresh_locals = \<lparr>tl_thread = None, tl_name = ''UNKNOW''\<rparr>"

definition thread_GetThis :: "thread_locals \<Rightarrow> addr option" where
  "thread_GetThis loc = tl_thread loc"

definition thread_GetName :: "thread_locals \<Rightarrow> string" where
  "thread_GetName loc = tl_name loc"

text \<open>\<open>SetName\<close>: the objects that have been destroyed are \<open>None\<close> in the heap.\<close>

definition thread_SetName ::
  "string \<Rightarrow> 'c thread_obj option list \<times> thread_locals \<Rightarrow> fault + 'c thread_obj option list \<times> thread_locals" where
  "thread_SetName name st =
     (case st of (objs, loc) \<Rightarrow>
        (case tl_thread loc of
           None \<Rightarrow> Inr (objs, loc\<lparr>tl_name := name\<rparr>)
         | Some a \<Rightarrow>
             (case hget objs a of
                Some (Some th) \<Rightarrow> Inr (hset objs a (Some (th\<lparr>th_name := name\<rparr>)), loc\<lparr>tl_name := name\<rparr>)
              | _ \<Rightarrow> Inl Null_deref)))"

section \<open>Construction\<close>

text \<open>The members before \<open>pthread_create\<close>.\<close>

definition thread_init :: "'c \<Rightarrow> string \<Rightarrow> 'c thread_obj" where
  "thread_init cb name =
     \<lparr>th_id = - 1, th_thread = 0, th_cb = Some cb, th_name = (if name = [] then ''UNKNOW'' else name),
      th_semaphore = 0\<rparr>"

text \<open>
  Where the constructor and the entry function stand.  \<open>C_failed\<close>: the constructor has thrown,
  and the object is gone.  The entry function stops before each access to the object.
\<close>

datatype creator_pc = C_create | C_wait | C_done | C_failed

datatype 'c runner_pc =
    R_none | R_this | R_name | R_id | R_setname | R_swap | R_notify "'c option" | R_call "'c option"

record 'c thread_sys =
  ts_obj :: "'c thread_obj option"
  ts_creator :: creator_pc
  ts_runner :: "'c runner_pc"
  ts_locals :: thread_locals
  ts_os_name :: string

definition thread_start :: "'c \<Rightarrow> string \<Rightarrow> 'c thread_sys" where
  "thread_start cb name =
     \<lparr>ts_obj = Some (thread_init cb name), ts_creator = C_create, ts_runner = R_none,
      ts_locals = fresh_locals, ts_os_name = []\<rparr>"

text \<open>
  The constructor: \<open>rt\<close> is the result of \<open>pthread_create\<close> or of \<open>sem_wait\<close>, \<open>h\<close> the handle.  An
  exception leaves the constructor and destroys the object.  \<open>sem_wait\<close> with the result zero
  returns only when the count is positive; \<open>None\<close> is a thread that cannot go on.
\<close>

definition creator_step :: "int \<Rightarrow> nat \<Rightarrow> 'c thread_sys \<Rightarrow> 'c thread_sys option" where
  "creator_step rt h s =
     (case (ts_creator s, ts_obj s) of
        (C_create, Some th) \<Rightarrow>
          Some (if rt \<noteq> 0 then s\<lparr>ts_creator := C_failed, ts_obj := None\<rparr>
                else s\<lparr>ts_creator := C_wait, ts_obj := Some (th\<lparr>th_thread := h\<rparr>), ts_runner := R_this\<rparr>)
      | (C_wait, Some th) \<Rightarrow>
          if rt = 0 \<and> th_semaphore th = 0 then None
          else (case sem_wait rt (th_semaphore th) of
                  Inl _ \<Rightarrow> Some (s\<lparr>ts_creator := C_failed, ts_obj := None\<rparr>)
                | Inr n \<Rightarrow> Some (s\<lparr>ts_creator := C_done, ts_obj := Some (th\<lparr>th_semaphore := n\<rparr>)\<rparr>))
      | _ \<Rightarrow> None)"

text \<open>
  \<open>Thread::run\<close> on the new thread, whose system id is \<open>tid\<close>, up to the call of the callback; the
  object's address is \<open>a\<close>.  An access to an object that is gone is a fault.
\<close>

definition with_obj :: "'c thread_sys \<Rightarrow> ('c thread_obj \<Rightarrow> fault + 'c thread_sys) \<Rightarrow> fault + 'c thread_sys" where
  "with_obj s f = (case ts_obj s of None \<Rightarrow> Inl Null_deref | Some th \<Rightarrow> f th)"

definition runner_step :: "int \<Rightarrow> addr \<Rightarrow> int \<Rightarrow> 'c thread_sys \<Rightarrow> (fault + 'c thread_sys) option" where
  "runner_step rt a tid s =
     (case ts_runner s of
        R_this \<Rightarrow> Some (Inr (s\<lparr>ts_locals := (ts_locals s)\<lparr>tl_thread := Some a\<rparr>, ts_runner := R_name\<rparr>))
      | R_name \<Rightarrow> Some (with_obj s (\<lambda>th.
          Inr (s\<lparr>ts_locals := (ts_locals s)\<lparr>tl_name := th_name th\<rparr>, ts_runner := R_id\<rparr>)))
      | R_id \<Rightarrow> Some (with_obj s (\<lambda>th. Inr (s\<lparr>ts_obj := Some (th\<lparr>th_id := tid\<rparr>), ts_runner := R_setname\<rparr>)))
      | R_setname \<Rightarrow> Some (with_obj s (\<lambda>th. Inr (s\<lparr>ts_os_name := substr (th_name th) 0 15, ts_runner := R_swap\<rparr>)))
      | R_swap \<Rightarrow> Some (with_obj s (\<lambda>th. Inr (s\<lparr>ts_obj := Some (th\<lparr>th_cb := None\<rparr>), ts_runner := R_notify (th_cb th)\<rparr>)))
      | R_notify cb \<Rightarrow> Some (with_obj s (\<lambda>th.
          rbind (sem_notify rt (th_semaphore th)) (\<lambda>n.
            Inr (s\<lparr>ts_obj := Some (th\<lparr>th_semaphore := n\<rparr>), ts_runner := R_call cb\<rparr>))))
      | _ \<Rightarrow> None)"

text \<open>
  The two threads interleave; after the constructor the owner may destroy the object.
  \<open>wait_rt\<close> is what \<open>sem_wait\<close> returns.
\<close>

inductive thread_step :: "int \<Rightarrow> nat \<Rightarrow> addr \<Rightarrow> int \<Rightarrow> 'c thread_sys \<Rightarrow> fault + 'c thread_sys \<Rightarrow> bool"
  for wait_rt h a tid where
  step_create: "ts_creator s = C_create \<Longrightarrow> creator_step 0 h s = Some s' \<Longrightarrow> thread_step wait_rt h a tid s (Inr s')"
| step_wait: "ts_creator s = C_wait \<Longrightarrow> creator_step wait_rt h s = Some s' \<Longrightarrow> thread_step wait_rt h a tid s (Inr s')"
| step_run: "runner_step 0 a tid s = Some r \<Longrightarrow> thread_step wait_rt h a tid s r"
| step_destroy: "ts_creator s = C_done \<Longrightarrow> thread_step wait_rt h a tid s (Inr (s\<lparr>ts_obj := None\<rparr>))"

inductive thread_reach :: "int \<Rightarrow> nat \<Rightarrow> addr \<Rightarrow> int \<Rightarrow> 'c thread_sys \<Rightarrow> fault + 'c thread_sys \<Rightarrow> bool"
  for wait_rt h a tid s0 where
  reach_start: "thread_reach wait_rt h a tid s0 (Inr s0)"
| reach_next: "thread_reach wait_rt h a tid s0 (Inr s) \<Longrightarrow> thread_step wait_rt h a tid s r \<Longrightarrow>
    thread_reach wait_rt h a tid s0 r"

section \<open>Joining and destruction\<close>

datatype handle_call = Pthread_join nat | Pthread_detach nat

text \<open>\<open>join\<close>: \<open>rt\<close> is the result of \<open>pthread_join\<close>; the calls made are part of the result.\<close>

definition thread_join :: "int \<Rightarrow> 'c thread_obj \<Rightarrow> handle_call list \<times> (fault + unit) \<times> 'c thread_obj" where
  "thread_join rt th =
     (if th_thread th \<noteq> 0 then
        if rt \<noteq> 0 then ([Pthread_join (th_thread th)], Inl (Throws (Std_exception ''pthread_join error'')), th)
        else ([Pthread_join (th_thread th)], Inr (), th\<lparr>th_thread := 0\<rparr>)
      else ([], Inr (), th))"

definition thread_dtor :: "'c thread_obj \<Rightarrow> handle_call list" where
  "thread_dtor th = (if th_thread th \<noteq> 0 then [Pthread_detach (th_thread th)] else [])"

fun join_all :: "int list \<Rightarrow> 'c thread_obj \<Rightarrow> handle_call list \<times> 'c thread_obj" where
  "join_all [] th = ([], th)"
| "join_all (rt # rts) th =
     (case thread_join rt th of (cs, _, th') \<Rightarrow> (case join_all rts th' of (cs', th'') \<Rightarrow> (cs @ cs', th'')))"

section \<open>Properties\<close>

lemma join_all_done: "th_thread th = 0 \<Longrightarrow> join_all rts th = ([], th)"
  by (induction rts) (simp_all add: thread_join_def)

text \<open>The handle of a thread is given back exactly once: by the first \<open>join\<close> that succeeds,
  after which nothing touches it, or else by the destructor.\<close>

theorem handle_released_once:
  assumes "th_thread th \<noteq> 0" "join_all rts th = (cs, th')"
  shows "cs @ thread_dtor th' =
    (if 0 \<in> set rts
     then replicate (Suc (length (takeWhile (\<lambda>rt. rt \<noteq> 0) rts))) (Pthread_join (th_thread th))
     else replicate (length rts) (Pthread_join (th_thread th)) @ [Pthread_detach (th_thread th)])"
  using assms
proof (induction rts arbitrary: cs)
  case Nil
  then show ?case by (simp add: thread_dtor_def)
next
  case (Cons rt rts)
  then show ?case
    by (cases "rt = 0") (auto simp: thread_join_def join_all_done thread_dtor_def split: prod.splits)
qed

theorem handle_released_once_witness:
  "fst (join_all [3, 0, 0] ((thread_init () ''t'')\<lparr>th_thread := 7\<rparr>)) = [Pthread_join 7, Pthread_join 7]"
  using handle_released_once [of "(thread_init () ''t'')\<lparr>th_thread := 7\<rparr>" "[3, 0, 0]", OF _ surjective_pairing]
  by (simp add: thread_join_def thread_dtor_def)

text \<open>Before the entry function has notified the semaphore, its object is alive and the
  constructor waits; from then on it does not touch the object.\<close>

definition waiting :: "string \<Rightarrow> 'c thread_sys \<Rightarrow> 'c thread_obj \<Rightarrow> bool" where
  "waiting nm s th \<longleftrightarrow> ts_creator s = C_wait \<and> ts_obj s = Some th \<and> th_semaphore th = 0 \<and>
     th_name th = nm \<and> th_thread th \<noteq> 0"

fun pc_inv :: "'c \<Rightarrow> string \<Rightarrow> int \<Rightarrow> 'c thread_sys \<Rightarrow> 'c runner_pc \<Rightarrow> bool" where
  "pc_inv cb nm tid s R_none \<longleftrightarrow> ts_creator s = C_create \<and>
     (\<exists>th. ts_obj s = Some th \<and> th_semaphore th = 0 \<and> th_name th = nm \<and> th_cb th = Some cb)"
| "pc_inv cb nm tid s R_this \<longleftrightarrow> (\<exists>th. waiting nm s th \<and> th_cb th = Some cb)"
| "pc_inv cb nm tid s R_name \<longleftrightarrow> (\<exists>th. waiting nm s th \<and> th_cb th = Some cb)"
| "pc_inv cb nm tid s R_id \<longleftrightarrow> (\<exists>th. waiting nm s th \<and> th_cb th = Some cb) \<and> tl_name (ts_locals s) = nm"
| "pc_inv cb nm tid s R_setname \<longleftrightarrow>
     (\<exists>th. waiting nm s th \<and> th_cb th = Some cb \<and> th_id th = tid) \<and> tl_name (ts_locals s) = nm"
| "pc_inv cb nm tid s R_swap \<longleftrightarrow>
     (\<exists>th. waiting nm s th \<and> th_cb th = Some cb \<and> th_id th = tid) \<and> tl_name (ts_locals s) = nm \<and>
     ts_os_name s = take 15 nm"
| "pc_inv cb nm tid s (R_notify c) \<longleftrightarrow>
     (\<exists>th. waiting nm s th \<and> th_cb th = None \<and> th_id th = tid) \<and> tl_name (ts_locals s) = nm \<and>
     ts_os_name s = take 15 nm \<and> c = Some cb"
| "pc_inv cb nm tid s (R_call c) \<longleftrightarrow>
     (ts_creator s = C_wait \<and> (\<exists>th. ts_obj s = Some th \<and> th_semaphore th = 1) \<or> ts_creator s = C_done) \<and>
     (\<forall>th. ts_obj s = Some th \<longrightarrow> th_id th = tid \<and> th_cb th = None \<and> th_thread th \<noteq> 0) \<and>
     tl_name (ts_locals s) = nm \<and> ts_os_name s = take 15 nm \<and> c = Some cb"

definition handshake_inv :: "'c \<Rightarrow> string \<Rightarrow> int \<Rightarrow> 'c thread_sys \<Rightarrow> bool" where
  "handshake_inv cb nm tid s = pc_inv cb nm tid s (ts_runner s)"

lemma pc_inv_creator:
  "pc_inv cb nm tid s pc \<Longrightarrow> ts_creator s = C_create \<longleftrightarrow> pc = R_none"
  "pc_inv cb nm tid s pc \<Longrightarrow> ts_creator s = C_done \<Longrightarrow> \<exists>c. pc = R_call c"
  by (cases pc; auto simp: waiting_def)+

lemma creator_wait:
  assumes "ts_creator s = C_wait" "ts_obj s = Some th"
  shows "creator_step 0 h s = (if th_semaphore th = 0 then None
    else Some (s\<lparr>ts_creator := C_done, ts_obj := Some (th\<lparr>th_semaphore := th_semaphore th - 1\<rparr>)\<rparr>))"
  using assms by (simp add: creator_step_def sem_wait_def)

lemma pc_inv_wait:
  assumes "pc_inv cb nm tid s (ts_runner s)" "ts_creator s = C_wait" "creator_step 0 h s = Some s'"
  shows "pc_inv cb nm tid s' (ts_runner s')"
proof -
  obtain th where th: "ts_obj s = Some th"
    using assms(3) by (cases "ts_obj s") (simp_all add: creator_step_def assms(2))
  have s': "th_semaphore th \<noteq> 0" "s' = s\<lparr>ts_creator := C_done, ts_obj := Some (th\<lparr>th_semaphore := th_semaphore th - 1\<rparr>)\<rparr>"
    using assms(3) creator_wait [OF assms(2) th, of h] by (auto split: if_splits)
  have "\<exists>c. ts_runner s = R_call c"
    using assms(1) th s'(1) assms(2) by (cases "ts_runner s") (simp_all add: waiting_def)
  then obtain c where "ts_runner s = R_call c" ..
  then show ?thesis using assms(1) th by (simp add: s'(2))
qed

lemma runner_step_inv:
  assumes "pc_inv cb nm tid s (ts_runner s)" "runner_step 0 a tid s = Some r"
  shows "\<exists>s'. r = Inr s' \<and> pc_inv cb nm tid s' (ts_runner s')"
  using assms
  by (cases "ts_runner s") (auto simp: runner_step_def with_obj_def waiting_def sem_notify_def substr_def)

lemma handshake_step:
  assumes "thread_step 0 h a tid s r" "handshake_inv cb nm tid s" "h \<noteq> 0"
  shows "\<exists>s'. r = Inr s' \<and> handshake_inv cb nm tid s'"
  using assms
proof (induction rule: thread_step.induct)
  case (step_create s s')
  then have "ts_runner s = R_none" using pc_inv_creator(1) [of cb nm tid s "ts_runner s"] by (simp add: handshake_inv_def)
  then show ?case using step_create by (auto simp: creator_step_def handshake_inv_def waiting_def)
next
  case (step_wait s s')
  then show ?case using pc_inv_wait [of cb nm tid s h s'] by (simp add: handshake_inv_def)
next
  case (step_run s r)
  then show ?case using runner_step_inv [of cb nm tid s a r] by (simp add: handshake_inv_def)
next
  case (step_destroy s)
  then obtain c where "ts_runner s = R_call c" using pc_inv_creator(2) [of cb nm tid s "ts_runner s"] by (auto simp: handshake_inv_def)
  then show ?case using step_destroy by (simp add: handshake_inv_def)
qed

lemma handshake_reach:
  assumes "thread_reach 0 h a tid (thread_start cb name) r" "h \<noteq> 0"
  shows "\<exists>s. r = Inr s \<and> handshake_inv cb (if name = [] then ''UNKNOW'' else name) tid s"
  using assms
proof (induction rule: thread_reach.induct)
  case reach_start
  then show ?case by (simp add: handshake_inv_def thread_start_def thread_init_def)
next
  case (reach_next s r)
  show ?case
    by (rule handshake_step [OF reach_next.hyps(2) _ assms(2)]) (use reach_next.IH assms(2) in simp)
qed

text \<open>C20. In every interleaving the entry function finds its object alive, even if the owner
  destroys it as soon as the constructor has returned; and when the constructor has returned,
  the system id of the thread is known, the callback has been taken over by the new thread, and
  its name is set, in the system cut to fifteen characters.\<close>

theorem constructor_handshake:
  assumes "thread_reach 0 h a tid (thread_start cb name) r" "h \<noteq> 0"
  shows "\<exists>s. r = Inr s \<and> (ts_creator s = C_done \<longrightarrow>
     ts_runner s = R_call (Some cb) \<and>
     tl_name (ts_locals s) = (if name = [] then ''UNKNOW'' else name) \<and>
     ts_os_name s = take 15 (if name = [] then ''UNKNOW'' else name) \<and>
     (\<forall>th. ts_obj s = Some th \<longrightarrow> th_id th = tid \<and> th_cb th = None \<and> th_thread th \<noteq> 0))"
proof -
  let ?nm = "if name = [] then ''UNKNOW'' else name"
  obtain s where s: "r = Inr s" "pc_inv cb ?nm tid s (ts_runner s)"
    using handshake_reach [OF assms] by (auto simp: handshake_inv_def)
  show ?thesis
  proof (cases "ts_creator s = C_done")
    case True
    then obtain c where "ts_runner s = R_call c" using pc_inv_creator(2) [OF s(2)] by blast
    then show ?thesis using s by simp
  next
    case False
    then show ?thesis using s(1) by simp
  qed
qed

lemma handshake_run:
  "thread_reach wait_rt h a tid (thread_start cb name)
     (Inr ((thread_start cb name)\<lparr>ts_creator := C_wait, ts_runner := R_this,
        ts_obj := Some ((thread_init cb name)\<lparr>th_thread := h\<rparr>)\<rparr>))"
  by (rule reach_next [OF reach_start step_create]) (simp_all add: creator_step_def thread_start_def)

lemmas handshake_defs = runner_step_def with_obj_def sem_notify_def thread_init_def thread_start_def fresh_locals_def

theorem constructor_handshake_witness:
  "\<exists>s. thread_reach 0 5 0 77 (thread_start () ''io'') (Inr s) \<and> ts_creator s = C_done \<and>
     ts_runner s = R_call (Some ()) \<and> tl_name (ts_locals s) = ''io'' \<and> (\<exists>th. ts_obj s = Some th \<and> th_id th = 77)"
proof -
  let ?reach = "thread_reach 0 5 0 77 (thread_start () ''io'')"
  have run: "?reach r" if "?reach (Inr s)" "runner_step 0 0 77 s = Some r" for s r
    by (rule reach_next [OF that(1) step_run [OF that(2)]])
  obtain s where s: "?reach (Inr s)" "ts_creator s = C_wait" "\<exists>th. ts_obj s = Some th \<and> th_semaphore th = 1"
  proof -
    note r1 = run [OF handshake_run] note r2 = run [OF r1] note r3 = run [OF r2]
    note r4 = run [OF r3] note r5 = run [OF r4] note r6 = run [OF r5]
    show thesis by (rule that, rule r6) (simp add: handshake_defs)+
  qed
  then obtain th where th: "ts_obj s = Some th" "th_semaphore th = 1" by blast
  let ?d = "s\<lparr>ts_creator := C_done, ts_obj := Some (th\<lparr>th_semaphore := 0\<rparr>)\<rparr>"
  have d: "?reach (Inr ?d)"
    by (rule reach_next [OF s(1) step_wait [OF s(2)]]) (simp add: creator_wait [OF s(2) th(1)] th(2))
  show ?thesis using d constructor_handshake [OF d] by (intro exI [of _ ?d]) simp
qed

text \<open>A call of \<open>sem_wait\<close> that a signal interrupts makes the constructor throw while the new
  thread is starting: its entry function then uses the destroyed object.\<close>

theorem interrupted_constructor_dangles:
  assumes "wait_rt \<noteq> 0"
  shows "thread_reach wait_rt h a tid (thread_start cb name) (Inl Null_deref)"
proof -
  let ?s1 = "(thread_start cb name)\<lparr>ts_creator := C_wait, ts_runner := R_this,
        ts_obj := Some ((thread_init cb name)\<lparr>th_thread := h\<rparr>)\<rparr>"
  let ?s2 = "?s1\<lparr>ts_creator := C_failed, ts_obj := None\<rparr>"
  let ?s3 = "?s2\<lparr>ts_locals := (ts_locals ?s2)\<lparr>tl_thread := Some a\<rparr>, ts_runner := R_name\<rparr>"
  have 1: "thread_reach wait_rt h a tid (thread_start cb name) (Inr ?s1)" by (rule handshake_run)
  have 2: "thread_reach wait_rt h a tid (thread_start cb name) (Inr ?s2)"
    by (rule reach_next [OF 1 step_wait]) (simp_all add: creator_step_def sem_wait_def assms thread_start_def)
  have 3: "thread_reach wait_rt h a tid (thread_start cb name) (Inr ?s3)"
    by (rule reach_next [OF 2 step_run]) (simp add: runner_step_def thread_start_def)
  show ?thesis
    by (rule reach_next [OF 3 step_run]) (simp add: runner_step_def with_obj_def thread_start_def)
qed

theorem interrupted_constructor_dangles_witness:
  "thread_reach 4 5 0 77 (thread_start () ''io'') (Inl Null_deref)"
  by (rule interrupted_constructor_dangles) simp

end
