(* ===== verification/FiberInvariants.thy ===== *)
theory FiberInvariants
  imports Fibers
begin

text \<open>Correctness of fibers: what one switch to a fiber amounts to for the thread that makes
  it, the misuses that end in a fault, and the identifiers and the count of fibers.\<close>

section \<open>The heap of fibers\<close>

lemma fget_simps [simp]:
  "fget (SetThis p st) a = fget st a"
  "fget (flog l s st) a = fget st a"
  "fget (st\<lparr>f_this := p\<rparr>) a = fget st a" "fget (st\<lparr>f_thread := p\<rparr>) a = fget st a"
  "fget (st\<lparr>f_log := ls\<rparr>) a = fget st a" "fget (st\<lparr>f_count := n\<rparr>) a = fget st a"
  by (simp_all add: fget_def SetThis_def flog_def)

lemma fget_allocated: "fget st a = Some f \<Longrightarrow> a < length (f_heap st) \<and> f_heap st ! a = Some f"
  by (auto simp: fget_def hget_def split: option.splits if_splits)

lemma fget_fset: "a < length (f_heap st) \<Longrightarrow> fget (fset a f st) b = (if b = a then Some f else fget st b)"
  by (simp add: fget_def fset_def hget_hset)

lemma fget_fset_live [simp]: "fget st a = Some g \<Longrightarrow> fget (fset a f st) b = (if b = a then Some f else fget st b)"
  using fget_fset fget_allocated by blast

lemma fset_simps [simp]:
  "f_main (fset a f st) = f_main st" "f_this (fset a f st) = f_this st" "f_thread (fset a f st) = f_thread st"
  "f_main (SetThis p st) = f_main st" "f_this (SetThis p st) = p" "f_thread (SetThis p st) = f_thread st"
  "f_main (flog l s st) = f_main st" "f_this (flog l s st) = f_this st" "f_thread (flog l s st) = f_thread st"
  by (simp_all add: fset_def SetThis_def flog_def)

lemma check_simps [simp]: "check msg True r = r" "check msg False r = Inl (Assertion msg)"
  by (simp_all add: check_def)

lemma on_fiber_Some [simp]: "fget st a = Some f \<Longrightarrow> on_fiber a st k = k f"
  by (simp add: on_fiber_def)

lemma deref_simps [simp]: "deref (Some a) k = k a" "deref None k = Inl Null_deref"
  by (simp_all add: deref_def)

lemma GetThis_Some [simp]: "f_this st = Some a \<Longrightarrow> fiber_GetThis os st = Inr (a, st)"
  by (simp add: fiber_GetThis_def)

section \<open>One run of a fiber\<close>

text \<open>
  What a piece of code does until it gives the thread back: the computations of its own, and
  then a yield, a return or an exception.  \<open>None\<close>: it does not get there in \<open>n\<close> calls, or
  switches contexts itself.
\<close>

datatype 'c outcome = Yields fiber_state 'c | Ends ending

fun burst :: "nat \<Rightarrow> ('c \<Rightarrow> ('c, 'x) fiber_op) \<Rightarrow> 'c \<Rightarrow> 'x \<Rightarrow> ('c outcome \<times> 'x) option" where
  "burst 0 code c x = None"
| "burst (Suc n) code c x =
     (case code c of
        Op_ext f \<Rightarrow> (case f x of (k, x') \<Rightarrow> burst n code k x')
      | Op_yieldReady k \<Rightarrow> Some (Yields READY k, x)
      | Op_yieldHold k \<Rightarrow> Some (Yields HOLD k, x)
      | Op_return \<Rightarrow> Some (Ends Returned, x)
      | Op_throw e \<Rightarrow> Some (Ends (Threw e), x)
      | _ \<Rightarrow> None)"

text \<open>The fiber at \<open>a\<close>, started by \<open>MainFunc\<close>, after such a run.\<close>

fun after_run :: "addr \<Rightarrow> 'c outcome \<Rightarrow> 'c fiber \<Rightarrow> 'c fiber" where
  "after_run a (Yields s k) f = f\<lparr>fb_state := s, fb_ctx := Ctx_user (Body MainFunc a) k\<rparr>"
| "after_run a (Ends Returned) f = f\<lparr>fb_cb := None, fb_state := TERM', fb_ctx := Ctx_end MainFunc a\<rparr>"
| "after_run a (Ends (Threw e)) f = f\<lparr>fb_state := EXCEPT, fb_ctx := Ctx_end MainFunc a\<rparr>"

text \<open>The code a fiber goes on with when it is switched to.\<close>

definition next_code :: "addr \<Rightarrow> 'c fiber \<Rightarrow> 'c \<Rightarrow> bool" where
  "next_code a f c \<longleftrightarrow> fb_ctx f = Ctx_entry MainFunc \<and> fb_cb f = Some c \<or> fb_ctx f = Ctx_user (Body MainFunc a) c"

fun outcome_op :: "('c, 'x) fiber_op \<Rightarrow> 'c outcome \<Rightarrow> bool" where
  "outcome_op oper (Yields s k) \<longleftrightarrow> s = READY \<and> oper = Op_yieldReady k \<or> s = HOLD \<and> oper = Op_yieldHold k"
| "outcome_op oper (Ends Returned) \<longleftrightarrow> oper = Op_return"
| "outcome_op oper (Ends (Threw e)) \<longleftrightarrow> oper = Op_throw e"

lemma machine_ext_eta: "m_control m = ct \<Longrightarrow> m_ext m = x \<Longrightarrow> m = \<lparr>m_fibers = m_fibers m, m_control = ct, m_ext = x\<rparr>"
  by simp

lemma burst_reach:
  assumes "burst n code c x = Some (out, x')"
    and "machine_reach os code m0 (Inr \<lparr>m_fibers = st, m_control = At_user fr c, m_ext = x\<rparr>)"
  shows "\<exists>c'. machine_reach os code m0 (Inr \<lparr>m_fibers = st, m_control = At_user fr c', m_ext = x'\<rparr>) \<and>
    outcome_op (code c') out"
  using assms
proof (induction n arbitrary: c x)
  case 0
  then show ?case by simp
next
  case (Suc n)
  show ?case
  proof (cases "\<exists>f. code c = Op_ext f")
    case True
    then obtain f where f: "code c = Op_ext f" by blast
    obtain k y where y: "f x = (k, y)" by (cases "f x")
    have "machine_reach os code m0 (Inr \<lparr>m_fibers = st, m_control = At_user fr k, m_ext = y\<rparr>)"
      using mreach_step [OF Suc.prems(2)] f y by (simp add: machine_step_def)
    then show ?thesis using Suc.IH [of k y] Suc.prems(1) f y by simp
  next
    case False
    then have "x' = x \<and> outcome_op (code c) out"
      using Suc.prems(1) by (auto split: fiber_op.splits)
    then show ?thesis using Suc.prems(2) by blast
  qed
qed

text \<open>The two switches: into the fiber, and out of it.\<close>

definition swapped_in :: "addr \<Rightarrow> addr \<Rightarrow> 'c ctx \<Rightarrow> 'c fibers \<Rightarrow> 'c fibers" where
  "swapped_in m a here st =
     (case (fget st a, fget st m) of
        (Some f, Some g) \<Rightarrow> fset m (g\<lparr>fb_ctx := here\<rparr>) (fset a (f\<lparr>fb_state := EXEC\<rparr>) (SetThis (Some a) st))
      | _ \<Rightarrow> st)"

lemma swapIn_enters:
  assumes "os_swapcontext os = 0" "f_main st = Some m" "fget st a = Some f" "fget st m = Some g" "a \<noteq> m"
    and "fb_state f \<noteq> EXEC" "next_code a f c"
  shows "swapIn os a here st = Inr (swapped_in m a here st, At_user (Body MainFunc a) c)"
  using assms
  by (auto simp: swapIn_def swapcontext_def swapped_in_def resume_def next_code_def Let_def)

lemma swapOut_returns:
  assumes "os_swapcontext os = 0" "f_main st = Some m" "fget st a = Some f" "fget st m = Some g" "a \<noteq> m"
    and "fb_ctx g = Ctx_user Host k"
  shows "swapOut os a here st = Inr (fset a (f\<lparr>fb_ctx := here\<rparr>) (SetThis (Some m) st), At_user Host k)"
  using assms by (auto simp: swapOut_def swapcontext_def resume_def Let_def)


lemma fset_commute: "a \<noteq> b \<Longrightarrow> fset a f (fset b g st) = fset b g (fset a f st)"
  by (simp add: fset_def hset_def list_update_swap)

lemma fset_twice [simp]: "fset a f (fset a g st) = fset a f st"
  by (simp add: fset_def hset_def)

lemma SetThis_fset: "SetThis p (fset a f st) = fset a f (SetThis p st)"
  by (simp add: SetThis_def fset_def)

lemma SetThis_twice [simp]: "SetThis p (SetThis q st) = SetThis p st"
  by (simp add: SetThis_def)

lemma flog_fset: "flog l s (fset a f st) = fset a f (flog l s st)" "SetThis p (flog l s st) = flog l s (SetThis p st)"
  by (simp_all add: flog_def fset_def SetThis_def)

text \<open>The thread after a fiber has run: it is back on \<open>m\<close>, and only the two fibers have changed.\<close>

definition ran :: "addr \<Rightarrow> addr \<Rightarrow> 'c ctx \<Rightarrow> 'c outcome \<Rightarrow> (level \<times> string) list \<Rightarrow> 'c fibers \<Rightarrow> 'c fibers" where
  "ran m a here out lines st =
     (case (fget st a, fget st m) of
        (Some f, Some g) \<Rightarrow>
          fset m (g\<lparr>fb_ctx := here\<rparr>) (fset a (after_run a out f)
            (SetThis (Some m) (st\<lparr>f_log := f_log st @ lines\<rparr>)))
      | _ \<Rightarrow> st)"

lemma yield_returns:
  assumes "os_swapcontext os = 0" "f_main st = Some m" "fget st a = Some f" "fget st m = Some g" "a \<noteq> m"
  shows "yield_to os s (Ctx_user (Body MainFunc a) k') (swapped_in m a (Ctx_user Host k) st) =
     Inr (ran m a (Ctx_user Host k) (Yields s k') [] st, At_user Host k)"
  using assms
  by (simp add: yield_to_def swapped_in_def swapOut_returns [where f = "f\<lparr>fb_state := s\<rparr>" and g = "g\<lparr>fb_ctx := Ctx_user Host k\<rparr>"]
      ran_def fset_commute SetThis_fset)

lemma end_returns:
  assumes "os_swapcontext os = 0" "f_main st = Some m" "fget st a = Some f" "fget st m = Some g" "a \<noteq> m"
  shows "\<exists>lines. fiber_end os MainFunc a how (swapped_in m a (Ctx_user Host k) st) =
     Inr (ran m a (Ctx_user Host k) (Ends how) lines st, At_user Host k)"
proof -
  have log0: "flog l s st = st\<lparr>f_log := f_log st @ [(l, s)]\<rparr>" for l s by (simp add: flog_def)
  have nil: "st = st\<lparr>f_log := f_log st @ []\<rparr>" by simp
  consider "how = Returned" | w where "how = Threw (Std_exception w)" | "how = Threw Other_exception"
    by (cases how) (auto intro: exc.exhaust)
  then show ?thesis
  proof cases
    case 1
    with assms show ?thesis
      by (intro exI [of _ "[]"])
        (simp add: fiber_end_def swapped_in_def ran_def fset_commute SetThis_fset
          swapOut_returns [where f = "f\<lparr>fb_cb := None, fb_state := TERM'\<rparr>" and g = "g\<lparr>fb_ctx := Ctx_user Host k\<rparr>"])
  next
    case (2 w)
    with assms show ?thesis
      by (intro exI [of _ "[(ERROR, ''Fiber Except: '' @ w @ '' fiber_id='' @ show_nat (unat (fb_id f)) @ newline @ os_backtrace os)]"])
        (simp add: fiber_end_def swapped_in_def ran_def fset_commute SetThis_fset flog_fset log0 [symmetric]
          swapOut_returns [where f = "f\<lparr>fb_state := EXCEPT\<rparr>" and g = "g\<lparr>fb_ctx := Ctx_user Host k\<rparr>"])
  next
    case 3
    with assms show ?thesis
      by (intro exI [of _ "[(ERROR, ''Fiber Except'' @ '' fiber_id='' @ show_nat (unat (fb_id f)) @ newline @ os_backtrace os)]"])
        (simp add: fiber_end_def swapped_in_def ran_def fset_commute SetThis_fset flog_fset log0 [symmetric]
          swapOut_returns [where f = "f\<lparr>fb_state := EXCEPT\<rparr>" and g = "g\<lparr>fb_ctx := Ctx_user Host k\<rparr>"])
  qed
qed

lemma swapIn_runs:
  assumes "os_swapcontext os = 0" "f_main st = Some m" "fget st a = Some f" "fget st m = Some g" "a \<noteq> m"
    and "fb_state f \<noteq> EXEC" "next_code a f c" "burst n code c x = Some (out, x')"
    and "code c0 = Op_swapIn a k"
  shows "\<exists>lines. machine_reach os code \<lparr>m_fibers = st, m_control = At_user Host c0, m_ext = x\<rparr>
     (Inr \<lparr>m_fibers = ran m a (Ctx_user Host k) out lines st, m_control = At_user Host k, m_ext = x'\<rparr>)"
proof -
  let ?m0 = "\<lparr>m_fibers = st, m_control = At_user Host c0, m_ext = x\<rparr>" and ?st1 = "swapped_in m a (Ctx_user Host k) st"
  have "machine_step os code ?m0 = Inr \<lparr>m_fibers = ?st1, m_control = At_user (Body MainFunc a) c, m_ext = x\<rparr>"
    by (simp add: machine_step_def assms(9) switched_def swapIn_enters [OF assms(1-7)])
  then have "machine_reach os code ?m0 (Inr \<lparr>m_fibers = ?st1, m_control = At_user (Body MainFunc a) c, m_ext = x\<rparr>)"
    using mreach_step [OF mreach_start] by metis
  from burst_reach [OF assms(8) this] obtain c' where
    c': "machine_reach os code ?m0 (Inr \<lparr>m_fibers = ?st1, m_control = At_user (Body MainFunc a) c', m_ext = x'\<rparr>)"
      (is "machine_reach os code ?m0 (Inr ?m1)")
    and out: "outcome_op (code c') out" by blast
  show ?thesis
  proof (cases out)
    case (Yields s k')
    then have "machine_step os code ?m1 = switched ?m1 (yield_to os s (Ctx_user (Body MainFunc a) k') ?st1)"
      using out by (auto simp: machine_step_def YieldToReady_def YieldToHold_def Let_def)
    also have "\<dots> = Inr \<lparr>m_fibers = ran m a (Ctx_user Host k) out [] st, m_control = At_user Host k, m_ext = x'\<rparr>"
      unfolding yield_returns [OF assms(1-5)] Yields by (simp add: switched_def)
    finally show ?thesis using mreach_step [OF c'] by metis
  next
    case (Ends how)
    let ?m2 = "?m1\<lparr>m_control := Ending MainFunc a how\<rparr>"
    have "machine_step os code ?m1 = Inr ?m2"
      using out Ends by (cases how) (simp_all add: machine_step_def)
    then have r2: "machine_reach os code ?m0 (Inr ?m2)" using mreach_step [OF c'] by metis
    obtain lines where "fiber_end os MainFunc a how ?st1 = Inr (ran m a (Ctx_user Host k) (Ends how) lines st, At_user Host k)"
      using end_returns [OF assms(1-5)] by blast
    then have "machine_step os code ?m2 =
        Inr \<lparr>m_fibers = ran m a (Ctx_user Host k) out lines st, m_control = At_user Host k, m_ext = x'\<rparr>"
      using Ends by (simp add: machine_step_def switched_def)
    then show ?thesis using mreach_step [OF r2] by metis
  qed
qed

text \<open>C19. Switching to a fiber from the thread's main fiber runs the fiber's code from where it
  stopped until it yields, returns or throws, and then goes on after \<open>swapIn\<close>: the fiber is
  \<open>READY\<close>, \<open>HOLD\<close>, \<open>TERM\<close> or \<open>EXCEPT\<close> accordingly and keeps where it stopped, the current fiber is
  the main fiber again, and no other fiber has changed.\<close>

theorem swapIn_runs_fiber:
  assumes "os_swapcontext os = 0" "f_main st = Some m" "fget st a = Some f" "fget st m = Some g" "a \<noteq> m"
    and "fb_state f \<noteq> EXEC" "next_code a f c" "burst n code c x = Some (out, x')"
    and "code c0 = Op_swapIn a k"
  shows "\<exists>lines. machine_reach os code \<lparr>m_fibers = st, m_control = At_user Host c0, m_ext = x\<rparr>
     (Inr \<lparr>m_fibers = ran m a (Ctx_user Host k) out lines st, m_control = At_user Host k, m_ext = x'\<rparr>)"
  by (rule swapIn_runs [OF assms])

section \<open>Misuse\<close>

text \<open>A fiber that has returned or thrown cannot be switched to again before it is reset: the
  switch ends in the failed assertion after the last switch of its entry function.\<close>

theorem swapIn_finished_faults:
  assumes "os_swapcontext os = 0" "f_main st = Some m" "fget st a = Some f" "fget st m = Some g" "a \<noteq> m"
    and "fb_state f \<noteq> EXEC" "fb_ctx f = Ctx_end e a" "code c0 = Op_swapIn a k"
  shows "machine_step os code \<lparr>m_fibers = st, m_control = At_user Host c0, m_ext = x\<rparr> =
    Inl (Assertion (''never reach fiber_id='' @ show_nat (unat (fb_id f))))"
  using assms
  by (simp add: machine_step_def switched_def swapIn_def swapcontext_def resume_def Let_def)

text \<open>Without a scheduler on the thread there is no fiber to come back to: \<open>swapIn\<close>
  dereferences the null pointer \<open>GetMainFiber()\<close>, whatever fibers the thread has, and so do
  the two yields of a fiber entered by \<open>call\<close>.\<close>

theorem swapIn_needs_scheduler:
  assumes "f_main st = None" "fget st a = Some f" "fb_state f \<noteq> EXEC"
  shows "swapIn os a here st = Inl Null_deref \<and>
    (f_this st = Some b \<and> fget st b = Some g \<and> fb_state g = EXEC \<longrightarrow>
       YieldToReady os here st = Inl Null_deref \<and> YieldToHold os here st = Inl Null_deref)"
  using assms by (auto simp: swapIn_def swapOut_def YieldToReady_def YieldToHold_def yield_to_def Let_def)

text \<open>The stack size is cut to 32 bits: a requested size that is a multiple of 4 GiB gives a
  fiber with a stack of zero bytes, while the size 0 asks for the configured default.\<close>

theorem stack_size_truncated:
  assumes "os_getcontext os = 0" "new_fiber os cb stacksize uc st = Inr (a, st')"
  shows "\<exists>f. fget st' a = Some f \<and> unat (fb_stacksize f) =
    (if stacksize = 0 then unat (f_stack_cfg st) else unat stacksize mod 2 ^ 32)"
  using assms
  by (auto simp: new_fiber_def Let_def fget_def flog_def hfresh_def hget_halloc unsigned_ucast_eq take_bit_eq_mod)

text \<open>A fiber with a stack may be destroyed only when it has not started or has finished; then
  its slot is free and the count is one less.\<close>

theorem dtor_checks_state:
  assumes "fget st a = Some f" "fb_stack f"
  shows "(case fiber_dtor a st of
      Inl e \<Rightarrow> fb_state f \<in> {HOLD, EXEC, READY} \<and> (\<exists>msg. e = Assertion msg)
    | Inr st' \<Rightarrow> fb_state f \<in> {INIT, TERM', EXCEPT} \<and> fget st' a = None \<and> f_count st' = f_count st - 1 \<and>
        (\<forall>b. b \<noteq> a \<longrightarrow> fget st' b = fget st b))"
proof -
  have a: "a < length (f_heap st)" using fget_allocated [OF assms(1)] by simp
  show ?thesis using assms a
    by (cases "fb_state f") (simp_all add: fiber_dtor_def may_end_def Let_def, auto simp: fget_def flog_def hget_hset)
qed

section \<open>Identifiers and the number of fibers\<close>

text \<open>
  What every operation but construction and destruction leaves alone: which fibers exist,
  their identifiers, and the two counters.
\<close>

definition same_fibers :: "'c fibers \<Rightarrow> 'c fibers \<Rightarrow> bool" where
  "same_fibers st st' \<longleftrightarrow> map (map_option fb_id) (f_heap st') = map (map_option fb_id) (f_heap st) \<and>
     f_next_id st' = f_next_id st \<and> f_count st' = f_count st"

lemma same_fibers_refl [simp]: "same_fibers st st"
  by (simp add: same_fibers_def)

lemma same_fibers_trans: "same_fibers a b \<Longrightarrow> same_fibers b c \<Longrightarrow> same_fibers a c"
  by (simp add: same_fibers_def)

lemma same_fibers_simps [simp]:
  "same_fibers st (SetThis p st') = same_fibers st st'" "same_fibers st (flog l s st') = same_fibers st st'"
  by (simp_all add: same_fibers_def SetThis_def flog_def)

lemma same_fibers_fset:
  "same_fibers st st' \<Longrightarrow> fget st' a = Some f \<Longrightarrow> fb_id f' = fb_id f \<Longrightarrow> same_fibers st (fset a f' st')"
  using fget_allocated [of st' a f]
  by (simp add: same_fibers_def fset_def hset_def map_update_same)

text \<open>
  With the numbers \<open>ns\<close> in place of the wrapping identifiers: the \<open>k\<close> fibers created so far
  have the numbers from 1 to \<open>k\<close>, the threads' own fibers the number 0.
\<close>

definition distinct_nonzero :: "nat list \<Rightarrow> bool" where
  "distinct_nonzero ns \<longleftrightarrow> (\<forall>i < length ns. \<forall>j < length ns. ns ! i = ns ! j \<and> ns ! i \<noteq> 0 \<longrightarrow> i = j)"

definition numbered :: "nat list \<Rightarrow> 'c fiber option list \<Rightarrow> bool" where
  "numbered ns h \<longleftrightarrow> length ns = length h \<and> (\<forall>i < length ns. \<forall>f. h ! i = Some f \<longrightarrow> fb_id f = of_nat (ns ! i))"

definition live_count :: "'c fiber option list \<Rightarrow> nat" where
  "live_count h = length (filter (\<lambda>x. x \<noteq> None) h)"

definition ids_inv :: "'c fibers \<Rightarrow> bool" where
  "ids_inv st \<longleftrightarrow> f_count st = of_nat (live_count (f_heap st)) \<and>
     (\<exists>k ns. numbered ns (f_heap st) \<and> distinct_nonzero ns \<and> k \<le> length ns \<and> (\<forall>n\<in>set ns. n \<le> k) \<and>
        f_next_id st = of_nat k)"

lemma numbered_length: "numbered ns h \<Longrightarrow> length ns = length h"
  by (simp add: numbered_def)

lemma distinct_nonzero_snoc: "distinct_nonzero ns \<Longrightarrow> n = 0 \<or> n \<notin> set ns \<Longrightarrow> distinct_nonzero (ns @ [n])"
  unfolding distinct_nonzero_def
  by (simp add: nth_append) (metis linorder_neqE_nat not_less_eq nth_mem)

lemma numbered_snoc: "numbered ns h \<Longrightarrow> fb_id f = of_nat n \<Longrightarrow> numbered (ns @ [n]) (h @ [Some f])"
  by (auto simp: numbered_def nth_append less_Suc_eq)

lemma live_count_simps [simp]:
  "live_count [] = 0" "live_count (g @ h) = live_count g + live_count h"
  "live_count (Some f # h) = Suc (live_count h)" "live_count (None # h) = live_count h"
  by (simp_all add: live_count_def)

lemma ids_inv_same:
  assumes "same_fibers st st'" "ids_inv st"
  shows "ids_inv st'"
proof -
  have m: "map (map_option fb_id) (f_heap st') = map (map_option fb_id) (f_heap st)"
    and n: "f_next_id st' = f_next_id st" "f_count st' = f_count st"
    using assms(1) by (auto simp: same_fibers_def)
  have len: "length (f_heap st') = length (f_heap st)" using arg_cong [OF m, of length] by simp
  have nth: "map_option fb_id (f_heap st' ! i) = map_option fb_id (f_heap st ! i)" if "i < length (f_heap st)" for i
    using arg_cong [OF m, of "\<lambda>xs. xs ! i"] that len by simp
  have lc: "live_count h = length (filter (\<lambda>x. x \<noteq> None) (map (map_option fb_id) h))" for h :: "'a fiber option list"
    by (induction h) (auto simp: live_count_def)
  have cnt: "live_count (f_heap st') = live_count (f_heap st)" unfolding lc m ..
  have "numbered ns (f_heap st')" if "numbered ns (f_heap st)" for ns
    unfolding numbered_def
  proof (intro conjI allI impI)
    show "length ns = length (f_heap st')" using numbered_length [OF that] len by simp
    fix i f assume i: "i < length ns" "f_heap st' ! i = Some f"
    have il: "i < length (f_heap st)" using i(1) numbered_length [OF that] by simp
    from nth [OF il] i(2) obtain g where "f_heap st ! i = Some g" "fb_id g = fb_id f"
      by (cases "f_heap st ! i") auto
    moreover have "\<forall>g. f_heap st ! i = Some g \<longrightarrow> fb_id g = of_nat (ns ! i)"
      using that i(1) unfolding numbered_def by blast
    ultimately show "fb_id f = of_nat (ns ! i)" by simp
  qed
  then show ?thesis using assms(2) unfolding ids_inv_def n cnt by blast
qed

lemma ids_inv_simps [simp]:
  "ids_inv (SetThis p st) = ids_inv st" "ids_inv (flog l s st) = ids_inv st" "ids_inv (st\<lparr>f_thread := p\<rparr>) = ids_inv st"
  by (simp_all add: ids_inv_def SetThis_def flog_def)

lemma ids_inv_fset: "ids_inv st \<Longrightarrow> fget st a = Some f \<Longrightarrow> fb_id f' = fb_id f \<Longrightarrow> ids_inv (fset a f' st)"
  by (rule ids_inv_same [OF same_fibers_fset [OF same_fibers_refl]])

lemma ids_inv_alloc:
  assumes "ids_inv st" "fb_id f = (if i then f_next_id st + 1 else 0)"
    and "f_heap st' = f_heap st @ [Some f]" "f_next_id st' = (if i then f_next_id st + 1 else f_next_id st)"
    and "f_count st' = f_count st + 1"
  shows "ids_inv st'"
proof -
  from assms(1) obtain k ns where ns: "numbered ns (f_heap st)" "distinct_nonzero ns" "k \<le> length ns"
      "\<forall>n\<in>set ns. n \<le> k" "f_next_id st = of_nat k" and cnt: "f_count st = of_nat (live_count (f_heap st))"
    unfolding ids_inv_def by blast
  let ?n = "if i then Suc k else 0"
  have "?n = 0 \<or> ?n \<notin> set ns" using ns(4) by auto
  then have "distinct_nonzero (ns @ [?n])" by (rule distinct_nonzero_snoc [OF ns(2)])
  moreover have "numbered (ns @ [?n]) (f_heap st')"
    unfolding assms(3) by (rule numbered_snoc [OF ns(1)]) (simp add: assms(2) ns(5))
  moreover have "f_next_id st' = of_nat (if i then Suc k else k)" by (simp add: assms(4) ns(5))
  moreover have "(if i then Suc k else k) \<le> length (ns @ [?n])" "\<forall>n\<in>set (ns @ [?n]). n \<le> (if i then Suc k else k)"
    using ns(3,4) by auto
  ultimately show ?thesis
    unfolding ids_inv_def using cnt assms(3,5)
    by (intro conjI exI [of _ "if i then Suc k else k"] exI [of _ "ns @ [?n]"])
      (assumption | simp only: live_count_simps of_nat_add of_nat_Suc | simp)+
qed

lemma ids_inv_free:
  assumes "ids_inv st" "fget st a = Some f"
    and "f_heap st' = hset (f_heap st) a None" "f_next_id st' = f_next_id st" "f_count st' = f_count st - 1"
  shows "ids_inv st'"
proof -
  have a: "a < length (f_heap st)" "f_heap st ! a = Some f" using fget_allocated [OF assms(2)] by auto
  have split: "f_heap st = take a (f_heap st) @ Some f # drop (Suc a) (f_heap st)"
    using id_take_nth_drop [OF a(1)] a(2) by simp
  have "hset (f_heap st) a None = take a (f_heap st) @ None # drop (Suc a) (f_heap st)"
    using a(1) by (simp add: hset_def upd_conv_take_nth_drop)
  then have "live_count (f_heap st) = Suc (live_count (f_heap st'))"
    using arg_cong [OF split, of live_count] assms(3) by simp
  moreover have "numbered ns (f_heap st')" if "numbered ns (f_heap st)" for ns
    unfolding numbered_def
  proof (intro conjI allI impI)
    show "length ns = length (f_heap st')" using that by (simp add: numbered_def assms(3))
    fix i g assume i: "i < length ns" "f_heap st' ! i = Some g"
    then have "f_heap st ! i = Some g"
      using that a(1) by (cases "i = a") (simp_all add: numbered_def assms(3) hset_def)
    then show "fb_id g = of_nat (ns ! i)" using that i(1) by (simp add: numbered_def)
  qed
  ultimately show ?thesis using assms(1) unfolding ids_inv_def assms(4,5) by auto
qed

lemma ids_inv_new_main:
  assumes "ids_inv st" "new_main_fiber os st = Inr (a, st')"
  shows "ids_inv st'"
  by (rule ids_inv_alloc [OF assms(1), where i = False])
    (use assms(2) in \<open>auto simp: new_main_fiber_def Let_def check_def halloc_def SetThis_def flog_def split: if_splits\<close>)

lemma ids_inv_new_fiber:
  assumes "ids_inv st" "new_fiber os cb stacksize uc st = Inr (a, st')"
  shows "ids_inv st'"
proof -
  obtain f where f: "f_heap st' = f_heap st @ [Some f]" "fb_id f = f_next_id st + 1"
     "f_next_id st' = f_next_id st + 1" "f_count st' = f_count st + 1"
    using assms(2) by (auto simp: new_fiber_def Let_def check_def halloc_def flog_def simp del: if_split split: if_split_asm)
  show ?thesis by (rule ids_inv_alloc [OF assms(1) _ f(1), where i = True]) (simp_all add: f)
qed

lemma on_fiber_InrE [inversion]:
  assumes "on_fiber a st k = Inr r"
  obtains f where "fget st a = Some f" "k f = Inr r"
  using assms by (auto simp: on_fiber_def split: option.splits)

lemma check_InrD: "check msg c r = Inr x \<Longrightarrow> c \<and> r = Inr x"
  by (simp add: check_def split: if_splits)

lemma deref_InrE [inversion]:
  assumes "deref p k = Inr r"
  obtains a where "p = Some a" "k a = Inr r"
  using assms by (auto simp: deref_def split: option.splits)

lemma ids_inv_dtor:
  assumes "ids_inv st" "fiber_dtor a st = Inr st'"
  shows "ids_inv st'"
proof -
  obtain f where f: "fget st a = Some f" using assms(2) by (auto simp: fiber_dtor_def elim: inversion)
  show ?thesis
    by (rule ids_inv_free [OF assms(1) f])
      (use assms(2) f in \<open>auto simp: fiber_dtor_def Let_def check_def flog_def SetThis_def split: if_splits\<close>)
qed

lemma ids_inv_GetThis:
  "ids_inv st \<Longrightarrow> fiber_GetThis os st = Inr (a, st') \<Longrightarrow> ids_inv st'"
  by (auto simp: fiber_GetThis_def check_def dest: ids_inv_new_main split: option.splits prod.splits if_splits)

lemma ids_inv_reset: "ids_inv st \<Longrightarrow> fiber_reset os a cb st = Inr st' \<Longrightarrow> ids_inv st'"
  by (auto simp: fiber_reset_def elim!: inversion dest!: check_InrD intro: ids_inv_fset)

lemma ids_inv_resume: "ids_inv st \<Longrightarrow> resume os c st = Inr (st', ct) \<Longrightarrow> ids_inv st'"
  by (auto simp: resume_def dest: ids_inv_GetThis elim!: inversion split: ctx.splits option.splits)

lemma ids_inv_stored: "ids_inv st \<Longrightarrow> fget st a = Some f \<Longrightarrow> ids_inv (fset a (f\<lparr>fb_ctx := c\<rparr>) st)"
  by (rule ids_inv_fset [where f = f]) simp_all

lemma ids_inv_swapcontext: "ids_inv st \<Longrightarrow> swapcontext os f t here st = Inr (st', ct) \<Longrightarrow> ids_inv st'"
  by (auto simp: swapcontext_def Let_def elim!: inversion split: if_splits
      dest: ids_inv_resume [rotated, OF _ ids_inv_stored])

lemmas ids_inv_switch = ids_inv_swapcontext [rotated]

lemma ids_inv_swapOut: "ids_inv st \<Longrightarrow> swapOut os a here st = Inr (st', ct) \<Longrightarrow> ids_inv st'"
  by (auto simp: swapOut_def Let_def elim!: inversion dest: ids_inv_switch)

lemma ids_inv_back: "ids_inv st \<Longrightarrow> fiber_back os a here st = Inr (st', ct) \<Longrightarrow> ids_inv st'"
  by (auto simp: fiber_back_def Let_def elim!: inversion dest: ids_inv_switch)

lemma ids_inv_exec:
  "ids_inv st \<Longrightarrow> fget st a = Some f \<Longrightarrow> ids_inv (fset a (f\<lparr>fb_state := s\<rparr>) (SetThis p st))"
  by (rule ids_inv_fset [where f = f]) simp_all

lemma ids_inv_swapIn: "ids_inv st \<Longrightarrow> swapIn os a here st = Inr (st', ct) \<Longrightarrow> ids_inv st'"
  by (auto simp: swapIn_def Let_def elim!: inversion dest!: check_InrD
      dest: ids_inv_switch [OF _ ids_inv_exec])

lemma ids_inv_call: "ids_inv st \<Longrightarrow> fiber_call os a here st = Inr (st', ct) \<Longrightarrow> ids_inv st'"
  by (auto simp: fiber_call_def Let_def elim!: inversion dest: ids_inv_switch [OF _ ids_inv_exec])

lemma ids_inv_yield: "ids_inv st \<Longrightarrow> yield_to os s here st = Inr (st', ct) \<Longrightarrow> ids_inv st'"
proof -
  assume inv: "ids_inv st" and y: "yield_to os s here st = Inr (st', ct)"
  from y obtain cur st1 f where g: "fiber_GetThis os st = Inr (cur, st1)" "fget st1 cur = Some f"
    "swapOut os cur here (fset cur (f\<lparr>fb_state := s\<rparr>) st1) = Inr (st', ct)"
    by (auto simp: yield_to_def elim!: inversion dest!: check_InrD)
  have "ids_inv (fset cur (f\<lparr>fb_state := s\<rparr>) st1)"
    by (rule ids_inv_fset [OF ids_inv_GetThis [OF inv g(1)] g(2)]) simp
  then show ?thesis using g(3) by (rule ids_inv_swapOut)
qed

lemma ids_inv_end: "ids_inv st \<Longrightarrow> fiber_end os e a how st = Inr (st', ct) \<Longrightarrow> ids_inv st'"
proof -
  assume inv: "ids_inv st" and r: "fiber_end os e a how st = Inr (st', ct)"
  from r obtain f where f: "fget st a = Some f" by (auto simp: fiber_end_def elim: inversion)
  have "ids_inv (flog l s (fset a (f\<lparr>fb_state := x\<rparr>) st))" "ids_inv (fset a (f\<lparr>fb_cb := y, fb_state := x\<rparr>) st)" for l s x y
    using ids_inv_fset [OF inv f] by auto
  then show ?thesis using r f
    by (auto simp: fiber_end_def Let_def split: ending.splits exc.splits entry.splits
        dest: ids_inv_swapOut [rotated] ids_inv_back [rotated])
qed

lemma ids_inv_step: "ids_inv (m_fibers m) \<Longrightarrow> machine_step os code m = Inr m' \<Longrightarrow> ids_inv (m_fibers m')"
  by (auto simp: machine_step_def switched_def YieldToReady_def YieldToHold_def Let_def
      split: control.splits fiber_op.splits frame.splits prod.splits
      dest: ids_inv_end ids_inv_swapIn ids_inv_swapOut ids_inv_call ids_inv_back ids_inv_yield
        ids_inv_new_fiber ids_inv_reset ids_inv_dtor ids_inv_GetThis)

lemma ids_inv_reach:
  "machine_reach os code m0 r \<Longrightarrow> ids_inv (m_fibers m0) \<Longrightarrow> r = Inr m \<Longrightarrow> ids_inv (m_fibers m)"
  by (induction arbitrary: m rule: machine_reach.induct) (auto intro: ids_inv_step)

definition no_fibers :: "u32 \<Rightarrow> 'c fibers" where
  "no_fibers cfg = \<lparr>f_heap = [], f_next_id = 0, f_count = 0, f_this = None, f_thread = None, f_main = None,
     f_stack_cfg = cfg, f_log = []\<rparr>"

text \<open>C22. Whatever code runs, \<open>TotalFibers\<close> is the number of fibers that exist, and as long as fewer
  than \<open>2 ^ 64\<close> fibers have been made, no two of them have the same identifier, the threads'
  own fibers apart, whose identifier is 0.\<close>

theorem fiber_ids_unique:
  assumes "machine_reach os code m0 (Inr m)" "m_fibers m0 = no_fibers cfg"
  shows "TotalFibers (m_fibers m) = of_nat (live_count (f_heap (m_fibers m))) \<and>
    (length (f_heap (m_fibers m)) < 2 ^ 64 \<longrightarrow>
       (\<forall>a b f g. fget (m_fibers m) a = Some f \<and> fget (m_fibers m) b = Some g \<and> fb_id f = fb_id g \<and> fb_id f \<noteq> 0 \<longrightarrow> a = b))"
proof -
  let ?st = "m_fibers m"
  have "numbered [] (f_heap (no_fibers cfg))" "distinct_nonzero []"
    by (simp_all add: numbered_def distinct_nonzero_def no_fibers_def)
  then have "ids_inv (m_fibers m0)" unfolding assms(2) ids_inv_def
    by (intro conjI exI [of _ 0] exI [of _ "[]"]) (simp_all add: no_fibers_def)
  then have inv: "ids_inv ?st" using ids_inv_reach [OF assms(1) _ refl] by blast
  then obtain k ns where ns: "numbered ns (f_heap ?st)" "distinct_nonzero ns" "k \<le> length ns" "\<forall>n\<in>set ns. n \<le> k"
    unfolding ids_inv_def by blast
  have "a = b" if len: "length (f_heap ?st) < 2 ^ 64" and f: "fget ?st a = Some f" and g: "fget ?st b = Some g"
    and e: "fb_id f = fb_id g" "fb_id f \<noteq> 0" for a b f g
  proof -
    have i: "fb_id f = of_nat (ns ! a)" "fb_id g = of_nat (ns ! b)" "a < length ns" "b < length ns"
      using fget_allocated [OF f] fget_allocated [OF g] ns(1) by (auto simp: numbered_def)
    have "n < 2 ^ 64" if "n \<in> set ns" for n
      using bspec [OF ns(4) that] ns(1,3) len by (simp add: numbered_def)
    then have "ns ! a < 2 ^ 64" "ns ! b < 2 ^ 64" using i(3,4) by auto
    then have "unat (fb_id f) = ns ! a" "unat (fb_id g) = ns ! b"
      using i(1,2) by (simp_all add: unsigned_of_nat take_bit_nat_eq_self)
    then have "ns ! a = ns ! b" using e(1) by simp
    moreover have "ns ! a \<noteq> 0"
    proof
      assume "ns ! a = 0"
      then have "fb_id f = 0" unfolding i(1) by simp
      then show False using e(2) by simp
    qed
    ultimately have "ns ! a = ns ! b" "ns ! a \<noteq> 0" by simp_all
    then show ?thesis using ns(2) i(3,4) unfolding distinct_nonzero_def by blast
  qed
  then show ?thesis using inv by (auto simp: ids_inv_def TotalFibers_def)
qed


section \<open>A thread for the witnesses\<close>

text \<open>A thread whose scheduler runs on its own fiber (at 0), with one fiber (at 1) that counts
  a step, yields to \<open>HOLD\<close>, and returns.  Code is a number here.\<close>

definition demo_os :: fiber_os where
  "demo_os = \<lparr>os_malloc = (\<lambda>_. True), os_getcontext = 0, os_swapcontext = 0, os_backtrace = []\<rparr>"

definition demo_code :: "nat \<Rightarrow> (nat, nat) fiber_op" where
  "demo_code c =
     (if c = 0 then Op_ext (\<lambda>x. (1, x + 1)) else if c = 1 then Op_yieldHold 2 else if c = 10 then Op_swapIn 1 11
      else Op_return)"

definition demo_main :: "nat fiber" where
  "demo_main = \<lparr>fb_id = 0, fb_stacksize = 0, fb_state = EXEC, fb_ctx = Ctx_unset, fb_stack = False, fb_cb = None\<rparr>"

definition demo_fiber :: "nat fiber" where
  "demo_fiber = \<lparr>fb_id = 1, fb_stacksize = 1048576, fb_state = INIT, fb_ctx = Ctx_entry MainFunc, fb_stack = True, fb_cb = Some 0\<rparr>"

definition demo_thread :: "nat fiber \<Rightarrow> nat fibers" where
  "demo_thread f = \<lparr>f_heap = [Some demo_main, Some f], f_next_id = 1, f_count = 2, f_this = Some 0,
     f_thread = Some 0, f_main = Some 0, f_stack_cfg = 1048576, f_log = []\<rparr>"

lemma demo_thread_simps [simp]:
  "fget (demo_thread f) 0 = Some demo_main" "fget (demo_thread f) 1 = Some f" "f_main (demo_thread f) = Some 0"
  "fget (demo_thread f) (Suc 0) = Some f" "f_this (demo_thread f) = Some 0"
  by (simp_all add: demo_thread_def fget_def hget_def)

lemma demo_os_simps [simp]: "os_swapcontext demo_os = 0" "os_getcontext demo_os = 0"
  by (simp_all add: demo_os_def)

theorem swapIn_runs_fiber_witness:
  "\<exists>st. machine_reach demo_os demo_code
     \<lparr>m_fibers = demo_thread demo_fiber, m_control = At_user Host 10, m_ext = 5\<rparr>
     (Inr \<lparr>m_fibers = st, m_control = At_user Host 11, m_ext = 6\<rparr>) \<and>
     map_option fb_state (fget st 1) = Some HOLD"
proof -
  have b: "burst 2 demo_code 0 5 = Some (Yields HOLD 2, 6)" by (simp add: numeral_2_eq_2 demo_code_def)
  have n: "next_code 1 demo_fiber 0" by (simp add: next_code_def demo_fiber_def)
  have "fb_state demo_fiber \<noteq> EXEC" by (simp add: demo_fiber_def)
  from swapIn_runs_fiber [OF demo_os_simps(1) demo_thread_simps(3) demo_thread_simps(2) demo_thread_simps(1) _ this n b, of 10 11]
  obtain lines where "machine_reach demo_os demo_code
     \<lparr>m_fibers = demo_thread demo_fiber, m_control = At_user Host 10, m_ext = 5\<rparr>
     (Inr \<lparr>m_fibers = ran 0 1 (Ctx_user Host 11) (Yields HOLD 2) lines (demo_thread demo_fiber),
       m_control = At_user Host 11, m_ext = 6\<rparr>)" by (auto simp: demo_code_def)
  moreover have "map_option fb_state (fget (ran 0 1 (Ctx_user Host 11) (Yields HOLD 2) lines (demo_thread demo_fiber)) 1) = Some HOLD"
    by (simp add: ran_def)
  ultimately show ?thesis by blast
qed

theorem swapIn_finished_faults_witness:
  "machine_step demo_os demo_code
     \<lparr>m_fibers = demo_thread (demo_fiber\<lparr>fb_state := TERM', fb_ctx := Ctx_end MainFunc 1\<rparr>), m_control = At_user Host 10, m_ext = 0\<rparr> =
   Inl (Assertion (''never reach fiber_id='' @ show_nat (unat (1 :: u64))))"
  using swapIn_finished_faults [OF demo_os_simps(1) demo_thread_simps(3) demo_thread_simps(2) demo_thread_simps(1),
      of "demo_fiber\<lparr>fb_state := TERM', fb_ctx := Ctx_end MainFunc 1\<rparr>" MainFunc demo_code 10 11 0]
  by (simp add: demo_fiber_def demo_code_def)

theorem swapIn_needs_scheduler_witness:
  "swapIn demo_os 1 Ctx_unset ((demo_thread demo_fiber)\<lparr>f_main := None\<rparr>) = Inl Null_deref"
  using swapIn_needs_scheduler [of "(demo_thread demo_fiber)\<lparr>f_main := None\<rparr>" 1 demo_fiber demo_os Ctx_unset]
  by (simp add: demo_fiber_def fget_def demo_thread_def hget_def)

theorem stack_size_truncated_witness:
  "map_option (\<lambda>f. unat (fb_stacksize f)) (fget (snd (projr (new_fiber demo_os (Some (0::nat)) 4294967296 False (demo_thread demo_fiber)))) 2) = Some 0"
proof -
  obtain a st' where n: "new_fiber demo_os (Some (0::nat)) 4294967296 False (demo_thread demo_fiber) = Inr (a, st')"
    by (simp add: new_fiber_def Let_def)
  then have "a = 2" by (simp add: new_fiber_def Let_def hfresh_def demo_thread_def)
  then show ?thesis using stack_size_truncated [OF demo_os_simps(2) n] n by auto
qed

theorem dtor_checks_state_witness:
  "\<exists>msg. fiber_dtor 1 (demo_thread (demo_fiber\<lparr>fb_state := HOLD\<rparr>)) = Inl (Assertion msg)"
  using dtor_checks_state [of "demo_thread (demo_fiber\<lparr>fb_state := HOLD\<rparr>)" 1 "demo_fiber\<lparr>fb_state := HOLD\<rparr>"]
  by (auto simp: demo_fiber_def split: sum.splits)

definition two_fibers :: "nat \<Rightarrow> (nat, unit) fiber_op" where
  "two_fibers c = (if c < 2 then Op_new (Some 7) 0 False (\<lambda>_. c + 1) else Op_return)"

theorem fiber_ids_unique_witness:
  "\<exists>m. machine_reach demo_os two_fibers \<lparr>m_fibers = no_fibers 4096, m_control = At_user Host 0, m_ext = ()\<rparr> (Inr m) \<and>
     TotalFibers (m_fibers m) = 2 \<and> map_option fb_id (fget (m_fibers m) 0) \<noteq> map_option fb_id (fget (m_fibers m) 1)"
proof -
  let ?m0 = "\<lparr>m_fibers = no_fibers 4096, m_control = At_user Host 0, m_ext = ()\<rparr> :: (nat, unit) machine"
  obtain m1 where m1: "machine_step demo_os two_fibers ?m0 = Inr m1"
    by (simp add: machine_step_def two_fibers_def switched_def new_fiber_def Let_def)
  obtain m2 where m2: "machine_step demo_os two_fibers m1 = Inr m2" and h: "length (f_heap (m_fibers m2)) = 2"
    "\<exists>f g. fget (m_fibers m2) 0 = Some f \<and> fget (m_fibers m2) 1 = Some g \<and> fb_id f \<noteq> 0" "live_count (f_heap (m_fibers m2)) = 2"
    using m1 by (auto simp: machine_step_def two_fibers_def switched_def new_fiber_def no_fibers_def flog_def halloc_def hfresh_def
        fget_def hget_def live_count_def Let_def)
  have r: "machine_reach demo_os two_fibers ?m0 (Inr m2)"
    using mreach_step [of demo_os two_fibers ?m0 m1] mreach_step [OF mreach_start, of demo_os two_fibers ?m0] m1 m2 by simp
  have u: "TotalFibers (m_fibers m2) = 2" "\<And>a b f g. fget (m_fibers m2) a = Some f \<Longrightarrow> fget (m_fibers m2) b = Some g \<Longrightarrow>
      fb_id f = fb_id g \<Longrightarrow> fb_id f \<noteq> 0 \<Longrightarrow> a = b"
    using fiber_ids_unique [OF r, of 4096] h by auto
  obtain f g where fg: "fget (m_fibers m2) 0 = Some f" "fget (m_fibers m2) 1 = Some g" "fb_id f \<noteq> 0" using h(2) by blast
  have "fb_id f \<noteq> fb_id g" using u(2) [OF fg(1,2)] fg(3) by auto
  then have "map_option fb_id (fget (m_fibers m2) 0) \<noteq> map_option fb_id (fget (m_fibers m2) 1)" using fg(1,2) by simp
  then show ?thesis using r u(1) by blast
qed

end
