(* ===== verification/Scheduler.thy ===== *)
theory Scheduler
  imports FiberInvariants
begin

text \<open>
  The scheduler (scheduler.h and scheduler.cpp): its queue of tasks, the loop its worker
  threads run, and starting and stopping it.  The threads interleave at the points where
  they touch what they share: the critical section that takes a task, the look at the state of
  its fiber, the switch to it, the start of its code, each call of \<open>schedule\<close> it makes, the
  change of its state, the switch back, the change of a counter, the look at the state the fiber
  came back with, and what is done about it are a step each.  A critical section is one step, with
  the line of \<open>tickle\<close> that follows it, and so is a switch; what a switch does to a
  thread's fibers is the subject of the theories of fibers.
\<close>

section \<open>Tasks\<close>

text \<open>The code of a fiber: a callback of the user, or \<open>Scheduler::idle\<close> before and after its
  first line.\<close>

datatype 'c body = User 'c | Idle bool

record 'c task =
  tk_fiber :: "addr option"
  tk_cb :: "'c body option"
  tk_thread :: int

definition empty_task :: "'c task" where
  "empty_task = \<lparr>tk_fiber = None, tk_cb = None, tk_thread = - 1\<rparr>"

text \<open>\<open>FiberOrCb\<close>: a fiber or a callback, either possibly null; or a pointer to one, whose
  target is emptied by the swap.\<close>

datatype 'c fiber_or_cb = Fib "addr option" | Cb "'c option"

fun mk_task :: "'c fiber_or_cb \<Rightarrow> int \<Rightarrow> 'c task" where
  "mk_task (Fib f) thr = \<lparr>tk_fiber = f, tk_cb = None, tk_thread = thr\<rparr>"
| "mk_task (Cb c) thr = \<lparr>tk_fiber = None, tk_cb = map_option User c, tk_thread = thr\<rparr>"

fun mk_task_swap :: "'c fiber_or_cb \<Rightarrow> int \<Rightarrow> 'c task \<times> 'c fiber_or_cb" where
  "mk_task_swap (Fib f) thr = (mk_task (Fib f) thr, Fib None)"
| "mk_task_swap (Cb c) thr = (mk_task (Cb c) thr, Cb None)"

section \<open>The shared state\<close>

text \<open>
  The members of \<open>Scheduler\<close> the workers share, the fibers of the process, the state the
  callbacks of the user work on, and the lines the scheduler logs.  The counters are
  \<open>size_t\<close>.  Identifiers, stack sizes and messages of fibers play no part here.
\<close>

record ('c, 'u) sched =
  s_tasks :: "'c task list"
  s_active :: u64
  s_idle :: u64
  s_stopping :: bool
  s_autoStop :: bool
  s_heap :: "'c body fiber option list"
  s_name :: string
  s_user :: 'u
  s_log :: "(level \<times> string) list"

definition sget :: "('c, 'u) sched \<Rightarrow> addr \<Rightarrow> 'c body fiber option" where
  "sget s a = (case hget (s_heap s) a of Some (Some f) \<Rightarrow> Some f | _ \<Rightarrow> None)"

definition sset :: "addr \<Rightarrow> 'c body fiber \<Rightarrow> ('c, 'u) sched \<Rightarrow> ('c, 'u) sched" where
  "sset a f s = s\<lparr>s_heap := hset (s_heap s) a (Some f)\<rparr>"

definition slog :: "level \<Rightarrow> string \<Rightarrow> ('c, 'u) sched \<Rightarrow> ('c, 'u) sched" where
  "slog l t s = s\<lparr>s_log := s_log s @ [(l, t)]\<rparr>"

definition on_sfiber :: "addr \<Rightarrow> ('c, 'u) sched \<Rightarrow> ('c body fiber \<Rightarrow> fault + 'r) \<Rightarrow> fault + 'r" where
  "on_sfiber a s k = (case sget s a of None \<Rightarrow> Inl Null_deref | Some f \<Rightarrow> k f)"

text \<open>\<open>tickle\<close> and \<open>stopping\<close>\<close>

definition tickle :: "('c, 'u) sched \<Rightarrow> ('c, 'u) sched" where
  "tickle s = slog INFO ''tickle'' s"

definition stopping :: "('c, 'u) sched \<Rightarrow> bool" where
  "stopping s \<longleftrightarrow> s_autoStop s \<and> s_stopping s \<and> s_tasks s = [] \<and> s_active s = 0"

text \<open>\<open>scheduleNoLock\<close> and the two forms of \<open>schedule\<close>\<close>

definition push_task :: "'c task \<Rightarrow> ('c, 'u) sched \<Rightarrow> bool \<times> ('c, 'u) sched" where
  "push_task ft s =
     (let need_tickle = (s_tasks s = [])
      in (need_tickle,
          if tk_fiber ft \<noteq> None \<or> tk_cb ft \<noteq> None then s\<lparr>s_tasks := s_tasks s @ [ft]\<rparr> else s))"

definition scheduleNoLock :: "'c fiber_or_cb \<Rightarrow> int \<Rightarrow> ('c, 'u) sched \<Rightarrow> bool \<times> ('c, 'u) sched" where
  "scheduleNoLock fc thread s = push_task (mk_task fc thread) s"

definition schedule :: "'c fiber_or_cb \<Rightarrow> int \<Rightarrow> ('c, 'u) sched \<Rightarrow> ('c, 'u) sched" where
  "schedule fc thread s =
     (let (need_tickle, s1) = scheduleNoLock fc thread s in if need_tickle then tickle s1 else s1)"

fun schedule_loop ::
  "'c fiber_or_cb list \<Rightarrow> bool \<Rightarrow> ('c, 'u) sched \<Rightarrow> bool \<times> 'c fiber_or_cb list \<times> ('c, 'u) sched" where
  "schedule_loop [] need_tickle s = (need_tickle, [], s)"
| "schedule_loop (fc # fcs) need_tickle s =
     (let (ft, left) = mk_task_swap fc (- 1);
          (t, s1) = push_task ft s;
          (need, lefts, s2) = schedule_loop fcs (t \<or> need_tickle) s1
      in (need, left # lefts, s2))"

text \<open>The range form also returns what is left in the caller's range.\<close>

definition schedule_range ::
  "'c fiber_or_cb list \<Rightarrow> ('c, 'u) sched \<Rightarrow> 'c fiber_or_cb list \<times> ('c, 'u) sched" where
  "schedule_range fcs s =
     (let (need, lefts, s1) = schedule_loop fcs False s in (lefts, if need then tickle s1 else s1))"

section \<open>What the fibers do\<close>

text \<open>
  The code of the user runs from one suspension to the next.  In between it may schedule
  callbacks, fibers, or the fiber it runs in; then it yields, returns or throws.  \<open>beh\<close> gives
  this for every piece of code and every state of the user's data.  A piece reads and leaves the
  data when it begins; what other code does to the data at any time are events of their own.
\<close>

datatype 'c request = Req "'c fiber_or_cb" int | Req_self int

type_synonym ('c, 'u) behaviour = "'c \<Rightarrow> 'u \<Rightarrow> 'c request list \<times> 'c outcome \<times> 'u"

fun do_request :: "addr \<Rightarrow> 'c request \<Rightarrow> ('c, 'u) sched \<Rightarrow> ('c, 'u) sched" where
  "do_request self (Req fc thread) s = schedule fc thread s"
| "do_request self (Req_self thread) s = schedule (Fib (Some self)) thread s"

definition lift_outcome :: "'c outcome \<Rightarrow> 'c body outcome" where
  "lift_outcome out = (case out of Yields st k \<Rightarrow> Yields st (User k) | Ends e \<Rightarrow> Ends e)"

text \<open>The code of a fiber from one suspension to the next: what it schedules, one call after the other,
  and how it ends; \<open>idle\<close> is a loop that yields until \<open>stopping()\<close>.\<close>

fun run_body ::
  "('c, 'u) behaviour \<Rightarrow> 'c body \<Rightarrow> ('c, 'u) sched \<Rightarrow> 'c request list \<times> 'c body outcome \<times> ('c, 'u) sched" where
  "run_body beh (User c) s =
     (case beh c (s_user s) of (reqs, out, u) \<Rightarrow> (reqs, lift_outcome out, s\<lparr>s_user := u\<rparr>))"
| "run_body beh (Idle begun) s =
     ([], if \<not> stopping s then Yields HOLD (Idle True) else Ends Returned,
      if begun then s else slog INFO ''idle'' s)"

section \<open>The loop of a worker\<close>

text \<open>
  The critical section: the first task that may run on this thread and whose fiber is not
  running is taken off the list.  The looks at the states of the fibers are part of it.  \<open>erased_ne_end\<close> is the outcome of comparing the iterator of
  the element just erased with \<open>end()\<close>, which the standard leaves undefined.
\<close>

record 'c scanned =
  sc_ft :: "'c task"
  sc_tickle :: bool
  sc_active :: bool

function scan ::
  "bool \<Rightarrow> int \<Rightarrow> nat \<Rightarrow> bool \<Rightarrow> ('c, 'u) sched \<Rightarrow> fault + 'c scanned \<times> ('c, 'u) sched" where
  "scan erased_ne_end tid i tickle_me s =
     (if i < length (s_tasks s) then
        let t = s_tasks s ! i
        in if tk_thread t \<noteq> - 1 \<and> tk_thread t \<noteq> tid then scan erased_ne_end tid (Suc i) True s
           else if tk_fiber t = None \<and> tk_cb t = None then Inl (Assertion ''it->fiber || it->cb'')
           else (case tk_fiber t of
                   Some a \<Rightarrow>
                     on_sfiber a s (\<lambda>f.
                       if fb_state f = EXEC then scan erased_ne_end tid (Suc i) tickle_me s
                       else Inr (\<lparr>sc_ft = t, sc_tickle = (tickle_me \<or> erased_ne_end), sc_active = True\<rparr>,
                              s\<lparr>s_tasks := take i (s_tasks s) @ drop (Suc i) (s_tasks s), s_active := s_active s + 1\<rparr>))
                 | None \<Rightarrow>
                     Inr (\<lparr>sc_ft = t, sc_tickle = (tickle_me \<or> erased_ne_end), sc_active = True\<rparr>,
                       s\<lparr>s_tasks := take i (s_tasks s) @ drop (Suc i) (s_tasks s), s_active := s_active s + 1\<rparr>))
      else Inr (\<lparr>sc_ft = empty_task, sc_tickle = tickle_me, sc_active = False\<rparr>, s))"
  by pat_completeness auto
termination
  by (relation "measure (\<lambda>(e, tid, i, t, s). length (s_tasks s) - i)") auto

declare scan.simps [simp del]

text \<open>
  Where a worker stands.  \<open>Of_task\<close>: it runs the fiber of a task, \<open>Of_cb\<close>: its own fiber
  for callbacks, \<open>Of_idle\<close>: its idle fiber.
\<close>

datatype role = Of_task | Of_cb | Of_idle

text \<open>What the loop does about the state a fiber came back with: schedule it again, put it on
  hold, or empty the fiber for callbacks.\<close>

datatype closing = Cl_schedule | Cl_hold | Cl_reset

text \<open>Giving up the count of a task with nothing to run (\<open>P_drop\<close>), before a switch (\<open>P_enter\<close>), in the fiber (\<open>P_run\<close> to \<open>P_save\<close>), and back from it: before the
  change of the counter (\<open>P_after\<close>), before the look at the state (\<open>P_settle\<close>), and before what is
  done about it (\<open>P_close\<close>).\<close>

datatype 'c worker_pc =
    P_start
  | P_scan
  | P_dispatch "'c task" bool
  | P_drop
  | P_enter role addr
  | P_run role addr "'c body"
  | P_request role addr "'c request" "'c request list" "'c body outcome"
  | P_yield role addr "'c body outcome"
  | P_save role addr "'c body outcome"
  | P_after role addr
  | P_settle role addr
  | P_close role addr closing
  | P_done

record 'c worker =
  wk_tid :: int
  wk_pc :: "'c worker_pc"
  wk_idle :: addr
  wk_cb :: "addr option"

definition new_worker :: "int \<Rightarrow> 'c worker" where
  "new_worker tid = \<lparr>wk_tid = tid, wk_pc = P_start, wk_idle = 0, wk_cb = None\<rparr>"

text \<open>\<open>new Fiber(cb)\<close> with the default stack, and \<open>Fiber::reset\<close>\<close>

definition snew :: "'c body \<Rightarrow> ('c, 'u) sched \<Rightarrow> addr \<times> ('c, 'u) sched" where
  "snew b s = (hfresh (s_heap s), s\<lparr>s_heap := halloc (s_heap s)
     (Some \<lparr>fb_id = 0, fb_stacksize = 0, fb_state = INIT, fb_ctx = Ctx_entry MainFunc, fb_stack = True, fb_cb = Some b\<rparr>)\<rparr>)"

definition sreset :: "addr \<Rightarrow> 'c body option \<Rightarrow> ('c, 'u) sched \<Rightarrow> fault + ('c, 'u) sched" where
  "sreset a cb s =
     on_sfiber a s (\<lambda>f. check ''m_stack'' (fb_stack f)
       (check ''m_state ==TERM || m_state == EXCEPT || m_state == INIT'' (may_end (fb_state f))
         (Inr (sset a (f\<lparr>fb_cb := cb, fb_ctx := Ctx_entry MainFunc, fb_state := INIT\<rparr>) s))))"

text \<open>\<open>swapIn\<close>: the fiber is \<open>EXEC\<close>, and the worker goes on with the fiber's code.\<close>

definition sresume :: "role \<Rightarrow> addr \<Rightarrow> 'c body fiber \<Rightarrow> fault + 'c worker_pc" where
  "sresume r a f =
     (case fb_ctx f of
        Ctx_unset \<Rightarrow> Inl Indeterminate
      | Ctx_entry e \<Rightarrow>
          (case fb_cb f of
             None \<Rightarrow> Inr (P_yield r a (Ends (Threw (Std_exception ''bad_function_call''))))
           | Some b \<Rightarrow> Inr (P_run r a b))
      | Ctx_user fr b \<Rightarrow> Inr (P_run r a b)
      | Ctx_end e b \<Rightarrow> Inl (Assertion ''never reach fiber_id=''))"

definition sswapIn :: "role \<Rightarrow> addr \<Rightarrow> ('c, 'u) sched \<Rightarrow> fault + 'c worker_pc \<times> ('c, 'u) sched" where
  "sswapIn r a s =
     on_sfiber a s (\<lambda>f. check ''m_state != EXEC'' (fb_state f \<noteq> EXEC)
       (rbind (sresume r a f) (\<lambda>pc. Inr (pc, sset a (f\<lparr>fb_state := EXEC\<rparr>) s))))"

definition goto :: "'c worker_pc \<Rightarrow> 'c worker \<Rightarrow> 'c worker" where
  "goto pc w = w\<lparr>wk_pc := pc\<rparr>"

text \<open>A fiber's code with calls of \<open>schedule\<close> to make, or about to yield or end.\<close>

definition requesting :: "role \<Rightarrow> addr \<Rightarrow> 'c request list \<Rightarrow> 'c body outcome \<Rightarrow> 'c worker_pc" where
  "requesting r a reqs out = (case reqs of [] \<Rightarrow> P_yield r a out | q # qs \<Rightarrow> P_request r a q qs out)"

text \<open>
  The three branches after the critical section: the task is a fiber that has not finished;
  it is a callback, run on the worker's fiber for callbacks; or there is nothing to run, and
  the idle fiber runs, whose end is the end of the loop.  The switch is the next step.
\<close>

definition dispatch_fiber :: "addr \<Rightarrow> 'c worker \<Rightarrow> ('c, 'u) sched \<Rightarrow> fault + 'c worker \<times> ('c, 'u) sched" where
  "dispatch_fiber a w s = Inr (goto (P_enter Of_task a) w, s)"

definition dispatch_cb :: "'c body \<Rightarrow> 'c worker \<Rightarrow> ('c, 'u) sched \<Rightarrow> fault + 'c worker \<times> ('c, 'u) sched" where
  "dispatch_cb b w s =
     rbind (case wk_cb w of
              Some a \<Rightarrow> rbind (sreset a (Some b) s) (\<lambda>s1. Inr (a, s1))
            | None \<Rightarrow> Inr (snew b s))
       (\<lambda>(a, s1). Inr (goto (P_enter Of_cb a) (w\<lparr>wk_cb := Some a\<rparr>), s1))"

definition dispatch_idle :: "bool \<Rightarrow> 'c worker \<Rightarrow> ('c, 'u) sched \<Rightarrow> fault + 'c worker \<times> ('c, 'u) sched" where
  "dispatch_idle is_active w s =
     (if is_active then Inr (goto P_drop w, s)
      else on_sfiber (wk_idle w) s (\<lambda>f.
        if fb_state f = TERM' then Inr (goto P_done w, slog INFO ''idle fiber term'' s)
        else Inr (goto (P_enter Of_idle (wk_idle w)) w, s\<lparr>s_idle := s_idle s + 1\<rparr>)))"

definition dispatch ::
  "'c task \<Rightarrow> bool \<Rightarrow> 'c worker \<Rightarrow> ('c, 'u) sched \<Rightarrow> fault + 'c worker \<times> ('c, 'u) sched" where
  "dispatch ft is_active w s =
     (let other = (case tk_cb ft of Some b \<Rightarrow> dispatch_cb b w s | None \<Rightarrow> dispatch_idle is_active w s)
      in (case tk_fiber ft of
            Some a \<Rightarrow>
              on_sfiber a s (\<lambda>f.
                if fb_state f \<noteq> TERM' \<and> fb_state f \<noteq> EXCEPT then dispatch_fiber a w s else other)
          | None \<Rightarrow> other))"

text \<open>The end of a fiber's run: \<open>YieldToReady\<close>, \<open>YieldToHold\<close>, or the end of \<open>MainFunc\<close>.\<close>

definition set_yield :: "addr \<Rightarrow> 'c body outcome \<Rightarrow> ('c, 'u) sched \<Rightarrow> fault + ('c, 'u) sched" where
  "set_yield a out s =
     on_sfiber a s (\<lambda>f.
       case out of
         Yields st k \<Rightarrow> check ''cur->m_state == EXEC'' (fb_state f = EXEC) (Inr (sset a (f\<lparr>fb_state := st\<rparr>) s))
       | Ends Returned \<Rightarrow> Inr (sset a (f\<lparr>fb_cb := None, fb_state := TERM'\<rparr>) s)
       | Ends (Threw e) \<Rightarrow> Inr (sset a (f\<lparr>fb_state := EXCEPT\<rparr>) s))"

definition save_ctx :: "addr \<Rightarrow> 'c body outcome \<Rightarrow> ('c, 'u) sched \<Rightarrow> fault + ('c, 'u) sched" where
  "save_ctx a out s =
     on_sfiber a s (\<lambda>f. Inr (sset a (f\<lparr>fb_ctx := (case out of
        Yields st k \<Rightarrow> Ctx_user (Body MainFunc a) k | Ends e \<Rightarrow> Ctx_end MainFunc a)\<rparr>) s))"

text \<open>What the loop does when \<open>swapIn\<close> has returned, in three steps: it changes its counter, looks at the
  state of the fiber, and acts on it.  Until the last one \<open>stopping()\<close> does not see the fiber.\<close>

definition after_swap :: "role \<Rightarrow> ('c, 'u) sched \<Rightarrow> ('c, 'u) sched" where
  "after_swap r s = (if r = Of_idle then s\<lparr>s_idle := s_idle s - 1\<rparr> else s\<lparr>s_active := s_active s - 1\<rparr>)"

definition settle :: "role \<Rightarrow> addr \<Rightarrow> 'c worker \<Rightarrow> ('c, 'u) sched \<Rightarrow> fault + 'c worker \<times> ('c, 'u) sched" where
  "settle r a w s =
     on_sfiber a s (\<lambda>f.
       let over = (fb_state f = TERM' \<or> fb_state f = EXCEPT)
       in Inr (goto
           (if r \<noteq> Of_idle \<and> fb_state f = READY then P_close r a Cl_schedule
            else if \<not> over then P_close r a Cl_hold
            else if r = Of_cb then P_close r a Cl_reset
            else P_scan) w, s))"

definition close ::
  "role \<Rightarrow> addr \<Rightarrow> closing \<Rightarrow> 'c worker \<Rightarrow> ('c, 'u) sched \<Rightarrow> fault + 'c worker \<times> ('c, 'u) sched" where
  "close r a cl w s =
     (let w1 = goto P_scan (if r = Of_cb then w\<lparr>wk_cb := None\<rparr> else w)
      in case cl of
           Cl_schedule \<Rightarrow> Inr (w1, schedule (Fib (Some a)) (- 1) s)
         | Cl_hold \<Rightarrow> on_sfiber a s (\<lambda>f. Inr (w1, sset a (f\<lparr>fb_state := HOLD\<rparr>) s))
         | Cl_reset \<Rightarrow> rbind (sreset a None s) (\<lambda>s1. Inr (goto P_scan w, s1)))"

text \<open>
  One step of \<open>Scheduler::run\<close> on one worker.  The first step is the beginning of the
  function: the idle fiber is made; the fiber for callbacks is null.
\<close>

definition worker_step ::
  "bool \<Rightarrow> ('c, 'u) behaviour \<Rightarrow> 'c worker \<Rightarrow> ('c, 'u) sched \<Rightarrow> fault + 'c worker \<times> ('c, 'u) sched" where
  "worker_step une beh w s =
     (case wk_pc w of
        P_start \<Rightarrow> (case snew (Idle False) (slog DEBUG (s_name s @ '' run'') s) of (a, s1) \<Rightarrow> Inr (goto P_scan (w\<lparr>wk_idle := a, wk_cb := None\<rparr>), s1))
      | P_scan \<Rightarrow>
          rbind (scan une (wk_tid w) 0 False s) (\<lambda>(sc, s1).
            Inr (goto (P_dispatch (sc_ft sc) (sc_active sc)) w, if sc_tickle sc then tickle s1 else s1))
      | P_dispatch ft is_active \<Rightarrow> dispatch ft is_active w s
      | P_drop \<Rightarrow> Inr (goto P_scan w, s\<lparr>s_active := s_active s - 1\<rparr>)
      | P_enter r a \<Rightarrow> rbind (sswapIn r a s) (\<lambda>(pc, s1). Inr (goto pc w, s1))
      | P_run r a b \<Rightarrow> (case run_body beh b s of (reqs, out, s1) \<Rightarrow> Inr (goto (requesting r a reqs out) w, s1))
      | P_request r a q qs out \<Rightarrow> Inr (goto (requesting r a qs out) w, do_request a q s)
      | P_yield r a out \<Rightarrow> rbind (set_yield a out s) (\<lambda>s1. Inr (goto (P_save r a out) w, s1))
      | P_save r a out \<Rightarrow> rbind (save_ctx a out s) (\<lambda>s1. Inr (goto (P_after r a) w, s1))
      | P_after r a \<Rightarrow> Inr (goto (P_settle r a) w, after_swap r s)
      | P_settle r a \<Rightarrow> settle r a w s
      | P_close r a cl \<Rightarrow> close r a cl w s
      | P_done \<Rightarrow> Inr (w, s))"

section \<open>All the threads\<close>

record ('c, 'u) sched_sys =
  y_sched :: "('c, 'u) sched"
  y_workers :: "'c worker list"

text \<open>
  The events: a worker makes a step; code outside the workers schedules something; \<open>start\<close>
  and \<open>stop\<close> set their flags; a thread begins to run \<open>Scheduler::run\<close>; some code of the user, in a
  fiber or elsewhere, changes the data.
\<close>

datatype ('c, 'u) event =
    Ev_step nat | Ev_schedule "'c fiber_or_cb" int | Ev_started | Ev_stop | Ev_thread int | Ev_user 'u

definition sys_step ::
  "bool \<Rightarrow> ('c, 'u) behaviour \<Rightarrow> ('c, 'u) event \<Rightarrow> ('c, 'u) sched_sys \<Rightarrow> fault + ('c, 'u) sched_sys" where
  "sys_step une beh ev y =
     (case ev of
        Ev_step i \<Rightarrow>
          if i < length (y_workers y) then
            rbind (worker_step une beh (y_workers y ! i) (y_sched y)) (\<lambda>(w, s).
              Inr (y\<lparr>y_sched := s, y_workers := (y_workers y)[i := w]\<rparr>))
          else Inr y
      | Ev_schedule fc thread \<Rightarrow> Inr (y\<lparr>y_sched := schedule fc thread (y_sched y)\<rparr>)
      | Ev_started \<Rightarrow> Inr (y\<lparr>y_sched := (y_sched y)\<lparr>s_stopping := False\<rparr>\<rparr>)
      | Ev_stop \<Rightarrow> Inr (y\<lparr>y_sched := (y_sched y)\<lparr>s_autoStop := True, s_stopping := True\<rparr>\<rparr>)
      | Ev_thread tid \<Rightarrow> Inr (y\<lparr>y_workers := y_workers y @ [new_worker tid]\<rparr>)
      | Ev_user u \<Rightarrow> Inr (y\<lparr>y_sched := (y_sched y)\<lparr>s_user := u\<rparr>\<rparr>))"

definition run_events ::
  "bool \<Rightarrow> ('c, 'u) behaviour \<Rightarrow> ('c, 'u) event list \<Rightarrow> ('c, 'u) sched_sys \<Rightarrow> fault + ('c, 'u) sched_sys" where
  "run_events une beh = rfold (sys_step une beh)"

end
