(* ===== verification/SchedulerInvariants.thy ===== *)
theory SchedulerInvariants
  imports Scheduler
begin

text \<open>Correctness of the scheduler's loop: which task a worker takes, what the counters and
  \<open>stopping()\<close> mean in every interleaving of the workers, and two runs in which the loop goes
  wrong.\<close>

section \<open>Taking a task\<close>

text \<open>A task a worker may take: for its thread, and not a fiber that is running.\<close>

definition eligible :: "('c, 'u) sched \<Rightarrow> int \<Rightarrow> 'c task \<Rightarrow> bool" where
  "eligible s tid t \<longleftrightarrow> (tk_thread t = - 1 \<or> tk_thread t = tid) \<and>
     (\<forall>a f. tk_fiber t = Some a \<and> sget s a = Some f \<longrightarrow> fb_state f \<noteq> EXEC)"

definition valid_task :: "('c, 'u) sched \<Rightarrow> 'c task \<Rightarrow> bool" where
  "valid_task s t \<longleftrightarrow> (case tk_fiber t of Some a \<Rightarrow> sget s a \<noteq> None | None \<Rightarrow> tk_cb t \<noteq> None)"

lemma on_sfiber_Some [simp]: "sget s a = Some f \<Longrightarrow> on_sfiber a s k = k f"
  by (simp add: on_sfiber_def)

lemma scan_spec_from:
  assumes "\<forall>t\<in>set (s_tasks s). valid_task s t" "i \<le> length (s_tasks s)"
  shows "(\<exists>pre t post. drop i (s_tasks s) = pre @ t # post \<and> eligible s tid t \<and> (\<forall>x\<in>set pre. \<not> eligible s tid x) \<and>
       scan une tid i tm s = Inr (\<lparr>sc_ft = t, sc_tickle = (tm \<or> une \<or> (\<exists>x\<in>set pre. tk_thread x \<noteq> - 1 \<and> tk_thread x \<noteq> tid)), sc_active = True\<rparr>,
         s\<lparr>s_tasks := take i (s_tasks s) @ pre @ post, s_active := s_active s + 1\<rparr>)) \<or>
     (\<forall>x\<in>set (drop i (s_tasks s)). \<not> eligible s tid x) \<and>
       scan une tid i tm s = Inr (\<lparr>sc_ft = empty_task,
         sc_tickle = (tm \<or> (\<exists>x\<in>set (drop i (s_tasks s)). tk_thread x \<noteq> - 1 \<and> tk_thread x \<noteq> tid)), sc_active = False\<rparr>, s)"
  using assms(2)
proof (induction "length (s_tasks s) - i" arbitrary: i tm)
  case 0
  then show ?case by (subst scan.simps) simp
next
  case (Suc n)
  then have i: "i < length (s_tasks s)" by simp
  let ?t = "s_tasks s ! i"
  have d: "drop i (s_tasks s) = ?t # drop (Suc i) (s_tasks s)" using i by (simp add: drop_Suc_eq)
  have tk: "take (Suc i) (s_tasks s) = take i (s_tasks s) @ [?t]" using i by (simp add: take_Suc_conv_app_nth)
  have v: "valid_task s ?t" using assms(1) i by simp
  note IH = Suc.hyps(1) [of "Suc i"]
  have len: "n = length (s_tasks s) - Suc i" "Suc i \<le> length (s_tasks s)" using Suc.hyps(2) i by simp_all
  consider (other) "tk_thread ?t \<noteq> - 1 \<and> tk_thread ?t \<noteq> tid"
    | (running) a f where "\<not> (tk_thread ?t \<noteq> - 1 \<and> tk_thread ?t \<noteq> tid)" "tk_fiber ?t = Some a" "sget s a = Some f" "fb_state f = EXEC"
    | (taken) "\<not> (tk_thread ?t \<noteq> - 1 \<and> tk_thread ?t \<noteq> tid)" "\<forall>a f. tk_fiber ?t = Some a \<and> sget s a = Some f \<longrightarrow> fb_state f \<noteq> EXEC"
    by blast
  then show ?case
  proof cases
    case other
    then have sc: "scan une tid i tm s = scan une tid (Suc i) True s"
      using i by (simp add: scan.simps [of une tid i] Let_def)
    have ne: "\<not> eligible s tid ?t" using other by (auto simp: eligible_def)
    from IH [OF len, of True] show ?thesis unfolding sc d tk
    proof (elim disjE exE conjE, goal_cases)
      case (1 pre t post)
      then show ?case using ne other
        by (intro disjI1 exI [of _ "?t # pre"] exI [of _ t] exI [of _ post]) auto
    next
      case 2
      then show ?case using ne other by (intro disjI2) auto
    qed
  next
    case running
    then have sc: "scan une tid i tm s = scan une tid (Suc i) tm s"
      using i by (auto simp: scan.simps [of une tid i] Let_def)
    have ne: "\<not> eligible s tid ?t" using running by (auto simp: eligible_def)
    from IH [OF len, of tm] show ?thesis unfolding sc d tk
    proof (elim disjE exE conjE, goal_cases)
      case (1 pre t post)
      then show ?case using ne running(1)
        by (intro disjI1 exI [of _ "?t # pre"] exI [of _ t] exI [of _ post]) auto
    next
      case 2
      then show ?case using ne running(1) by (intro disjI2) auto
    qed
  next
    case taken
    have "scan une tid i tm s = Inr (\<lparr>sc_ft = ?t, sc_tickle = (tm \<or> une), sc_active = True\<rparr>,
        s\<lparr>s_tasks := take i (s_tasks s) @ drop (Suc i) (s_tasks s), s_active := s_active s + 1\<rparr>)"
      using i taken v by (auto simp: scan.simps [of une tid i] Let_def valid_task_def split: option.splits)
    moreover have "eligible s tid ?t" using taken by (auto simp: eligible_def)
    ultimately show ?thesis unfolding d
      by (intro disjI1 exI [of _ "[]"] exI [of _ ?t] exI [of _ "drop (Suc i) (s_tasks s)"]) simp
  qed
qed

text \<open>The critical section takes the first task of the queue that is meant for this thread (or
  for any) and is not a fiber in execution, removes only it, and counts it; when there is none
  it changes nothing.\<close>

theorem scan_takes_first:
  assumes "\<forall>t\<in>set (s_tasks s). valid_task s t"
  shows "(\<exists>pre t post tick. s_tasks s = pre @ t # post \<and> eligible s tid t \<and> (\<forall>x\<in>set pre. \<not> eligible s tid x) \<and>
       scan une tid 0 False s = Inr (\<lparr>sc_ft = t, sc_tickle = tick, sc_active = True\<rparr>,
         s\<lparr>s_tasks := pre @ post, s_active := s_active s + 1\<rparr>)) \<or>
     (\<forall>x\<in>set (s_tasks s). \<not> eligible s tid x) \<and>
       (\<exists>tick. scan une tid 0 False s = Inr (\<lparr>sc_ft = empty_task, sc_tickle = tick, sc_active = False\<rparr>, s))"
  using scan_spec_from [OF assms, of 0 tid une False] by simp blast

section \<open>Scheduling\<close>

text \<open>What one element of a range adds to the queue, and what is left of it in the caller's range.\<close>

definition tasks_of :: "int \<Rightarrow> 'c fiber_or_cb \<Rightarrow> 'c task list" where
  "tasks_of thread fc = (let t = mk_task fc thread in if tk_fiber t \<noteq> None \<or> tk_cb t \<noteq> None then [t] else [])"

fun emptied :: "'c fiber_or_cb \<Rightarrow> 'c fiber_or_cb" where
  "emptied (Fib f) = Fib None"
| "emptied (Cb c) = Cb None"

lemma mk_task_swap_eq: "mk_task_swap fc thread = (mk_task fc thread, emptied fc)"
  by (cases fc) simp_all

lemma push_task_effect:
  "push_task (mk_task fc thread) s = (s_tasks s = [], s\<lparr>s_tasks := s_tasks s @ tasks_of thread fc\<rparr>)"
  by (simp add: push_task_def tasks_of_def Let_def)

lemma schedule_effect:
  "schedule fc thread s = s\<lparr>s_tasks := s_tasks s @ tasks_of thread fc,
     s_log := s_log s @ (if s_tasks s = [] then [(INFO, ''tickle'')] else [])\<rparr>"
  by (simp add: schedule_def scheduleNoLock_def push_task_effect tickle_def slog_def)

lemma schedule_loop_effect:
  "schedule_loop fcs need s = (need \<or> s_tasks s = [] \<and> fcs \<noteq> [], map emptied fcs,
     s\<lparr>s_tasks := s_tasks s @ concat (map (tasks_of (- 1)) fcs)\<rparr>)"
  by (induction fcs arbitrary: need s) (auto simp: mk_task_swap_eq push_task_effect Let_def)

lemma schedule_each: "s_tasks (fold (\<lambda>fc. schedule fc thread) fcs s) = s_tasks s @ concat (map (tasks_of thread) fcs)"
  by (induction fcs arbitrary: s) (simp_all add: schedule_effect)

text \<open>Scheduling a range queues what scheduling its elements one by one queues, in the same order and for any
  thread, skipping null fibers and empty callbacks; it empties the caller's range, and announces new tasks at most
  once, when the queue was empty.\<close>

theorem schedule_range_each:
  "schedule_range fcs s = (map emptied fcs, s\<lparr>s_tasks := s_tasks (fold (\<lambda>fc. schedule fc (- 1)) fcs s),
     s_log := s_log s @ (if s_tasks s = [] \<and> fcs \<noteq> [] then [(INFO, ''tickle'')] else [])\<rparr>)"
  by (simp add: schedule_range_def schedule_loop_effect schedule_each tickle_def slog_def)

section \<open>The counters\<close>

text \<open>From the switch to a fiber to the change of the counter after it.\<close>

fun pc_role :: "'c worker_pc \<Rightarrow> role option" where
  "pc_role (P_enter r a) = Some r"
| "pc_role (P_run r a b) = Some r"
| "pc_role (P_request r a q qs out) = Some r"
| "pc_role (P_yield r a out) = Some r"
| "pc_role (P_save r a out) = Some r"
| "pc_role (P_after r a) = Some r"
| "pc_role _ = None"

text \<open>A worker that has taken a task and not yet given its count back, and one in its idle
  fiber.\<close>

definition pc_active :: "'c worker_pc \<Rightarrow> bool" where
  "pc_active pc \<longleftrightarrow> (\<exists>ft. pc = P_dispatch ft True) \<or> pc = P_drop \<or> pc_role pc = Some Of_task \<or> pc_role pc = Some Of_cb"

definition pc_idle :: "'c worker_pc \<Rightarrow> bool" where
  "pc_idle pc \<longleftrightarrow> pc_role pc = Some Of_idle"

lemma pc_flags [simp]:
  "\<not> pc_active P_start" "\<not> pc_active P_scan" "\<not> pc_active P_done" "pc_active (P_dispatch ft b) = b" "pc_active P_drop"
  "pc_active (P_enter r a) = (r \<noteq> Of_idle)" "pc_active (P_run r a x) = (r \<noteq> Of_idle)"
  "pc_active (P_request r a q qs out) = (r \<noteq> Of_idle)" "pc_active (P_yield r a out) = (r \<noteq> Of_idle)"
  "pc_active (P_save r a out) = (r \<noteq> Of_idle)" "pc_active (P_after r a) = (r \<noteq> Of_idle)"
  "\<not> pc_active (P_settle r a)" "\<not> pc_active (P_close r a cl)"
  "\<not> pc_idle P_start" "\<not> pc_idle P_scan" "\<not> pc_idle P_done" "\<not> pc_idle (P_dispatch ft b)" "\<not> pc_idle P_drop"
  "pc_idle (P_enter r a) = (r = Of_idle)" "pc_idle (P_run r a x) = (r = Of_idle)"
  "pc_idle (P_request r a q qs out) = (r = Of_idle)" "pc_idle (P_yield r a out) = (r = Of_idle)"
  "pc_idle (P_save r a out) = (r = Of_idle)" "pc_idle (P_after r a) = (r = Of_idle)"
  "\<not> pc_idle (P_settle r a)" "\<not> pc_idle (P_close r a cl)"
  by (auto simp: pc_active_def pc_idle_def intro: role.exhaust)

text \<open>A worker that has given its count back and still has a fiber to see to: \<open>stopping()\<close> does not
  count it.\<close>

fun unsettled :: "'c worker_pc \<Rightarrow> bool" where
  "unsettled (P_settle r a) = (r \<noteq> Of_idle)"
| "unsettled (P_close r a cl) = (r \<noteq> Of_idle)"
| "unsettled pc = False"

lemma requesting_Nil [simp]: "requesting r a [] out = P_yield r a out"
  by (simp add: requesting_def)

lemma requesting_Cons [simp]: "requesting r a (q # qs) out = P_request r a q qs out"
  by (simp add: requesting_def)

lemma requesting_role [simp]: "pc_role (requesting r a reqs out) = Some r"
  by (simp add: requesting_def split: list.split)

lemma wk_pc_goto [simp]: "wk_pc (goto pc w) = pc"
  by (simp add: goto_def)

text \<open>What does not touch the counters.\<close>

lemma counters_simps [simp]:
  "s_active (sset a f s) = s_active s" "s_idle (sset a f s) = s_idle s"
  "s_active (slog l t s) = s_active s" "s_idle (slog l t s) = s_idle s"
  "s_active (tickle s) = s_active s" "s_idle (tickle s) = s_idle s"
  by (simp_all add: sset_def slog_def tickle_def)

lemma counters_schedule [simp]: "s_active (schedule fc th s) = s_active s" "s_idle (schedule fc th s) = s_idle s"
  by (simp_all add: schedule_def scheduleNoLock_def push_task_def Let_def split: prod.splits)

lemma counters_request [simp]: "s_active (do_request a r s) = s_active s" "s_idle (do_request a r s) = s_idle s"
  by (cases r; simp)+

lemma counters_requests [simp]:
  "s_active (fold (do_request a) rs s) = s_active s" "s_idle (fold (do_request a) rs s) = s_idle s"
  by (induction rs arbitrary: s) simp_all

lemma counters_run_body:
  "run_body beh b s = (reqs, out, s') \<Longrightarrow> s_active s' = s_active s \<and> s_idle s' = s_idle s"
  by (cases b) (auto split: prod.splits if_splits)

lemma on_sfiber_InrE [inversion]:
  assumes "on_sfiber a s k = Inr r"
  obtains f where "sget s a = Some f" "k f = Inr r"
  using assms by (auto simp: on_sfiber_def split: option.splits)

lemma counters_scan:
  "scan une tid i tm s = Inr (sc, s') \<Longrightarrow>
   s_active s' = s_active s + of_bool (sc_active sc) \<and> s_idle s' = s_idle s"
proof (induction "length (s_tasks s) - i" arbitrary: i tm)
  case 0
  then show ?case by (auto simp: scan.simps [of une tid i])
next
  case (Suc n)
  have IH: "scan une tid (Suc i) b s = Inr (sc, s') \<Longrightarrow>
      s_active s' = s_active s + of_bool (sc_active sc) \<and> s_idle s' = s_idle s" for b
    using Suc.hyps by (intro Suc.hyps(1)) simp_all
  show ?case using Suc.prems Suc.hyps(2) IH
    by (subst (asm) scan.simps) (auto simp: Let_def elim!: inversion split: if_splits option.splits)
qed

lemma counters_swapIn: "sswapIn r a s = Inr (pc, s') \<Longrightarrow> s_active s' = s_active s \<and> s_idle s' = s_idle s \<and> pc_role pc = Some r"
  by (auto simp: sswapIn_def sresume_def elim!: inversion dest!: check_InrD split: ctx.splits option.splits)

lemma counters_reset: "sreset a cb s = Inr s' \<Longrightarrow> s_active s' = s_active s \<and> s_idle s' = s_idle s"
  by (auto simp: sreset_def elim!: inversion dest!: check_InrD)

lemma counters_new: "snew b s = (a, s') \<Longrightarrow> s_active s' = s_active s \<and> s_idle s' = s_idle s"
  by (auto simp: snew_def)

lemma role_active: "pc_role pc = Some r \<Longrightarrow> pc_active pc = (r \<noteq> Of_idle) \<and> pc_idle pc = (r = Of_idle)"
  by (cases pc) (auto simp: pc_active_def pc_idle_def intro: role.exhaust)

lemma counters_dispatch_fiber:
  "dispatch_fiber a w s = Inr (w', s') \<Longrightarrow>
   s_active s' = s_active s \<and> s_idle s' = s_idle s \<and> pc_active (wk_pc w') \<and> \<not> pc_idle (wk_pc w')"
  by (auto simp: dispatch_fiber_def)

lemma counters_dispatch_cb:
  "dispatch_cb b w s = Inr (w', s') \<Longrightarrow>
   s_active s' = s_active s \<and> s_idle s' = s_idle s \<and> pc_active (wk_pc w') \<and> \<not> pc_idle (wk_pc w')"
  by (auto simp: dispatch_cb_def dest!: counters_reset split: option.splits) (auto simp: snew_def)

lemma counters_dispatch_idle:
  "dispatch_idle ia w s = Inr (w', s') \<Longrightarrow>
   s_active s' = s_active s \<and> s_idle s' = s_idle s + of_bool (pc_idle (wk_pc w')) \<and> pc_active (wk_pc w') = ia"
  by (auto simp: dispatch_idle_def elim!: inversion split: if_splits)

lemma dispatch_cases:
  assumes "dispatch ft ia w s = Inr r"
  obtains (task) a where "dispatch_fiber a w s = Inr r" "tk_fiber ft = Some a"
    | (cb) b where "dispatch_cb b w s = Inr r" "tk_cb ft = Some b"
    | (idle) "dispatch_idle ia w s = Inr r"
  using assms by (auto simp: dispatch_def Let_def elim!: inversion split: option.splits if_splits)

lemma counters_dispatch:
  assumes "dispatch ft ia w s = Inr (w', s')" "tk_fiber ft \<noteq> None \<or> tk_cb ft \<noteq> None \<longrightarrow> ia"
  shows "s_active s' + of_bool ia = s_active s + of_bool (pc_active (wk_pc w')) \<and>
    s_idle s' = s_idle s + of_bool (pc_idle (wk_pc w'))"
proof -
  from assms(1) show ?thesis
  proof (cases rule: dispatch_cases)
    case task
    then show ?thesis using counters_dispatch_fiber [OF task(1)] assms(2) by simp
  next
    case cb
    then show ?thesis using counters_dispatch_cb [OF cb(1)] assms(2) by simp
  next
    case idle
    then show ?thesis using counters_dispatch_idle [OF idle] by simp
  qed
qed

text \<open>The task of a worker that is about to dispatch is what the critical section left.\<close>

definition pc_ok :: "'c worker_pc \<Rightarrow> bool" where
  "pc_ok pc \<longleftrightarrow> (\<forall>ft ia. pc = P_dispatch ft ia \<longrightarrow> (tk_fiber ft \<noteq> None \<or> tk_cb ft \<noteq> None \<longrightarrow> ia))"

lemma pc_ok_start: "pc_ok P_start"
  by (simp add: pc_ok_def)

lemma scan_ok:
  "scan une tid i tm s = Inr (sc, s') \<Longrightarrow> tk_fiber (sc_ft sc) \<noteq> None \<or> tk_cb (sc_ft sc) \<noteq> None \<longrightarrow> sc_active sc"
proof (induction "length (s_tasks s) - i" arbitrary: i tm)
  case 0
  then show ?case by (auto simp: scan.simps [of une tid i] empty_task_def)
next
  case (Suc n)
  have IH: "scan une tid (Suc i) b s = Inr (sc, s') \<Longrightarrow>
      tk_fiber (sc_ft sc) \<noteq> None \<or> tk_cb (sc_ft sc) \<noteq> None \<longrightarrow> sc_active sc" for b
    using Suc.hyps by (intro Suc.hyps(1)) simp_all
  show ?case using Suc.prems Suc.hyps(2) IH
    by (subst (asm) scan.simps) (auto simp: Let_def elim!: inversion split: if_splits option.splits)
qed

lemma counters_yield: "set_yield a out s = Inr s' \<Longrightarrow> s_active s' = s_active s \<and> s_idle s' = s_idle s"
  by (auto simp: set_yield_def elim!: inversion dest!: check_InrD split: outcome.splits ending.splits)

lemma counters_save: "save_ctx a out s = Inr s' \<Longrightarrow> s_active s' = s_active s \<and> s_idle s' = s_idle s"
  by (auto simp: save_ctx_def elim!: inversion)

lemma counters_after:
  "s_active (after_swap r s) + of_bool (r \<noteq> Of_idle) = s_active s \<and> s_idle (after_swap r s) + of_bool (r = Of_idle) = s_idle s"
  by (simp add: after_swap_def)

lemma counters_settle:
  "settle r a w s = Inr (w', s') \<Longrightarrow> s' = s \<and> \<not> pc_active (wk_pc w') \<and> \<not> pc_idle (wk_pc w') \<and> pc_ok (wk_pc w')"
  by (auto simp: settle_def Let_def pc_ok_def elim!: inversion split: if_split_asm)

lemma counters_close:
  "close r a cl w s = Inr (w', s') \<Longrightarrow> s_active s' = s_active s \<and> s_idle s' = s_idle s \<and> wk_pc w' = P_scan"
  by (cases cl) (auto simp: close_def Let_def elim!: inversion dest!: counters_reset)

lemma counters_step:
  assumes "worker_step une beh w s = Inr (w', s')" "pc_ok (wk_pc w)"
  shows "s_active s' + of_bool (pc_active (wk_pc w)) = s_active s + of_bool (pc_active (wk_pc w')) \<and>
    s_idle s' + of_bool (pc_idle (wk_pc w)) = s_idle s + of_bool (pc_idle (wk_pc w')) \<and> pc_ok (wk_pc w')"
proof (cases "wk_pc w")
  case P_start
  then show ?thesis using assms by (auto simp: worker_step_def snew_def pc_ok_def)
next
  case P_scan
  then obtain sc s1 where sc: "scan une (wk_tid w) 0 False s = Inr (sc, s1)"
    and w': "w' = goto (P_dispatch (sc_ft sc) (sc_active sc)) w" "s' = (if sc_tickle sc then tickle s1 else s1)"
    using assms by (auto simp: worker_step_def)
  show ?thesis using counters_scan [OF sc] scan_ok [OF sc] P_scan by (simp add: w' pc_ok_def)
next
  case (P_dispatch ft ia)
  have "wk_pc w' = P_dispatch ft' ia' \<Longrightarrow> False" for ft' ia'
    using assms P_dispatch
    by (auto simp: worker_step_def dispatch_def dispatch_fiber_def dispatch_cb_def dispatch_idle_def Let_def
        elim!: inversion split: option.splits if_splits dest!: counters_swapIn)
  then show ?thesis using counters_dispatch [of ft ia w s w' s'] assms P_dispatch
    by (auto simp: worker_step_def pc_ok_def)
next
  case P_drop
  then show ?thesis using assms by (auto simp: worker_step_def pc_ok_def)
next
  case (P_enter r a)
  then obtain pc where "sswapIn r a s = Inr (pc, s')" "w' = goto pc w" using assms by (auto simp: worker_step_def)
  then show ?thesis using counters_swapIn [of r a s pc s'] role_active [of pc r] P_enter by (auto simp: pc_ok_def)
next
  case (P_run r a b)
  obtain reqs out where "run_body beh b s = (reqs, out, s')" "w' = goto (requesting r a reqs out) w"
    using assms(1) by (auto simp: worker_step_def P_run split: prod.splits)
  then show ?thesis using counters_run_body [of beh b s reqs out s'] role_active [OF requesting_role, of r a reqs out] P_run by (auto simp: pc_ok_def)
next
  case (P_request r a q qs out)
  then have "w' = goto (requesting r a qs out) w" "s' = do_request a q s" using assms(1) by (auto simp: worker_step_def)
  then show ?thesis using role_active [OF requesting_role, of r a qs out] P_request by (auto simp: pc_ok_def)
next
  case (P_yield r a out)
  then show ?thesis using assms by (auto simp: worker_step_def pc_ok_def dest!: counters_yield)
next
  case (P_save r a out)
  then show ?thesis using assms by (auto simp: worker_step_def pc_ok_def dest!: counters_save)
next
  case (P_after r a)
  then show ?thesis using assms counters_after [of r s] by (auto simp: worker_step_def pc_ok_def)
next
  case (P_settle r a)
  then show ?thesis using assms counters_settle [of r a w s w' s'] by (simp add: worker_step_def)
next
  case (P_close r a cl)
  then show ?thesis using assms counters_close [of r a cl w s w' s'] by (simp add: worker_step_def pc_ok_def)
next
  case P_done
  then show ?thesis using assms by (auto simp: worker_step_def pc_ok_def)
qed

text \<open>The number of workers at a kind of place, as the counters count it.\<close>

definition how_many :: "('c worker_pc \<Rightarrow> bool) \<Rightarrow> 'c worker list \<Rightarrow> nat" where
  "how_many P ws = length (filter (\<lambda>w. P (wk_pc w)) ws)"

lemma how_many_update:
  "i < length ws \<Longrightarrow> how_many P (ws[i := w]) + of_bool (P (wk_pc (ws ! i))) = how_many P ws + of_bool (P (wk_pc w))"
proof (induction ws arbitrary: i)
  case (Cons v ws)
  then show ?case by (cases i) (auto simp: how_many_def)
qed simp

definition counters_inv :: "('c, 'u) sched_sys \<Rightarrow> bool" where
  "counters_inv y \<longleftrightarrow> s_active (y_sched y) = of_nat (how_many pc_active (y_workers y)) \<and>
     s_idle (y_sched y) = of_nat (how_many pc_idle (y_workers y)) \<and> (\<forall>w\<in>set (y_workers y). pc_ok (wk_pc w))"

lemma u64_count_update:
  fixes a :: u64
  assumes "a' + of_bool p = a + of_bool q" "a = of_nat n" "n' + of_bool p = n + of_bool q"
  shows "a' = of_nat n'"
proof -
  have "(of_nat (n' + of_bool p) :: u64) = of_nat (n + of_bool q)" using assms(3) by simp
  then have "a' + of_bool p = of_nat n' + of_bool p" using assms(1,2) by (cases p; cases q) (simp_all add: add.commute)
  then show ?thesis by simp
qed

lemma counters_inv_step:
  assumes "counters_inv y" "sys_step une beh ev y = Inr y'"
  shows "counters_inv y'"
proof (cases ev)
  case (Ev_step i)
  show ?thesis
  proof (cases "i < length (y_workers y)")
    case True
    then obtain w s where st: "worker_step une beh (y_workers y ! i) (y_sched y) = Inr (w, s)"
      and y': "y' = y\<lparr>y_sched := s, y_workers := (y_workers y)[i := w]\<rparr>"
      using assms(2) Ev_step by (auto simp: sys_step_def)
    have ok: "pc_ok (wk_pc (y_workers y ! i))" using assms(1) True by (simp add: counters_inv_def)
    note c = counters_step [OF st ok]
    have "s_active s = of_nat (how_many pc_active ((y_workers y)[i := w]))"
      by (rule u64_count_update [OF conjunct1 [OF c] _ how_many_update [OF True, where P = pc_active]])
        (use assms(1) in \<open>simp add: counters_inv_def\<close>)
    moreover have "s_idle s = of_nat (how_many pc_idle ((y_workers y)[i := w]))"
      by (rule u64_count_update [OF conjunct1 [OF conjunct2 [OF c]] _ how_many_update [OF True, where P = pc_idle]])
        (use assms(1) in \<open>simp add: counters_inv_def\<close>)
    moreover have "\<forall>v\<in>set ((y_workers y)[i := w]). pc_ok (wk_pc v)"
      using c assms(1) set_update_subset_insert [of "y_workers y" i w] by (auto simp: counters_inv_def)
    ultimately show ?thesis by (simp add: y' counters_inv_def)
  next
    case False
    then show ?thesis using assms Ev_step by (simp add: sys_step_def)
  qed
qed (use assms pc_ok_start in \<open>auto simp: sys_step_def counters_inv_def how_many_def new_worker_def\<close>)

interpretation counting: keeps "sys_step une beh" counters_inv for une beh
  by unfold_locales (rule counters_inv_step)

lemma counters_inv_run: "run_events une beh evs y = Inr y' \<Longrightarrow> counters_inv y \<Longrightarrow> counters_inv y'"
  unfolding run_events_def by (rule counting.loop_keeps)

definition sched_start :: "string \<Rightarrow> 'u \<Rightarrow> ('c, 'u) sched_sys" where
  "sched_start name u = \<lparr>y_sched = \<lparr>s_tasks = [], s_active = 0, s_idle = 0, s_stopping = True, s_autoStop = False,
     s_heap = [], s_name = name, s_user = u, s_log = []\<rparr>, y_workers = []\<rparr>"

lemma counters_quiet:
  assumes "counters_inv y" "length (y_workers y) < 2 ^ 64"
  shows "unat (s_active (y_sched y)) = how_many pc_active (y_workers y)"
    "unat (s_idle (y_sched y)) = how_many pc_idle (y_workers y)"
    "s_active (y_sched y) = 0 \<longleftrightarrow> (\<forall>w\<in>set (y_workers y). \<not> pc_active (wk_pc w))"
proof -
  have le: "how_many P (y_workers y) < 2 ^ 64" for P
    unfolding how_many_def by (rule le_less_trans [OF length_filter_le assms(2)])
  show u: "unat (s_active (y_sched y)) = how_many pc_active (y_workers y)"
    "unat (s_idle (y_sched y)) = how_many pc_idle (y_workers y)"
    using assms(1) le by (simp_all add: counters_inv_def unsigned_of_nat take_bit_nat_eq_self)
  have "s_active (y_sched y) = 0 \<longleftrightarrow> how_many pc_active (y_workers y) = 0"
    using u(1) by (simp add: unat_eq_0 flip: u(1))
  also have "\<dots> \<longleftrightarrow> (\<forall>w\<in>set (y_workers y). \<not> pc_active (wk_pc w))"
    by (simp add: how_many_def filter_empty_conv)
  finally show "s_active (y_sched y) = 0 \<longleftrightarrow> (\<forall>w\<in>set (y_workers y). \<not> pc_active (wk_pc w))" .
qed

lemma counters_inv_start: "counters_inv (sched_start name u)"
  by (simp add: counters_inv_def sched_start_def how_many_def)


theorem scan_takes_first_witness:
  "\<exists>tick. scan False 7 0 False ((y_sched (sched_start ''s'' ()))\<lparr>s_tasks := [\<lparr>tk_fiber = None, tk_cb = Some (User ()), tk_thread = 7\<rparr>]\<rparr>) =
     Inr (\<lparr>sc_ft = \<lparr>tk_fiber = None, tk_cb = Some (User ()), tk_thread = 7\<rparr>, sc_tickle = tick, sc_active = True\<rparr>,
       (y_sched (sched_start ''s'' ()))\<lparr>s_active := 1\<rparr>)"
  using scan_takes_first [of "(y_sched (sched_start ''s'' ()))\<lparr>s_tasks := [\<lparr>tk_fiber = None, tk_cb = Some (User ()), tk_thread = 7\<rparr>]\<rparr>" 7 False]
  by (auto simp: sched_start_def valid_task_def eligible_def Cons_eq_append_conv)


section \<open>Two runs\<close>

lemmas sched_defs = sys_step_def worker_step_def dispatch_def dispatch_fiber_def dispatch_cb_def dispatch_idle_def
  snew_def sswapIn_def sresume_def set_yield_def save_ctx_def after_swap_def settle_def close_def requesting_def schedule_def scheduleNoLock_def
  push_task_def goto_def new_worker_def sget_def sset_def slog_def tickle_def lift_outcome_def
  hget_def hset_def halloc_def hfresh_def Let_def on_sfiber_def

lemma heap_schedule: "s_heap (schedule fc th s) = s_heap s"
  by (simp add: schedule_def scheduleNoLock_def push_task_def tickle_def slog_def Let_def)

lemma heap_requests [simp]: "s_heap (fold (do_request a) rs s) = s_heap s"
proof (induction rs arbitrary: s)
  case (Cons r rs)
  then show ?case by (cases r) (simp_all add: heap_schedule)
qed simp

lemma run_body_heap:
  assumes "run_body beh b s = (reqs, out, s')"
  shows "sget s' = sget s" "sget (fold (do_request a) reqs s') = sget s"
proof -
  have "s_heap s' = s_heap s" using assms by (cases b) (auto simp: slog_def split: prod.splits if_splits)
  then show "sget s' = sget s" "sget (fold (do_request a) reqs s') = sget s" by (simp_all add: sget_def fun_eq_iff)
qed

text \<open>
  One worker runs a callback up to the point where its fiber has been switched out; the other
  takes the fiber and switches to it; the first ends its turn; the second goes on, and schedules
  \<open>n\<close> things on the way.
\<close>

definition race :: "int \<Rightarrow> int \<Rightarrow> 'c \<Rightarrow> nat \<Rightarrow> ('c, 'u) event list" where
  "race t1 t2 c n =
     [Ev_thread t1, Ev_thread t2, Ev_started, Ev_schedule (Cb (Some c)) (- 1),
      Ev_step 0, Ev_step 0, Ev_step 0, Ev_step 0, Ev_step 0, Ev_step 0, Ev_step 0, Ev_step 0,
      Ev_step 1, Ev_step 1, Ev_step 1, Ev_step 1, Ev_step 0, Ev_step 0, Ev_step 0, Ev_step 1] @ replicate (Suc n) (Ev_step 1)"

lemma run_events_append:
  "run_events une beh (evs @ evs') y = rbind (run_events une beh evs y) (run_events une beh evs')"
  by (simp add: run_events_def rfold_append)

text \<open>The calls of \<open>schedule\<close> a worker has before it are so many steps.\<close>

lemma requests_run:
  assumes "i < length (y_workers y)" "wk_pc (y_workers y ! i) = requesting r a reqs out"
  shows "\<exists>y'. run_events une beh (replicate (length reqs) (Ev_step i)) y = Inr y' \<and> length (y_workers y') = length (y_workers y) \<and>
    wk_pc (y_workers y' ! i) = P_yield r a out \<and> s_heap (y_sched y') = s_heap (y_sched y)"
  using assms
proof (induction reqs arbitrary: y)
  case (Cons q qs)
  define y1 where "y1 = y\<lparr>y_sched := do_request a q (y_sched y), y_workers := (y_workers y)[i := goto (requesting r a qs out) (y_workers y ! i)]\<rparr>"
  have "sys_step une beh (Ev_step i) y = Inr y1" using Cons.prems by (simp add: sys_step_def worker_step_def y1_def)
  moreover have "s_heap (y_sched y1) = s_heap (y_sched y)" using heap_requests [of a "[q]"] by (simp add: y1_def)
  moreover have "i < length (y_workers y1)" "wk_pc (y_workers y1 ! i) = requesting r a qs out" using Cons.prems by (simp_all add: y1_def)
  from Cons.IH [OF this] obtain y' where "run_events une beh (replicate (length qs) (Ev_step i)) y1 = Inr y'"
    "length (y_workers y') = length (y_workers y1)" "wk_pc (y_workers y' ! i) = P_yield r a out" "s_heap (y_sched y') = s_heap (y_sched y1)"
    by blast
  ultimately show ?case by (intro exI [of _ y']) (simp add: run_events_def, simp add: y1_def)
qed (simp add: run_events_def)


lemma race_parts:
  "race t1 t2 c n = ([Ev_thread t1, Ev_thread t2, Ev_started, Ev_schedule (Cb (Some c)) (- 1)] @ replicate 8 (Ev_step 0) @
      replicate 4 (Ev_step 1) @ replicate 3 (Ev_step 0) @ [Ev_step 1]) @ replicate n (Ev_step 1) @ [Ev_step 1]"
  by (simp add: race_def numeral_eq_Suc flip: replicate_append_same)

text \<open>C31. A fiber that schedules itself and then yields to \<open>HOLD\<close> may be running on a second worker
  when the first one, back from \<open>swapIn\<close>, overwrites its state \<open>EXEC\<close> with \<open>HOLD\<close>: its next yield
  then fails its assertion and the process aborts.\<close>

theorem rescheduled_fiber_races:
  assumes "beh c u = ([Req_self (- 1)], Yields HOLD k, u)" "beh k u = (reqs, Yields st k', u')"
  shows "run_events une beh (race t1 t2 c (length reqs)) (sched_start name u) = Inl (Assertion ''cur->m_state == EXEC'')"
proof -
  let ?evs = "[Ev_thread t1, Ev_thread t2, Ev_started, Ev_schedule (Cb (Some c)) (- 1)] @ replicate 8 (Ev_step 0) @
      replicate 4 (Ev_step 1) @ replicate 3 (Ev_step 0) @ [Ev_step 1]"
  have "\<exists>y f. run_events une beh ?evs (sched_start name u) = Inr y \<and> length (y_workers y) = 2 \<and>
      wk_pc (y_workers y ! 1) = requesting Of_task 1 reqs (lift_outcome (Yields st k')) \<and> sget (y_sched y) 1 = Some f \<and> fb_state f = HOLD"
    by (simp add: run_events_def numeral_eq_Suc sched_start_def sched_defs scan.simps assms)
  then obtain y f where y: "run_events une beh ?evs (sched_start name u) = Inr y" "length (y_workers y) = 2"
      "wk_pc (y_workers y ! 1) = requesting Of_task 1 reqs (lift_outcome (Yields st k'))" "sget (y_sched y) 1 = Some f" "fb_state f = HOLD"
    by blast
  from requests_run [OF _ y(3), of une beh] obtain y' where y': "run_events une beh (replicate (length reqs) (Ev_step 1)) y = Inr y'"
    "length (y_workers y') = 2" "wk_pc (y_workers y' ! 1) = P_yield Of_task 1 (lift_outcome (Yields st k'))" "sget (y_sched y') 1 = Some f"
    using y(2,4) by (auto simp: sget_def)
  then have last: "run_events une beh [Ev_step 1] y' = Inl (Assertion ''cur->m_state == EXEC'')"
    using y(5) by (simp add: run_events_def sys_step_def worker_step_def set_yield_def lift_outcome_def check_def)
  show ?thesis unfolding race_parts run_events_append [of _ _ ?evs] y(1) rbind_simps
    unfolding run_events_append y'(1) rbind_simps by (rule last)
qed

definition demo_beh :: "(nat, unit) behaviour" where
  "demo_beh c u = (if c = 0 then ([Req_self (- 1)], Yields HOLD 1, u)
     else if c = 1 then ([], Yields HOLD 2, u) else if c = 5 then ([], Yields READY 2, u) else ([], Ends Returned, u))"

theorem rescheduled_fiber_races_witness:
  "run_events True demo_beh (race 11 12 0 0) (sched_start ''s'' ()) = Inl (Assertion ''cur->m_state == EXEC'')"
  using rescheduled_fiber_races [of demo_beh 0 "()" 1 "[]" HOLD 2 "()" True 11 12 "''s''"] by (simp add: demo_beh_def)

text \<open>A callback scheduled for one thread and yielding to \<open>READY\<close> is put back without its
  thread: the other worker goes on with it.\<close>

definition migration :: "int \<Rightarrow> int \<Rightarrow> 'c \<Rightarrow> ('c, 'u) event list" where
  "migration t1 t2 c = [Ev_thread t1, Ev_thread t2, Ev_started, Ev_schedule (Cb (Some c)) t1] @ replicate 10 (Ev_step 0) @
     replicate 4 (Ev_step 1)"

theorem pinned_task_migrates:
  assumes "beh c u = ([], Yields READY k, u)" "t1 \<noteq> - 1"
  shows "\<exists>y a. run_events une beh (migration t1 t2 c) (sched_start name u) = Inr y \<and>
    wk_tid (y_workers y ! 1) = t2 \<and> wk_pc (y_workers y ! 1) = P_run Of_task a (User k)"
  by (simp add: run_events_def migration_def numeral_eq_Suc sched_start_def sched_defs scan.simps assms)

theorem pinned_task_migrates_witness:
  "\<exists>y a. run_events True demo_beh (migration 11 12 5) (sched_start ''s'' ()) = Inr y \<and>
    wk_tid (y_workers y ! 1) = 12 \<and> wk_pc (y_workers y ! 1) = P_run Of_task a (User 2)"
  by (rule pinned_task_migrates) (simp_all add: demo_beh_def)

end
