(* ===== verification/SchedulerControl.thy ===== *)
theory SchedulerControl
  imports SchedulerInvariants
begin

text \<open>
  Making, starting, stopping and destroying a scheduler (the rest of scheduler.cpp), on the
  thread that does it.  The root fiber is the fiber of the calling thread that executes the
  loop when the scheduler was made with \<open>use_caller\<close>.
\<close>

section \<open>State\<close>

text \<open>
  The members of the scheduler beside those its workers share, and the variables of the calling
  thread: \<open>t_scheduler\<close>, \<open>t_scheduler_fiber\<close>, the thread's name,
  and whether the thread has its own fiber.
\<close>

record ('c, 'u) scheduler =
  c_sched :: "('c, 'u) sched"
  c_root :: "fiber_state option"
  c_threadCount :: u64
  c_threads :: "string list"
  c_threadIds :: "int list"
  c_rootThread :: int

text \<open>\<open>t_scheduler_fiber\<close> points to the root fiber or to the thread's own fiber.\<close>

datatype which_fiber = Root_fiber | Thread_fiber

record caller =
  cl_tid :: int
  cl_scheduler :: "addr option"
  cl_sched_fiber :: "which_fiber option"
  cl_name :: string
  cl_main_fiber :: bool

definition scheduler_GetThis :: "caller \<Rightarrow> addr option" where
  "scheduler_GetThis cl = cl_scheduler cl"

definition scheduler_GetMainFiber :: "caller \<Rightarrow> which_fiber option" where
  "scheduler_GetMainFiber cl = cl_sched_fiber cl"

definition scheduler_setThis :: "addr \<Rightarrow> caller \<Rightarrow> caller" where
  "scheduler_setThis self cl = cl\<lparr>cl_scheduler := Some self\<rparr>"

text \<open>The beginning of \<open>Scheduler::run\<close>: a thread other than the root thread switches from its
  own fiber.\<close>

definition run_enter :: "addr \<Rightarrow> int \<Rightarrow> caller \<Rightarrow> caller" where
  "run_enter self root_thread cl =
     (let cl1 = scheduler_setThis self cl
      in if cl_tid cl1 \<noteq> root_thread then cl1\<lparr>cl_sched_fiber := Some Thread_fiber, cl_main_fiber := True\<rparr> else cl1)"

section \<open>Constructor and destructor\<close>

text \<open>\<open>Scheduler::Scheduler\<close>: \<open>self\<close> is the address of the object, \<open>u\<close> the user's data.\<close>

definition scheduler_ctor ::
  "addr \<Rightarrow> u64 \<Rightarrow> bool \<Rightarrow> string \<Rightarrow> 'u \<Rightarrow> caller \<Rightarrow> fault + ('c, 'u) scheduler \<times> caller" where
  "scheduler_ctor self threads use_caller name u cl =
     check ''threads > 0'' (threads > 0)
       (let sched = y_sched (sched_start name u)
        in if use_caller then
             check ''GetThis() == nullptr'' (cl_scheduler cl = None)
               (Inr (\<lparr>c_sched = sched, c_root = Some INIT, c_threadCount = threads - 1, c_threads = [],
                      c_threadIds = [cl_tid cl], c_rootThread = cl_tid cl\<rparr>,
                     cl\<lparr>cl_scheduler := Some self, cl_sched_fiber := Some Root_fiber, cl_name := name, cl_main_fiber := True\<rparr>))
           else
             Inr (\<lparr>c_sched = sched, c_root = None, c_threadCount = threads, c_threads = [],
                    c_threadIds = [], c_rootThread = - 1\<rparr>, cl))"

definition scheduler_dtor :: "addr \<Rightarrow> ('c, 'u) scheduler \<Rightarrow> caller \<Rightarrow> fault + caller" where
  "scheduler_dtor self c cl =
     check ''m_stopping'' (s_stopping (c_sched c))
       (Inr (if cl_scheduler cl = Some self then cl\<lparr>cl_scheduler := None\<rparr> else cl))"

section \<open>start\<close>

text \<open>
  The worker threads are made while the mutex is held.  \<open>mk_thread i\<close> is the system id of the
  \<open>i\<close>-th thread, or the exception of its constructor.
\<close>

definition start_thread ::
  "(nat \<Rightarrow> fault + int) \<Rightarrow> nat \<Rightarrow> ('c, 'u) scheduler \<Rightarrow> fault + ('c, 'u) scheduler" where
  "start_thread mk_thread i c =
     rbind (mk_thread i) (\<lambda>tid.
       Inr (c\<lparr>c_threads := c_threads c @ [s_name (c_sched c) @ ''_'' @ show_nat i],
              c_threadIds := c_threadIds c @ [tid]\<rparr>))"

definition scheduler_begin ::
  "(nat \<Rightarrow> fault + int) \<Rightarrow> ('c, 'u) scheduler \<Rightarrow> fault + ('c, 'u) scheduler" where
  "scheduler_begin mk_thread c =
     (if \<not> s_stopping (c_sched c) then Inr c
      else
        (let c1 = c\<lparr>c_sched := (c_sched c)\<lparr>s_stopping := False\<rparr>\<rparr>
         in check ''m_threads.empty()'' (c_threads c1 = [])
              (rfold (start_thread mk_thread) [0..<unat (c_threadCount c1)] c1)))"

section \<open>stop\<close>

text \<open>
  \<open>m_rootFiber->call()\<close>: \<open>run_root\<close> is what \<open>Scheduler::run\<close> does on the calling thread.  A root
  fiber that has ended goes on after its last switch, into the failing assertion.  The address
  printed in the line of \<open>stop\<close> has no specified form and is left out.
\<close>

definition root_call ::
  "(('c, 'u) sched \<Rightarrow> fault + ('c, 'u) sched) \<Rightarrow> ('c, 'u) scheduler \<Rightarrow> fault + ('c, 'u) scheduler" where
  "root_call run_root c =
     (case c_root c of
        None \<Rightarrow> Inl Null_deref
      | Some st \<Rightarrow>
          if st = TERM' \<or> st = EXCEPT then Inl (Assertion ''never reach fiber_id='')
          else rbind (run_root (c_sched c)) (\<lambda>s. Inr (c\<lparr>c_sched := s, c_root := Some TERM'\<rparr>)))"

definition on_sched :: "(('c, 'u) sched \<Rightarrow> ('c, 'u) sched) \<Rightarrow> ('c, 'u) scheduler \<Rightarrow> ('c, 'u) scheduler" where
  "on_sched f c = c\<lparr>c_sched := f (c_sched c)\<rparr>"

text \<open>The second part of \<open>stop\<close>; the threads that are joined are part of the result.\<close>

definition stop_rest ::
  "(('c, 'u) sched \<Rightarrow> fault + ('c, 'u) sched) \<Rightarrow> addr \<Rightarrow> caller \<Rightarrow> ('c, 'u) scheduler
   \<Rightarrow> fault + string list \<times> ('c, 'u) scheduler" where
  "stop_rest run_root self cl c =
     check (if c_rootThread c \<noteq> - 1 then ''GetThis() == this'' else ''GetThis() != this'')
       (if c_rootThread c \<noteq> - 1 then cl_scheduler cl = Some self else cl_scheduler cl \<noteq> Some self)
       (let c1 = on_sched (\<lambda>s. s\<lparr>s_stopping := True\<rparr>) c;
            c2 = on_sched (tickle ^^ unat (c_threadCount c1)) c1;
            c3 = (if c_root c2 \<noteq> None then on_sched tickle c2 else c2)
        in rbind (if c_root c3 \<noteq> None \<and> \<not> stopping (c_sched c3) then root_call run_root c3 else Inr c3)
             (\<lambda>c4. Inr (c_threads c4, c4\<lparr>c_threads := []\<rparr>)))"

definition scheduler_stop ::
  "(('c, 'u) sched \<Rightarrow> fault + ('c, 'u) sched) \<Rightarrow> addr \<Rightarrow> caller \<Rightarrow> ('c, 'u) scheduler
   \<Rightarrow> fault + string list \<times> ('c, 'u) scheduler" where
  "scheduler_stop run_root self cl c =
     (let c1 = on_sched (\<lambda>s. s\<lparr>s_autoStop := True\<rparr>) c
      in if c_root c1 \<noteq> None \<and> c_threadCount c1 = 0 \<and> (c_root c1 = Some TERM' \<or> c_root c1 = Some INIT) then
           (let c2 = on_sched (\<lambda>s. (slog INFO '' stopped'' s)\<lparr>s_stopping := True\<rparr>) c1
            in if stopping (c_sched c2) then Inr ([], c2) else stop_rest run_root self cl c2)
         else stop_rest run_root self cl c1)"

section \<open>The loop on one thread\<close>

text \<open>\<open>Scheduler::run\<close> with no other worker: at most \<open>n\<close> steps; \<open>None\<close> when that is not enough.\<close>

fun run_alone ::
  "nat \<Rightarrow> bool \<Rightarrow> ('c, 'u) behaviour \<Rightarrow> 'c worker \<Rightarrow> ('c, 'u) sched \<Rightarrow> (fault + ('c, 'u) sched) option" where
  "run_alone n une beh w s =
     (if wk_pc w = P_done then Some (Inr s)
      else (case n of 0 \<Rightarrow> None
            | Suc m \<Rightarrow> (case worker_step une beh w s of
                Inl e \<Rightarrow> Some (Inl e) | Inr (w', s') \<Rightarrow> run_alone m une beh w' s')))"

declare run_alone.simps [simp del]

section \<open>Properties\<close>

text \<open>Every thread that runs the loop has a fiber to switch from: the root fiber on the thread
  whose scheduler was made with \<open>use_caller\<close>, its own fiber on any other.\<close>

lemma run_has_main_fiber:
  assumes "scheduler_ctor self threads use_caller name u cl = Inr (c, cl')"
  shows "use_caller \<Longrightarrow> cl_tid cl'' = cl_tid cl \<Longrightarrow> cl_sched_fiber cl'' = cl_sched_fiber cl' \<Longrightarrow>
      scheduler_GetMainFiber (run_enter self (c_rootThread c) cl'') = Some Root_fiber"
    and "cl_tid cl'' \<noteq> c_rootThread c \<Longrightarrow>
      scheduler_GetMainFiber (run_enter self (c_rootThread c) cl'') = Some Thread_fiber \<and>
      scheduler_GetThis (run_enter self (c_rootThread c) cl'') = Some self"
  using assms
  by (auto simp: scheduler_ctor_def run_enter_def scheduler_setThis_def scheduler_GetMainFiber_def scheduler_GetThis_def Let_def
      dest!: check_InrD split: if_splits)

lemma start_threads:
  "rfold (start_thread mk_thread) is c = Inr c' \<Longrightarrow>
   c_threads c' = c_threads c @ map (\<lambda>i. s_name (c_sched c) @ ''_'' @ show_nat i) is \<and> c_sched c' = c_sched c \<and>
   map Inr (c_threadIds c') = map Inr (c_threadIds c) @ map mk_thread is"
proof (induction "is" arbitrary: c)
  case (Cons i "is")
  then show ?case by (auto simp: start_thread_def)
qed simp

text \<open>A scheduler starts one thread for every worker, named after it with its index, and a second
  \<open>start\<close> without a \<open>stop\<close> in between does nothing.\<close>

theorem start_makes_workers:
  assumes "scheduler_begin mk_thread c = Inr c'" "s_stopping (c_sched c)"
  shows "c_threads c' = map (\<lambda>i. s_name (c_sched c) @ ''_'' @ show_nat i) [0..<unat (c_threadCount c)] \<and>
    map Inr (c_threadIds c') = map Inr (c_threadIds c) @ map mk_thread [0..<unat (c_threadCount c)] \<and>
    c_sched c' = (c_sched c)\<lparr>s_stopping := False\<rparr> \<and> scheduler_begin other c' = Inr c'"
proof -
  let ?c = "c\<lparr>c_sched := (c_sched c)\<lparr>s_stopping := False\<rparr>\<rparr>"
  have e: "c_threads c = []" and r: "rfold (start_thread mk_thread) [0..<unat (c_threadCount c)] ?c = Inr c'"
    using assms by (auto simp: scheduler_begin_def Let_def dest!: check_InrD)
  show ?thesis using start_threads [OF r] e by (simp add: scheduler_begin_def)
qed

definition demo_caller :: caller where
  "demo_caller = \<lparr>cl_tid = 7, cl_scheduler = None, cl_sched_fiber = None, cl_name = ''main'', cl_main_fiber = False\<rparr>"

theorem start_makes_workers_witness:
  "\<exists>c' :: (nat, unit) scheduler.
     scheduler_begin (\<lambda>i. Inr (100 + int i)) \<lparr>c_sched = y_sched (sched_start ''io'' ()), c_root = None, c_threadCount = 1,
       c_threads = [], c_threadIds = [], c_rootThread = - 1\<rparr> = Inr c' \<and> c_threads c' = [''io_0'']"
proof -
  let ?c = "\<lparr>c_sched = y_sched (sched_start ''io'' ()), c_root = None, c_threadCount = 1,
       c_threads = [], c_threadIds = [], c_rootThread = - 1\<rparr> :: (nat, unit) scheduler"
  obtain c' where c': "scheduler_begin (\<lambda>i. Inr (100 + int i)) ?c = Inr c'"
    by (simp add: scheduler_begin_def sched_start_def start_thread_def)
  have "s_stopping (c_sched ?c)" by (simp add: sched_start_def)
  from start_makes_workers [OF c' this] c' show ?thesis
    by (simp add: sched_start_def show_nat.simps digit_char_def char_of_def bit_0)
qed

text \<open>When everything has been stopped once, work scheduled afterwards and stopped again
  switches to the root fiber that has ended: the process aborts.\<close>

theorem stop_again_faults:
  assumes "c_root c = Some TERM'" "c_threadCount c = 0" "s_tasks (c_sched c) \<noteq> []"
    and "c_rootThread c \<noteq> - 1" "cl_scheduler cl = Some self"
  shows "scheduler_stop run_root self cl c = Inl (Assertion ''never reach fiber_id='')"
  using assms
  by (simp add: scheduler_stop_def stop_rest_def on_sched_def stopping_def root_call_def Let_def slog_def tickle_def)

section \<open>A scheduler on the calling thread\<close>

lemma run_alone_step:
  "wk_pc w \<noteq> P_done \<Longrightarrow> run_alone (Suc m) une beh w s =
     (case worker_step une beh w s of Inl e \<Rightarrow> Some (Inl e) | Inr (w', s') \<Rightarrow> run_alone m une beh w' s')"
  by (subst run_alone.simps) simp

lemma run_alone_done: "wk_pc w = P_done \<Longrightarrow> run_alone m une beh w s = Some (Inr s)"
  by (subst run_alone.simps) simp

definition cb_task :: "int \<Rightarrow> 'c \<Rightarrow> 'c task" where
  "cb_task thr c = \<lparr>tk_fiber = None, tk_cb = Some (User c), tk_thread = thr\<rparr>"

text \<open>Scheduling a list of callbacks before the loop runs.\<close>

definition schedule_cbs :: "(int \<times> 'c) list \<Rightarrow> ('c, 'u) scheduler \<Rightarrow> ('c, 'u) scheduler" where
  "schedule_cbs cs = fold (\<lambda>(thr, c). on_sched (schedule (Cb (Some c)) thr)) cs"

definition run_root :: "nat \<Rightarrow> bool \<Rightarrow> ('c, 'u) behaviour \<Rightarrow> int \<Rightarrow> ('c, 'u) sched \<Rightarrow> fault + ('c, 'u) sched" where
  "run_root n une beh tid s =
     (case run_alone n une beh (new_worker tid) s of None \<Rightarrow> Inl Indeterminate | Some r \<Rightarrow> r)"

text \<open>Scheduling the scheduler's own thread again after everything was stopped.\<close>

theorem stop_again_faults_witness:
  "scheduler_stop (\<lambda>s. Inr s) 0 (demo_caller\<lparr>cl_scheduler := Some 0\<rparr>)
     \<lparr>c_sched = schedule (Cb (Some (1::nat))) (- 1) (y_sched (sched_start ''s'' ())), c_root = Some TERM', c_threadCount = 0,
      c_threads = [], c_threadIds = [7], c_rootThread = 7\<rparr> = Inl (Assertion ''never reach fiber_id='')"
  by (rule stop_again_faults) (simp_all add: sched_start_def schedule_def scheduleNoLock_def push_task_def tickle_def slog_def)

end
