(* ===== verification/SchedulerFifo.thy ===== *)
theory SchedulerFifo
  imports SchedulerControl
begin

text \<open>
  What a scheduler on the calling thread computes, as a run queue: the next piece of code is
  taken from the front, and what it schedules, and then its own continuation if it yields to
  \<open>READY\<close>, is added at the back.  The loop of \<open>Scheduler::run\<close> with its tasks, fibers and
  contexts implements this machine.
\<close>

section \<open>The run queue\<close>

fun request_code :: "'c request \<Rightarrow> 'c list" where
  "request_code (Req (Cb (Some c)) thr) = [c]"
| "request_code _ = []"

fun resumed_code :: "'c outcome \<Rightarrow> 'c list" where
  "resumed_code (Yields READY k) = [k]"
| "resumed_code _ = []"

text \<open>Code that schedules callbacks only, for this thread or any, and gives the thread back by
  one of the two yields or its end.\<close>

fun local_request :: "int \<Rightarrow> 'c request \<Rightarrow> bool" where
  "local_request tid (Req (Cb c) thr) \<longleftrightarrow> thr = - 1 \<or> thr = tid"
| "local_request tid _ \<longleftrightarrow> False"

fun proper_outcome :: "'c outcome \<Rightarrow> bool" where
  "proper_outcome (Yields st k) \<longleftrightarrow> st = READY \<or> st = HOLD"
| "proper_outcome (Ends e) \<longleftrightarrow> True"

definition next_queue :: "'c list \<Rightarrow> 'c request list \<Rightarrow> 'c outcome \<Rightarrow> 'c list" where
  "next_queue q reqs out = q @ concat (map request_code reqs) @ resumed_code out"

text \<open>Run until the queue is empty: \<open>None\<close> when \<open>n\<close> runs are not enough, or the code is not of
  the kind above.\<close>

fun fifo_run :: "int \<Rightarrow> ('c, 'u) behaviour \<Rightarrow> nat \<Rightarrow> 'c list \<Rightarrow> 'u \<Rightarrow> 'u option" where
  "fifo_run tid beh n [] u = Some u"
| "fifo_run tid beh 0 (c # q) u = None"
| "fifo_run tid beh (Suc n) (c # q) u =
     (case beh c u of (reqs, out, u') \<Rightarrow>
        if (\<forall>r\<in>set reqs. local_request tid r) \<and> proper_outcome out
        then fifo_run tid beh n (next_queue q reqs out) u' else None)"

text \<open>The calls of \<open>schedule\<close> the code makes in these runs.\<close>

fun fifo_requests :: "('c, 'u) behaviour \<Rightarrow> nat \<Rightarrow> 'c list \<Rightarrow> 'u \<Rightarrow> nat" where
  "fifo_requests beh n [] u = 0"
| "fifo_requests beh 0 (c # q) u = 0"
| "fifo_requests beh (Suc n) (c # q) u =
     (case beh c u of (reqs, out, u') \<Rightarrow> length reqs + fifo_requests beh n (next_queue q reqs out) u')"

section \<open>The states of the loop\<close>

definition task_code :: "int \<Rightarrow> ('c, 'u) sched \<Rightarrow> 'c task \<Rightarrow> 'c \<Rightarrow> bool" where
  "task_code tid s t c \<longleftrightarrow> (tk_thread t = - 1 \<or> tk_thread t = tid) \<and>
     (case tk_fiber t of
        None \<Rightarrow> tk_cb t = Some (User c)
      | Some a \<Rightarrow> tk_cb t = None \<and> (\<exists>f. sget s a = Some f \<and> fb_state f = READY \<and> fb_ctx f = Ctx_user (Body MainFunc a) (User c)))"

definition task_fibers :: "'c task list \<Rightarrow> addr list" where
  "task_fibers ts = List.map_filter tk_fiber ts"

definition idle_unused :: "'c body fiber \<Rightarrow> bool" where
  "idle_unused f \<longleftrightarrow> fb_state f = INIT \<and> fb_ctx f = Ctx_entry MainFunc \<and> fb_cb f = Some (Idle False)"

definition cb_unused :: "'c body fiber \<Rightarrow> bool" where
  "cb_unused f \<longleftrightarrow> fb_state f = INIT \<and> fb_stack f \<and> fb_cb f = None"

definition queue_rel :: "int \<Rightarrow> ('c, 'u) sched \<Rightarrow> 'c list \<Rightarrow> bool" where
  "queue_rel tid s q \<longleftrightarrow> list_all2 (task_code tid s) (s_tasks s) q \<and> distinct (task_fibers (s_tasks s)) \<and>
     s_stopping s \<and> s_autoStop s"

definition idle_ok :: "'c worker \<Rightarrow> ('c, 'u) sched \<Rightarrow> bool" where
  "idle_ok w s \<longleftrightarrow> (\<exists>f. sget s (wk_idle w) = Some f \<and> idle_unused f)"

definition cb_ok :: "'c worker \<Rightarrow> ('c, 'u) sched \<Rightarrow> bool" where
  "cb_ok w s \<longleftrightarrow> (\<forall>b. wk_cb w = Some b \<longrightarrow> (\<exists>f. sget s b = Some f \<and> cb_unused f))"

definition fifo_rel :: "int \<Rightarrow> 'c list \<Rightarrow> 'u \<Rightarrow> 'c worker \<Rightarrow> ('c, 'u) sched \<Rightarrow> bool" where
  "fifo_rel tid q u w s \<longleftrightarrow> wk_tid w = tid \<and> wk_pc w = P_scan \<and> s_active s = 0 \<and> s_user s = u \<and>
     queue_rel tid s q \<and> idle_ok w s \<and> cb_ok w s"

text \<open>The worker is at some point of the run of the fiber at \<open>a\<close>.\<close>

definition busy_rel :: "int \<Rightarrow> 'c list \<Rightarrow> 'u \<Rightarrow> role \<Rightarrow> addr \<Rightarrow> 'c body fiber \<Rightarrow> 'c worker \<Rightarrow> ('c, 'u) sched \<Rightarrow> bool" where
  "busy_rel tid q u r a f w s \<longleftrightarrow> wk_tid w = tid \<and> s_active s = 1 \<and> s_user s = u \<and>
     queue_rel tid s q \<and> idle_ok w s \<and> sget s a = Some f \<and> a \<noteq> wk_idle w \<and> a \<notin> set (task_fibers (s_tasks s)) \<and>
     (r = Of_cb \<and> fb_stack f \<and> wk_cb w = Some a \<or> r = Of_task \<and> cb_ok w s \<and> wk_cb w \<noteq> Some a)"

section \<open>The heap\<close>

lemma sget_updates [simp]:
  "sget (s\<lparr>s_tasks := ts\<rparr>) a = sget s a" "sget (s\<lparr>s_active := n\<rparr>) a = sget s a"
  "sget (s\<lparr>s_idle := n\<rparr>) a = sget s a" "sget (s\<lparr>s_user := u\<rparr>) a = sget s a"
  "sget (slog l t s) a = sget s a" "sget (tickle s) a = sget s a"
  by (simp_all add: sget_def slog_def tickle_def)

lemma sget_sset [simp]: "sget s a = Some g \<Longrightarrow> sget (sset a f s) b = (if b = a then Some f else sget s b)"
  by (auto simp: sget_def sset_def hget_def hset_def split: option.splits if_splits)

lemma sset_fields [simp]:
  "s_tasks (sset a f s) = s_tasks s" "s_active (sset a f s) = s_active s" "s_user (sset a f s) = s_user s"
  "s_stopping (sset a f s) = s_stopping s" "s_autoStop (sset a f s) = s_autoStop s"
  by (simp_all add: sset_def)

lemma sset_sset [simp]: "sset a f (sset a g s) = sset a f s"
  by (simp add: sset_def hset_def)

lemma log_fields [simp]:
  "s_tasks (slog l t s) = s_tasks s" "s_active (slog l t s) = s_active s" "s_user (slog l t s) = s_user s"
  "s_stopping (slog l t s) = s_stopping s" "s_autoStop (slog l t s) = s_autoStop s"
  "s_tasks (tickle s) = s_tasks s" "s_active (tickle s) = s_active s" "s_user (tickle s) = s_user s"
  "s_stopping (tickle s) = s_stopping s" "s_autoStop (tickle s) = s_autoStop s"
  by (simp_all add: slog_def tickle_def)

lemma snew_effect:
  assumes "snew b s = (a, s')"
  shows "sget s a = None" "sget s' a = Some \<lparr>fb_id = 0, fb_stacksize = 0, fb_state = INIT, fb_ctx = Ctx_entry MainFunc, fb_stack = True, fb_cb = Some b\<rparr>"
    "c \<noteq> a \<Longrightarrow> sget s' c = sget s c" "s_tasks s' = s_tasks s" "s_active s' = s_active s" "s_user s' = s_user s"
    "s_stopping s' = s_stopping s" "s_autoStop s' = s_autoStop s"
  using assms by (auto simp: snew_def sget_def halloc_def hfresh_def hget_def nth_append)

lemma task_fibers_simps [simp]:
  "task_fibers [] = []" "task_fibers (t # ts) = (case tk_fiber t of None \<Rightarrow> task_fibers ts | Some a \<Rightarrow> a # task_fibers ts)"
  "task_fibers (ts @ us) = task_fibers ts @ task_fibers us"
  by (auto simp: task_fibers_def map_filter_simps map_filter_def split: option.splits)

lemma in_task_fibers: "a \<in> set (task_fibers ts) \<longleftrightarrow> (\<exists>t\<in>set ts. tk_fiber t = Some a)"
  by (induction ts) (auto split: option.splits)

text \<open>The queue depends only on the fibers of its tasks.\<close>

lemma task_code_cong:
  "task_code tid s t c \<Longrightarrow> (\<And>a. tk_fiber t = Some a \<Longrightarrow> sget s' a = sget s a) \<Longrightarrow> task_code tid s' t c"
  by (auto simp: task_code_def split: option.splits)

lemma queue_rel_cong:
  assumes "queue_rel tid s q" "s_tasks s' = s_tasks s" "s_stopping s' = s_stopping s" "s_autoStop s' = s_autoStop s"
    and "\<And>a. a \<in> set (task_fibers (s_tasks s)) \<Longrightarrow> sget s' a = sget s a"
  shows "queue_rel tid s' q"
proof -
  have "list_all2 (task_code tid s) (s_tasks s) q" using assms(1) by (simp add: queue_rel_def)
  then have "list_all2 (task_code tid s') (s_tasks s) q"
    by (rule list.rel_mono_strong) (rule task_code_cong, assumption, rule assms(5), auto simp: in_task_fibers)
  then show ?thesis using assms(1-4) by (simp add: queue_rel_def)
qed

lemma queue_rel_sset [simp]:
  "queue_rel tid s q \<Longrightarrow> sget s a = Some g \<Longrightarrow> a \<notin> set (task_fibers (s_tasks s)) \<Longrightarrow> queue_rel tid (sset a f s) q"
  by (rule queue_rel_cong) auto

lemma queue_fiber_ready:
  assumes "queue_rel tid s q" "a \<in> set (task_fibers (s_tasks s))"
  shows "\<exists>f. sget s a = Some f \<and> fb_state f = READY"
proof -
  obtain t where t: "t \<in> set (s_tasks s)" "tk_fiber t = Some a" using assms(2) by (auto simp: in_task_fibers)
  then obtain c where "task_code tid s t c"
    using assms(1) by (auto simp: queue_rel_def list_all2_conv_all_nth in_set_conv_nth)
  then show ?thesis using t(2) by (auto simp: task_code_def)
qed


section \<open>Scheduling\<close>

lemma schedule_Cb:
  "\<exists>log. schedule (Cb c) thr s = s\<lparr>s_tasks := s_tasks s @ (case c of None \<Rightarrow> [] | Some d \<Rightarrow> [cb_task thr d]), s_log := log\<rparr>"
proof (intro exI [of _ "if s_tasks s = [] then s_log s @ [(INFO, ''tickle'')] else s_log s"])
  show "schedule (Cb c) thr s = s\<lparr>s_tasks := s_tasks s @ (case c of None \<Rightarrow> [] | Some d \<Rightarrow> [cb_task thr d]),
     s_log := (if s_tasks s = [] then s_log s @ [(INFO, ''tickle'')] else s_log s)\<rparr>"
    by (cases c) (simp_all add: schedule_def scheduleNoLock_def push_task_def tickle_def slog_def cb_task_def Let_def)
qed

text \<open>What the requests of one run add to the queue.\<close>

definition added :: "int \<Rightarrow> ('c, 'u) sched \<Rightarrow> 'c list \<Rightarrow> ('c, 'u) sched \<Rightarrow> bool" where
  "added tid s cs s' \<longleftrightarrow> (\<exists>ts log. s' = s\<lparr>s_tasks := s_tasks s @ ts, s_log := log\<rparr> \<and>
     task_fibers ts = [] \<and> (\<forall>x :: ('c, 'u) sched. list_all2 (task_code tid x) ts cs))"

lemma added_refl: "added tid s [] s"
  unfolding added_def by (intro exI [of _ "[]"] exI [of _ "s_log s"]) simp

lemma added_trans: "added tid s cs s1 \<Longrightarrow> added tid s1 ds s2 \<Longrightarrow> added tid s (cs @ ds) s2"
  unfolding added_def
proof (elim exE conjE, goal_cases)
  case (1 ts us log log')
  then show ?case
    by (intro exI [of _ "ts @ us"] exI [of _ log']) (simp add: list_all2_appendI)
qed

lemma request_added: "local_request tid r \<Longrightarrow> added tid s (request_code r) (do_request a r s)"
proof (induction tid r rule: local_request.induct)
  case (1 tid c thr)
  obtain log where s: "schedule (Cb c) thr s = s\<lparr>s_tasks := s_tasks s @ (case c of None \<Rightarrow> [] | Some d \<Rightarrow> [cb_task thr d]), s_log := log\<rparr>"
    using schedule_Cb [of c thr s] by blast
  show ?case unfolding added_def do_request.simps s
    by (intro exI [of _ "case c of None \<Rightarrow> [] | Some d \<Rightarrow> [cb_task thr d]"] exI [of _ log])
      (use 1 in \<open>auto simp: task_code_def cb_task_def split: option.splits\<close>)
qed simp_all

lemma requests_added:
  "\<forall>r\<in>set reqs. local_request tid r \<Longrightarrow> added tid s (concat (map request_code reqs)) (fold (do_request a) reqs s)"
proof (induction reqs arbitrary: s)
  case Nil
  then show ?case by (simp add: added_refl)
next
  case (Cons r reqs)
  have 1: "added tid s (request_code r) (do_request a r s)" using Cons.prems by (intro request_added) simp
  have 2: "added tid (do_request a r s) (concat (map request_code reqs)) (fold (do_request a) reqs (do_request a r s))"
    using Cons.prems by (intro Cons.IH) simp
  show ?case using added_trans [OF 1 2] by simp
qed

lemma added_queue:
  assumes "added tid s cs s'" "queue_rel tid s q"
  shows "queue_rel tid s' (q @ cs) \<and> task_fibers (s_tasks s') = task_fibers (s_tasks s) \<and> s_heap s' = s_heap s \<and>
    s_active s' = s_active s \<and> s_user s' = s_user s"
proof -
  obtain ts log where s': "s' = s\<lparr>s_tasks := s_tasks s @ ts, s_log := log\<rparr>" "task_fibers ts = []"
    "list_all2 (task_code tid s') ts cs" using assms(1) unfolding added_def by blast
  have "task_code tid s' = task_code tid s"
    by (intro ext) (simp add: s'(1) task_code_def sget_def split: option.split)
  then show ?thesis using assms(2) s' by (simp add: queue_rel_def list_all2_appendI)
qed

section \<open>One turn of the loop\<close>

lemma scan_head:
  assumes "s_tasks s = t # ts" "task_code tid s t c"
  shows "\<exists>tick. scan une tid 0 False s = Inr (\<lparr>sc_ft = t, sc_tickle = tick, sc_active = True\<rparr>, s\<lparr>s_tasks := ts, s_active := s_active s + 1\<rparr>)"
  using assms by (auto simp: scan.simps [of une tid 0] task_code_def Let_def split: option.splits)

lemma enter_alone:
  "sswapIn r a s = Inr (pc, s') \<Longrightarrow> run_alone (Suc m) une beh (goto (P_enter r a) w) s = run_alone m une beh (goto pc w) s'"
  by (simp add: run_alone_step worker_step_def) (simp add: goto_def)

text \<open>Three steps take the first task and switch to its fiber.\<close>

lemma turn_begins:
  assumes "fifo_rel tid (c # q) u w s"
  shows "\<exists>r a f w' s'. run_alone (3 + m) une beh w s = run_alone m une beh w' s' \<and>
    busy_rel tid q u r a f w' s' \<and> fb_state f = EXEC \<and> wk_pc w' = P_run r a (User c)"
proof -
  have w: "wk_tid w = tid" "wk_pc w = P_scan" "s_active s = 0" "s_user s = u" "idle_ok w s" "cb_ok w s"
    and q: "queue_rel tid s (c # q)" using assms by (auto simp: fifo_rel_def)
  obtain t ts where t: "s_tasks s = t # ts" "task_code tid s t c" "list_all2 (task_code tid s) ts q"
    using q by (auto simp: queue_rel_def list_all2_Cons2)
  obtain tick where sc: "scan une tid 0 False s = Inr (\<lparr>sc_ft = t, sc_tickle = tick, sc_active = True\<rparr>, s\<lparr>s_tasks := ts, s_active := 1\<rparr>)"
    using scan_head [OF t(1,2)] w(3) by auto
  define s1 where "s1 = (if tick then tickle (s\<lparr>s_tasks := ts, s_active := 1\<rparr>) else s\<lparr>s_tasks := ts, s_active := 1\<rparr>)"
  have s1: "sget s1 = sget s" "s_tasks s1 = ts" "s_active s1 = 1" "s_user s1 = u" "s_stopping s1" "s_autoStop s1"
    using q w(4) by (auto simp: s1_def queue_rel_def)
  have tc: "task_code tid s1 = task_code tid s" by (intro ext) (simp add: task_code_def s1(1) split: option.split)
  have q1: "queue_rel tid s1 q" "\<forall>a. tk_fiber t = Some a \<longrightarrow> a \<notin> set (task_fibers ts)"
    using q t(1,3) s1 by (auto simp: queue_rel_def tc split: option.splits)
  have i1: "idle_ok w s1" "cb_ok w s1" using w(5,6) by (simp_all add: idle_ok_def cb_ok_def s1(1))
  have "run_alone (3 + m) une beh w s =
      (case dispatch t True (goto (P_dispatch t True) w) s1 of Inl e \<Rightarrow> Some (Inl e) | Inr (w', s') \<Rightarrow> run_alone (Suc m) une beh w' s')"
    using sc w(1,2) by (simp add: numeral_eq_Suc run_alone_step worker_step_def goto_def s1_def)
  then have run: "run_alone (3 + m) une beh w s = run_alone m une beh (goto (P_run r a (User c)) w') s'"
    if "dispatch t True (goto (P_dispatch t True) w) s1 = Inr (goto (P_enter r a) w', s2)" "sswapIn r a s2 = Inr (P_run r a (User c), s')"
    for r a w' s2 s'
    using that(1) enter_alone [OF that(2)] by simp
  show ?thesis
  proof (cases "tk_fiber t")
    case (Some a)
    then obtain f where f: "sget s a = Some f" "fb_state f = READY" "fb_ctx f = Ctx_user (Body MainFunc a) (User c)"
      using t(2) by (auto simp: task_code_def)
    let ?f = "f\<lparr>fb_state := EXEC\<rparr>" and ?s = "sset a (f\<lparr>fb_state := EXEC\<rparr>) s1" and ?w = "goto (P_run Of_task a (User c)) w"
    have "run_alone (3 + m) une beh w s = run_alone m une beh ?w ?s"
      by (rule run [where ?s2.0 = s1])
        (use f Some in \<open>simp_all add: dispatch_def dispatch_fiber_def sswapIn_def sresume_def s1(1) goto_def Let_def\<close>)
    moreover have "busy_rel tid q u Of_task a ?f ?w ?s"
      using w(1) s1 f i1 q1 Some unfolding busy_rel_def idle_ok_def cb_ok_def
      by (auto simp: idle_unused_def cb_unused_def goto_def t)
    ultimately show ?thesis by (intro exI [of _ Of_task] exI [of _ a] exI [of _ ?f] exI [of _ ?w] exI [of _ ?s]) (simp add: goto_def)
  next
    case None
    then have cb: "tk_cb t = Some (User c)" using t(2) by (simp add: task_code_def)
    let ?f = "\<lambda>g :: 'a body fiber. g\<lparr>fb_cb := Some (User c), fb_ctx := Ctx_entry MainFunc, fb_state := EXEC\<rparr>"
    have notin: "a \<notin> set (task_fibers ts)" if "sget s1 a = None \<or> (\<exists>f. sget s1 a = Some f \<and> fb_state f \<noteq> READY)" for a
      using queue_fiber_ready [OF q1(1), of a] that by (auto simp: s1)
    show ?thesis
    proof (cases "wk_cb w")
      case (Some a)
      then obtain g where g: "sget s1 a = Some g" "cb_unused g" using i1(2) by (auto simp: cb_ok_def)
      let ?s = "sset a (?f g) s1" and ?w = "goto (P_run Of_cb a (User c)) (w\<lparr>wk_cb := Some a\<rparr>)"
      have "run_alone (3 + m) une beh w s = run_alone m une beh ?w ?s"
        by (rule run [where ?s2.0 = "sset a (g\<lparr>fb_cb := Some (User c), fb_ctx := Ctx_entry MainFunc, fb_state := INIT\<rparr>) s1"])
          (use g Some None cb in \<open>simp_all add: dispatch_def dispatch_cb_def sswapIn_def sreset_def sresume_def cb_unused_def
            may_end_def goto_def Let_def\<close>)
      moreover have "a \<notin> set (task_fibers ts)" using notin g by (auto simp: cb_unused_def)
      then have "busy_rel tid q u Of_cb a (?f g) ?w ?s"
        using w(1) s1 g i1 q1(1) Some unfolding busy_rel_def idle_ok_def
        by (auto simp: idle_unused_def cb_unused_def goto_def)
      ultimately show ?thesis
        by (intro exI [of _ Of_cb] exI [of _ a] exI [of _ "?f g"] exI [of _ ?w] exI [of _ ?s]) (simp add: goto_def)
    next
      case n: None
      obtain a s2 where new: "snew (User c) s1 = (a, s2)" by force
      note s2 = snew_effect [OF new]
      let ?g = "\<lparr>fb_id = 0, fb_stacksize = 0, fb_state = EXEC, fb_ctx = Ctx_entry MainFunc, fb_stack = True, fb_cb = Some (User c)\<rparr>"
      let ?s = "sset a ?g s2" and ?w = "goto (P_run Of_cb a (User c)) (w\<lparr>wk_cb := Some a\<rparr>)"
      have "run_alone (3 + m) une beh w s = run_alone m une beh ?w ?s"
        by (rule run [where ?s2.0 = s2])
          (use n None cb s2(2) in \<open>simp_all add: dispatch_def dispatch_cb_def sswapIn_def sresume_def new goto_def Let_def\<close>)
      moreover have a: "a \<notin> set (task_fibers ts)" using notin s2(1) by simp
      have q2: "queue_rel tid s2 q"
      proof (rule queue_rel_cong [OF q1(1)])
        show "sget s2 b = sget s1 b" if "b \<in> set (task_fibers (s_tasks s1))" for b
          using that a s1(2) by (intro s2(3)) auto
      qed (use s2 s1 in simp_all)
      have "a \<noteq> wk_idle w" using i1(1) s2(1) by (auto simp: idle_ok_def)
      then have "busy_rel tid q u Of_cb a ?g ?w ?s"
        using w(1) s1 s2 i1 a q2 unfolding busy_rel_def idle_ok_def by (auto simp: goto_def)
      ultimately show ?thesis
        by (intro exI [of _ Of_cb] exI [of _ a] exI [of _ ?g] exI [of _ ?w] exI [of _ ?s]) (simp add: goto_def)
    qed
  qed
qed

text \<open>One step starts the code, and one for each call of \<open>schedule\<close> goes on with it.\<close>

lemma goto_fields [simp]:
  "wk_tid (goto pc w) = wk_tid w" "wk_idle (goto pc w) = wk_idle w" "wk_cb (goto pc w) = wk_cb w" "wk_pc (goto pc w) = pc"
  "goto pc (goto pc' w) = goto pc w"
  by (simp_all add: goto_def)

lemma ok_goto [simp]:
  "idle_ok (goto pc w) s = idle_ok w s" "cb_ok (goto pc w) s = cb_ok w s" "busy_rel tid q u r a f (goto pc w) s = busy_rel tid q u r a f w s"
  by (simp_all add: idle_ok_def cb_ok_def busy_rel_def)

lemma requests_alone:
  "run_alone (length reqs + m) une beh (goto (requesting r a reqs out) w) s =
     run_alone m une beh (goto (P_yield r a out) w) (fold (do_request a) reqs s)"
  by (induction reqs arbitrary: s) (simp_all add: run_alone_step worker_step_def)

lemma turn_runs:
  assumes "busy_rel tid q u r a f w s" "wk_pc w = P_run r a (User c)" "beh c u = (reqs, out, u')"
    and "\<forall>x\<in>set reqs. local_request tid x"
  shows "\<exists>s'. run_alone (Suc (length reqs + m)) une beh w s = run_alone m une beh (goto (P_yield r a (lift_outcome out)) w) s' \<and>
    busy_rel tid (q @ concat (map request_code reqs)) u' r a f w s'"
proof -
  let ?t = "s\<lparr>s_user := u'\<rparr>"
  let ?s = "fold (do_request a) reqs ?t"
  have b: "s_user s = u" "queue_rel tid s q" using assms(1) by (simp_all add: busy_rel_def)
  have "queue_rel tid ?t q" by (rule queue_rel_cong [OF b(2)]) simp_all
  from added_queue [OF requests_added [OF assms(4)] this] have eff: "queue_rel tid ?s (q @ concat (map request_code reqs))"
    "task_fibers (s_tasks ?s) = task_fibers (s_tasks s)" "s_heap ?s = s_heap s" "s_active ?s = s_active s" "s_user ?s = u'"
    by auto
  have "sget ?s = sget s" by (intro ext) (simp add: sget_def)
  then have "busy_rel tid (q @ concat (map request_code reqs)) u' r a f w ?s"
    using assms(1) eff by (simp add: busy_rel_def idle_ok_def cb_ok_def)
  moreover have "run_alone (Suc (length reqs + m)) une beh w s = run_alone m une beh (goto (P_yield r a (lift_outcome out)) w) ?s"
    using assms(2,3) b(1) requests_alone by (simp add: run_alone_step worker_step_def)
  ultimately show ?thesis by blast
qed

text \<open>Two steps suspend or end the fiber, and two or three put the loop back to its start.\<close>

definition after_outcome :: "addr \<Rightarrow> 'c outcome \<Rightarrow> 'c body fiber \<Rightarrow> 'c body fiber" where
  "after_outcome a out f = after_run a (lift_outcome out) f"

lemma busy_sset:
  assumes "busy_rel tid q u r a f w s" "fb_stack g = fb_stack f"
  shows "busy_rel tid q u r a g w (sset a g s)"
  using assms unfolding busy_rel_def idle_ok_def cb_ok_def by auto

lemma turn_suspends:
  assumes "busy_rel tid q u r a f w s" "fb_state f = EXEC"
  shows "run_alone (Suc (Suc m)) une beh (goto (P_yield r a (lift_outcome out)) w) s =
      run_alone m une beh (goto (P_after r a) w) (sset a (after_outcome a out f) s) \<and>
    busy_rel tid q u r a (after_outcome a out f) w (sset a (after_outcome a out f) s)"
proof -
  have a: "sget s a = Some f" using assms(1) by (simp add: busy_rel_def)
  have "fb_stack (after_outcome a out f) = fb_stack f"
    by (cases "(a, lift_outcome out, f)" rule: after_run.cases) (simp_all add: after_outcome_def)
  moreover have "run_alone (Suc (Suc m)) une beh (goto (P_yield r a (lift_outcome out)) w) s =
      run_alone m une beh (goto (P_after r a) w) (sset a (after_outcome a out f) s)"
    using a assms(2)
    by (cases "(a, lift_outcome out, f)" rule: after_run.cases)
      (simp_all add: after_outcome_def run_alone_step worker_step_def set_yield_def save_ctx_def)
  ultimately show ?thesis using busy_sset [OF assms(1)] by simp
qed

lemma schedule_Fib:
  "\<exists>log. schedule (Fib (Some a)) thr s = s\<lparr>s_tasks := s_tasks s @ [\<lparr>tk_fiber = Some a, tk_cb = None, tk_thread = thr\<rparr>], s_log := log\<rparr>"
  by (intro exI [of _ "if s_tasks s = [] then s_log s @ [(INFO, ''tickle'')] else s_log s"])
    (simp add: schedule_def scheduleNoLock_def push_task_def tickle_def slog_def Let_def)

lemma queue_push_fiber:
  assumes "queue_rel tid s q" "sget s a = Some f" "fb_state f = READY" "fb_ctx f = Ctx_user (Body MainFunc a) (User k)"
    and "a \<notin> set (task_fibers (s_tasks s))"
  shows "queue_rel tid (schedule (Fib (Some a)) (- 1) s) (q @ [k]) \<and>
    sget (schedule (Fib (Some a)) (- 1) s) = sget s \<and> s_active (schedule (Fib (Some a)) (- 1) s) = s_active s \<and>
    s_user (schedule (Fib (Some a)) (- 1) s) = s_user s"
proof -
  obtain log where s': "schedule (Fib (Some a)) (- 1) s =
      s\<lparr>s_tasks := s_tasks s @ [\<lparr>tk_fiber = Some a, tk_cb = None, tk_thread = - 1\<rparr>], s_log := log\<rparr>" (is "_ = ?s'")
    using schedule_Fib by blast
  have g: "sget ?s' = sget s" by (intro ext) (simp add: sget_def)
  then have "task_code tid ?s' = task_code tid s" by (intro ext) (simp add: task_code_def split: option.split)
  then show ?thesis unfolding s' using assms g
    by (auto simp: queue_rel_def task_code_def intro!: list_all2_appendI)
qed

lemma run_alone_more: "run_alone m une beh w s = Some res \<Longrightarrow> run_alone (Suc m) une beh w s = Some res"
proof (induction m arbitrary: w s)
  case 0
  then show ?case by (auto simp: run_alone.simps [of 0] run_alone_done split: if_splits)
next
  case (Suc m)
  then show ?case
    by (cases "wk_pc w = P_done") (auto simp: run_alone_done run_alone_step split: sum.splits prod.splits)
qed

text \<open>Whatever the loop computes in \<open>m\<close> steps from one state it computes in \<open>n\<close> from the other.\<close>

definition leads_to ::
  "nat \<Rightarrow> nat \<Rightarrow> bool \<Rightarrow> ('c, 'u) behaviour \<Rightarrow> 'c worker \<times> ('c, 'u) sched \<Rightarrow> 'c worker \<times> ('c, 'u) sched \<Rightarrow> bool" where
  "leads_to n m une beh p p' \<longleftrightarrow> (\<forall>res. run_alone m une beh (fst p') (snd p') = Some res \<longrightarrow> run_alone n une beh (fst p) (snd p) = Some res)"

lemma settle_close:
  assumes "settle r a (goto (P_settle r a) w) s = Inr (goto (P_close r a cl) w, s)" "close r a cl (goto (P_close r a cl) w) s = Inr (w', s')"
  shows "leads_to (Suc (Suc m)) m une beh (goto (P_settle r a) w, s) (w', s')"
  using assms by (simp add: leads_to_def run_alone_step worker_step_def)

lemma settle_scan:
  assumes "settle r a (goto (P_settle r a) w) s = Inr (goto P_scan w, s)"
  shows "leads_to (Suc (Suc m)) m une beh (goto (P_settle r a) w, s) (goto P_scan w, s)"
  using assms run_alone_more [of m une beh "goto P_scan w" s]
  by (simp add: leads_to_def run_alone_step [of "goto (P_settle r a) w"] worker_step_def)

lemma turn_ends:
  assumes "busy_rel tid q u r a (after_outcome a out f) w s" "proper_outcome out"
  shows "\<exists>w' s'. leads_to (Suc (Suc (Suc m))) m une beh (goto (P_after r a) w, s) (w', s') \<and>
    fifo_rel tid (q @ resumed_code out) u w' s'"
proof -
  let ?g = "after_outcome a out f" and ?s = "s\<lparr>s_active := 0\<rparr>"
  have b: "wk_tid w = tid" "s_active s = 1" "s_user s = u" "queue_rel tid s q" "idle_ok w s" "sget s a = Some ?g"
    "a \<noteq> wk_idle w" "a \<notin> set (task_fibers (s_tasks s))"
    and r: "r = Of_cb \<and> fb_stack ?g \<and> wk_cb w = Some a \<or> r = Of_task \<and> cb_ok w s \<and> wk_cb w \<noteq> Some a"
    using assms(1) by (simp_all add: busy_rel_def)
  have q: "queue_rel tid ?s q" by (rule queue_rel_cong [OF b(4)]) simp_all
  have g1: "sget ?s a = Some ?g" using b(6) by simp
  have "after_swap r s = ?s" using r b(2) by (auto simp: after_swap_def)
  then have run: "leads_to (Suc (Suc (Suc m))) m une beh (goto (P_after r a) w, s) p" 
    if "leads_to (Suc (Suc m)) m une beh (goto (P_settle r a) w, ?s) p" for p
    using that by (simp add: leads_to_def run_alone_step [of "goto (P_after r a) w"] worker_step_def)
  have "\<exists>w' s'. leads_to (Suc (Suc m)) m une beh (goto (P_settle r a) w, ?s) (w', s') \<and> fifo_rel tid (q @ resumed_code out) u w' s'"
  proof (cases out)
    case (Yields st k)
    let ?w = "goto P_scan (if r = Of_cb then w\<lparr>wk_cb := None\<rparr> else w)"
    show ?thesis
    proof (cases "st = READY")
      case True
      let ?s1 = "schedule (Fib (Some a)) (- 1) ?s"
      have g: "fb_state ?g = READY" "fb_ctx ?g = Ctx_user (Body MainFunc a) (User k)"
        using Yields True by (simp_all add: after_outcome_def lift_outcome_def)
      have s1: "queue_rel tid ?s1 (q @ [k])" "\<And>b. sget ?s1 b = sget s b" "s_active ?s1 = 0" "s_user ?s1 = u"
        using queue_push_fiber [OF q, of a ?g k] b g by simp_all
      have "leads_to (Suc (Suc m)) m une beh (goto (P_settle r a) w, ?s) (?w, ?s1)"
        by (rule settle_close [where cl = Cl_schedule]) (use r g1 g(1) in \<open>auto simp: settle_def close_def Let_def goto_def\<close>)
      moreover have "fifo_rel tid (q @ resumed_code out) u ?w ?s1"
        using s1 b(1,5) r Yields True by (auto simp: fifo_rel_def idle_ok_def cb_ok_def goto_def)
      ultimately show ?thesis by blast
    next
      case False
      let ?h = "?g\<lparr>fb_state := HOLD\<rparr>"
      have g: "fb_state ?g = HOLD" using Yields False assms(2) by (simp add: after_outcome_def lift_outcome_def)
      have "leads_to (Suc (Suc m)) m une beh (goto (P_settle r a) w, ?s) (?w, sset a ?h ?s)"
        by (rule settle_close [where cl = Cl_hold]) (use r g1 g in \<open>auto simp: settle_def close_def Let_def goto_def\<close>)
      moreover have "resumed_code out = []" using Yields False assms(2) by simp
      then have "fifo_rel tid (q @ resumed_code out) u ?w (sset a ?h ?s)"
        using q b r by (auto simp: fifo_rel_def idle_ok_def cb_ok_def goto_def)
      ultimately show ?thesis by blast
    qed
  next
    case (Ends e)
    have g: "may_end (fb_state ?g)" "fb_state ?g = TERM' \<or> fb_state ?g = EXCEPT"
      using Ends by (cases e; simp add: after_outcome_def lift_outcome_def may_end_def)+
    have out: "resumed_code out = []" using Ends by simp
    show ?thesis
    proof (cases "r = Of_cb")
      case True
      let ?h = "?g\<lparr>fb_cb := None, fb_ctx := Ctx_entry MainFunc, fb_state := INIT\<rparr>"
      have "leads_to (Suc (Suc m)) m une beh (goto (P_settle r a) w, ?s) (goto P_scan w, sset a ?h ?s)"
        by (rule settle_close [where cl = Cl_reset])
          (use r g1 g True in \<open>auto simp: settle_def close_def sreset_def Let_def goto_def\<close>)
      moreover have "fifo_rel tid (q @ resumed_code out) u (goto P_scan w) (sset a ?h ?s)"
        using q b r True out by (auto simp: fifo_rel_def idle_ok_def cb_ok_def cb_unused_def)
      ultimately show ?thesis by blast
    next
      case False
      have "leads_to (Suc (Suc m)) m une beh (goto (P_settle r a) w, ?s) (goto P_scan w, ?s)"
        by (rule settle_scan) (use r g1 g False in \<open>auto simp: settle_def Let_def goto_def\<close>)
      moreover have "fifo_rel tid (q @ resumed_code out) u (goto P_scan w) ?s"
        using q b r False out by (auto simp: fifo_rel_def idle_ok_def cb_ok_def)
      ultimately show ?thesis by blast
    qed
  qed
  then show ?thesis using run by blast
qed

text \<open>A turn of the loop is a run of the first code of the queue.\<close>

lemma turn:
  assumes "fifo_rel tid (c # q) u w s" "beh c u = (reqs, out, u')"
    and "\<forall>x\<in>set reqs. local_request tid x" "proper_outcome out"
  shows "\<exists>w' s'. leads_to (9 + length reqs + m) m une beh (w, s) (w', s') \<and> fifo_rel tid (next_queue q reqs out) u' w' s'"
proof -
  let ?m2 = "Suc (Suc (Suc (Suc (Suc m))))"
  obtain r a f w1 s1 where 1: "run_alone (3 + Suc (length reqs + ?m2)) une beh w s = run_alone (Suc (length reqs + ?m2)) une beh w1 s1"
    "busy_rel tid q u r a f w1 s1" "fb_state f = EXEC" "wk_pc w1 = P_run r a (User c)"
    using turn_begins [OF assms(1)] by blast
  obtain s2 where 2: "run_alone (Suc (length reqs + ?m2)) une beh w1 s1 = run_alone ?m2 une beh (goto (P_yield r a (lift_outcome out)) w1) s2"
    "busy_rel tid (q @ concat (map request_code reqs)) u' r a f w1 s2"
    using turn_runs [where beh = beh and c = c and u = u, OF 1(2,4) assms(2,3)] by blast
  let ?s3 = "sset a (after_outcome a out f) s2"
  have 3: "run_alone ?m2 une beh (goto (P_yield r a (lift_outcome out)) w1) s2 = run_alone (Suc (Suc (Suc m))) une beh (goto (P_after r a) w1) ?s3"
    "busy_rel tid (q @ concat (map request_code reqs)) u' r a (after_outcome a out f) w1 ?s3"
    using turn_suspends [OF 2(2) 1(3), of "Suc (Suc (Suc m))"] by blast+
  obtain w' s' where e: "leads_to (Suc (Suc (Suc m))) m une beh (goto (P_after r a) w1, ?s3) (w', s')"
    "fifo_rel tid ((q @ concat (map request_code reqs)) @ resumed_code out) u' w' s'"
    using turn_ends [OF 3(2) assms(4)] by blast
  have n: "9 + length reqs + m = 3 + Suc (length reqs + ?m2)" by simp
  have "leads_to (9 + length reqs + m) m une beh (w, s) (w', s')"
    using e(1) unfolding leads_to_def fst_conv snd_conv n 1(1) 2(1) 3(1) .
  then show ?thesis using e(2) by (intro exI [of _ w'] exI [of _ s']) (simp add: next_queue_def)
qed

text \<open>With the queue empty and stopping asked for, the idle fiber ends and the loop with it.\<close>

definition quiet :: "'u \<Rightarrow> ('c, 'u) sched \<Rightarrow> bool" where
  "quiet u s \<longleftrightarrow> s_tasks s = [] \<and> s_user s = u \<and> stopping s"

lemma loop_ends:
  assumes "fifo_rel tid [] u w s"
  shows "\<exists>s'. run_alone (10 + m) une beh w s = Some (Inr s') \<and> quiet u s'"
proof -
  obtain f where f: "sget s (wk_idle w) = Some f" "fb_state f = INIT" "fb_ctx f = Ctx_entry MainFunc" "fb_cb f = Some (Idle False)"
    using assms by (auto simp: fifo_rel_def idle_ok_def idle_unused_def)
  have w: "wk_tid w = tid" "wk_pc w = P_scan" "s_tasks s = []" "s_active s = 0" "s_stopping s" "s_autoStop s" "s_user s = u"
    using assms by (auto simp: fifo_rel_def queue_rel_def)
  show ?thesis
    using w f
    by (simp add: numeral_eq_Suc run_alone_step run_alone_done worker_step_def scan.simps [of une tid 0] dispatch_def dispatch_idle_def
        sswapIn_def sresume_def set_yield_def save_ctx_def after_swap_def settle_def empty_task_def stopping_def quiet_def Let_def)
qed

lemma fifo_runs:
  assumes "fifo_run tid beh k q u = Some u'" "fifo_rel tid q u w s"
  shows "\<exists>s'. run_alone (9 * k + fifo_requests beh k q u + 10 + m) une beh w s = Some (Inr s') \<and> quiet u' s'"
  using assms
proof (induction tid beh k q u arbitrary: w s rule: fifo_run.induct)
  case (1 tid beh n u)
  obtain s' where "run_alone (10 + (9 * n + m)) une beh w s = Some (Inr s')" "quiet u s'"
    using loop_ends [OF 1(2)] by blast
  then show ?case using 1(1) by (auto simp: algebra_simps)
next
  case (2 tid beh c q u)
  then show ?case by simp
next
  case (3 tid beh n c q u)
  obtain reqs out v where b: "beh c u = (reqs, out, v)" by (cases "beh c u")
  with 3(2) have l: "\<forall>x\<in>set reqs. local_request tid x" "proper_outcome out"
    and r: "fifo_run tid beh n (next_queue q reqs out) v = Some u'" by (auto split: if_splits)
  let ?n = "9 * n + fifo_requests beh n (next_queue q reqs out) v + 10 + m"
  obtain w1 s1 where 1: "leads_to (9 + length reqs + ?n) ?n une beh (w, s) (w1, s1)" "fifo_rel tid (next_queue q reqs out) v w1 s1"
    using turn [where beh = beh and c = c and u = u, OF 3(3) b l] by blast
  have "\<exists>s'. run_alone ?n une beh w1 s1 = Some (Inr s') \<and> quiet u' s'"
    by (rule 3(1) [OF b [symmetric] refl _ r 1(2)]) (use l in simp)
  then obtain s' where s': "run_alone ?n une beh w1 s1 = Some (Inr s')" "quiet u' s'" by blast
  then have "run_alone (9 + length reqs + ?n) une beh w s = Some (Inr s')" using 1(1) by (simp add: leads_to_def)
  moreover have "9 * Suc n + fifo_requests beh (Suc n) (c # q) u + 10 + m = 9 + length reqs + ?n" by (simp add: b)
  ultimately show ?case using s'(2) by (intro exI [of _ s']) (simp only:)
qed

section \<open>A scheduler on the calling thread\<close>

lemma loop_begins:
  assumes "queue_rel tid s q" "s_active s = 0" "s_user s = u"
  shows "\<exists>w' s'. run_alone (Suc m) une beh (new_worker tid) s = run_alone m une beh w' s' \<and> fifo_rel tid q u w' s'"
proof -
  obtain a s1 where new: "snew (Idle False) (slog DEBUG (s_name s @ '' run'') s) = (a, s1)" by force
  note s1 = snew_effect [OF new, simplified]
  let ?w = "goto P_scan ((new_worker tid)\<lparr>wk_idle := a, wk_cb := None\<rparr>)"
  have "a \<notin> set (task_fibers (s_tasks s))" using queue_fiber_ready [OF assms(1)] s1(1) by fastforce
  then have "queue_rel tid s1 q" by (intro queue_rel_cong [OF assms(1)]) (use s1 in \<open>auto intro!: s1(3)\<close>)
  then have "fifo_rel tid q u ?w s1"
    using s1 assms(2,3) by (simp add: fifo_rel_def idle_ok_def cb_ok_def idle_unused_def new_worker_def goto_def)
  moreover have "run_alone (Suc m) une beh (new_worker tid) s = run_alone m une beh ?w s1"
    by (simp add: run_alone_step worker_step_def new new_worker_def)
  ultimately show ?thesis by blast
qed

lemma root_runs:
  assumes "fifo_run tid beh k q u = Some u'" "queue_rel tid s q" "s_active s = 0" "s_user s = u" "9 * k + fifo_requests beh k q u + 11 \<le> n"
  shows "\<exists>s'. run_root n une beh tid s = Inr s' \<and> quiet u' s'"
proof -
  let ?k = "9 * k + fifo_requests beh k q u + 10"
  obtain m where n: "n = Suc (?k + m)" using assms(5) by (auto simp: le_iff_add)
  obtain w1 s1 where 1: "run_alone n une beh (new_worker tid) s = run_alone (?k + m) une beh w1 s1" "fifo_rel tid q u w1 s1"
    unfolding n using loop_begins [OF assms(2-4)] by blast
  obtain s' where "run_alone (?k + m) une beh w1 s1 = Some (Inr s')" "quiet u' s'"
    using fifo_runs [OF assms(1) 1(2)] by blast
  then show ?thesis using 1(1) by (simp add: run_root_def)
qed

lemma schedule_cbs_added:
  assumes "\<forall>(thr, d)\<in>set cs. thr = - 1 \<or> thr = tid"
  shows "\<exists>s'. schedule_cbs cs c = c\<lparr>c_sched := s'\<rparr> \<and> added tid (c_sched c) (map snd cs) s'"
  using assms
proof (induction cs arbitrary: c)
  case Nil
  then show ?case by (auto simp: schedule_cbs_def added_refl intro: exI [of _ "c_sched c"])
next
  case (Cons p cs)
  obtain thr d where p: "p = (thr, d)" by force
  let ?c = "on_sched (schedule (Cb (Some d)) thr) c"
  have 1: "added tid (c_sched c) [d] (c_sched ?c)"
    using request_added [where tid = tid and r = "Req (Cb (Some d)) thr" and s = "c_sched c"] Cons.prems p by (simp add: on_sched_def)
  obtain s' where "schedule_cbs cs ?c = ?c\<lparr>c_sched := s'\<rparr>" and 2: "added tid (c_sched ?c) (map snd cs) s'"
    using Cons.IH [of ?c] Cons.prems by auto
  then show ?case using added_trans [OF 1 2] by (intro exI [of _ s']) (simp add: p schedule_cbs_def on_sched_def)
qed

text \<open>C4. A scheduler of one thread, the caller's, implements the run queue: when the queue machine
  empties the callbacks scheduled in \<open>k\<close> runs with \<open>r\<close> calls of \<open>schedule\<close>, \<open>stop\<close> returns within
  \<open>9 k + r + 11\<close> steps of the loop, no assertion fails on the way, the state of the user is that of the machine, and
  nothing is left, so that the scheduler may be destroyed.\<close>

theorem stop_refines_fifo:
  assumes "scheduler_ctor self 1 True name u cl = Inr (c, cl')" "cl_tid cl \<noteq> - 1"
    and "\<forall>(thr, d)\<in>set cs. thr = - 1 \<or> thr = cl_tid cl"
    and "fifo_run (cl_tid cl) beh k (map snd cs) u = Some u'" "9 * k + fifo_requests beh k (map snd cs) u + 11 \<le> n"
  shows "\<exists>c'. scheduler_stop (run_root n une beh (cl_tid cl)) self cl' (schedule_cbs cs c) = Inr ([], c') \<and>
    s_tasks (c_sched c') = [] \<and> s_user (c_sched c') = u' \<and> stopping (c_sched c') \<and>
    scheduler_dtor self c' cl' = Inr (cl'\<lparr>cl_scheduler := None\<rparr>)"
proof -
  let ?s0 = "y_sched (sched_start name u) :: ('a, 'b) sched"
  let ?c = "\<lambda>s r. \<lparr>c_sched = s, c_root = Some r, c_threadCount = 0, c_threads = [],
      c_threadIds = [cl_tid cl], c_rootThread = cl_tid cl\<rparr> :: ('a, 'b) scheduler"
  have c: "c = ?c ?s0 INIT" "cl_scheduler cl' = Some self"
    using assms(1) by (auto simp: scheduler_ctor_def Let_def dest!: check_InrD)
  obtain s1 where s1: "schedule_cbs cs c = ?c s1 INIT" "added (cl_tid cl) ?s0 (map snd cs) s1"
    using schedule_cbs_added [OF assms(3), of c] by (auto simp: c(1))
  obtain ts log where ts: "s1 = ?s0\<lparr>s_tasks := ts, s_log := log\<rparr>" "task_fibers ts = []"
    "\<forall>x :: ('a, 'b) sched. list_all2 (task_code (cl_tid cl) x) ts (map snd cs)"
    using s1(2) by (auto simp: added_def sched_start_def)
  show ?thesis
  proof (cases "cs = []")
    case True
    then have "ts = []" using ts(3) by simp
    then show ?thesis unfolding s1 ts(1) using c(2) True assms(4)
      by (simp add: scheduler_stop_def on_sched_def slog_def stopping_def scheduler_dtor_def sched_start_def Let_def)
  next
    case False
    then have ne: "ts \<noteq> []" using ts(3) by auto
    let ?s2 = "s1\<lparr>s_autoStop := True, s_stopping := True, s_log := log @ [(INFO, '' stopped''), (INFO, ''tickle'')]\<rparr>"
    have "queue_rel (cl_tid cl) ?s2 (map snd cs)" using ts by (simp add: queue_rel_def)
    then obtain s' where s': "run_root n une beh (cl_tid cl) ?s2 = Inr s'" "quiet u' s'"
      using root_runs [OF assms(4) _ _ _ assms(5), of ?s2] by (auto simp: ts(1) sched_start_def)
    have "scheduler_stop (run_root n une beh (cl_tid cl)) self cl' (schedule_cbs cs c) = Inr ([], ?c s' TERM')"
      unfolding s1(1) using c(2) s'(1) assms(2) ne
      by (simp add: scheduler_stop_def stop_rest_def root_call_def on_sched_def slog_def tickle_def stopping_def sched_start_def
          ts(1) Let_def)
    then show ?thesis using c(2) s'(2) by (simp add: quiet_def stopping_def scheduler_dtor_def)
  qed
qed

text \<open>Code \<open>n > 0\<close> counts down by yielding; code 0 schedules code 7, which ends.\<close>

definition count_down :: "(nat, nat list) behaviour" where
  "count_down c u = (if c = 7 then ([], Ends (Threw Other_exception), u @ [7])
     else if c = 0 then ([Req (Cb (Some 7)) (- 1)], Ends Returned, u @ [0])
     else ([], Yields READY (c - 1), u @ [c]))"

theorem stop_refines_fifo_witness:
  "\<exists>c c' :: (nat, nat list) scheduler. scheduler_ctor 0 1 True ''s'' [] demo_caller = Inr (c, demo_caller\<lparr>cl_scheduler := Some 0,
       cl_sched_fiber := Some Root_fiber, cl_name := ''s'', cl_main_fiber := True\<rparr>) \<and>
     scheduler_stop (run_root 90 True count_down 7) 0
       (demo_caller\<lparr>cl_scheduler := Some 0, cl_sched_fiber := Some Root_fiber, cl_name := ''s'', cl_main_fiber := True\<rparr>)
       (schedule_cbs [(- 1, 2), (7, 0)] c) = Inr ([], c') \<and> s_user (c_sched c') = [2, 0, 1, 7, 0, 7]"
proof -
  let ?cl = "demo_caller\<lparr>cl_scheduler := Some 0, cl_sched_fiber := Some Root_fiber, cl_name := ''s'', cl_main_fiber := True\<rparr>"
  obtain c :: "(nat, nat list) scheduler" where c: "scheduler_ctor 0 1 True ''s'' [] demo_caller = Inr (c, ?cl)"
    by (simp add: scheduler_ctor_def demo_caller_def)
  have t: "cl_tid demo_caller = 7" by (simp add: demo_caller_def)
  have r: "fifo_run 7 count_down 8 [2, 0] [] = Some [2, 0, 1, 7, 0, 7]"
    by (simp add: numeral_eq_Suc next_queue_def count_down_def)
  have n: "fifo_requests count_down 8 [2, 0] [] = 2"
    by (simp add: numeral_eq_Suc next_queue_def count_down_def)
  from stop_refines_fifo [OF c, of "[(- 1, 2), (7, 0)]" count_down 8 "[2, 0, 1, 7, 0, 7]" 90 True]
  show ?thesis using c r by (auto simp: t n)
qed

end
