(* ===== verification/SchedulerSafety.thy ===== *)
theory SchedulerSafety
  imports SchedulerFifo
begin

text \<open>
  Any number of workers, in every interleaving: as long as fibers are resumed only when they are
  at rest, each fiber has one owner at a time (the queue, or one worker), and no step of the
  scheduler fails an assertion, follows a null pointer or resumes a context that has ended.
\<close>

section \<open>Well-behaved code\<close>

text \<open>Code that yields by the two yield functions and schedules callbacks, not fibers.\<close>

fun calm_request :: "'c request \<Rightarrow> bool" where
  "calm_request (Req (Fib (Some a)) thread) = False"
| "calm_request (Req fc thread) = True"
| "calm_request (Req_self thread) = False"

fun calm_outcome :: "'c outcome \<Rightarrow> bool" where
  "calm_outcome (Yields st k) = (st = READY \<or> st = HOLD)"
| "calm_outcome (Ends e) = True"

definition calm_code :: "('c, 'u) behaviour \<Rightarrow> bool" where
  "calm_code beh \<longleftrightarrow> (\<forall>c u reqs out u'. beh c u = (reqs, out, u') \<longrightarrow> list_all calm_request reqs \<and> calm_outcome out)"

section \<open>Owners\<close>

text \<open>The fibers of the queue and of a worker: its idle fiber, its fiber for callbacks and the
  fiber of the task it has taken.\<close>

fun task_fiber :: "'c worker_pc \<Rightarrow> addr list" where
  "task_fiber (P_dispatch ft ia) = (case tk_fiber ft of None \<Rightarrow> [] | Some a \<Rightarrow> [a])"
| "task_fiber (P_enter Of_task a) = [a]"
| "task_fiber (P_run Of_task a b) = [a]"
| "task_fiber (P_request Of_task a q qs out) = [a]"
| "task_fiber (P_yield Of_task a out) = [a]"
| "task_fiber (P_save Of_task a out) = [a]"
| "task_fiber (P_after Of_task a) = [a]"
| "task_fiber (P_settle Of_task a) = [a]"
| "task_fiber (P_close Of_task a cl) = [a]"
| "task_fiber _ = []"

definition holds :: "'c worker \<Rightarrow> addr list" where
  "holds w = (if wk_pc w = P_start then []
     else wk_idle w # (case wk_cb w of None \<Rightarrow> [] | Some a \<Rightarrow> [a]) @ task_fiber (wk_pc w))"

definition owned :: "('c, 'u) sched_sys \<Rightarrow> addr list" where
  "owned y = task_fibers (s_tasks (y_sched y)) @ concat (map holds (y_workers y))"

text \<open>What may happen: a fiber is scheduled from outside only when nobody owns it and it
  is on hold.\<close>

definition allowed :: "('c, 'u) event \<Rightarrow> ('c, 'u) sched_sys \<Rightarrow> bool" where
  "allowed ev y \<longleftrightarrow> (\<forall>a thread. ev = Ev_schedule (Fib (Some a)) thread \<longrightarrow>
     a \<notin> set (owned y) \<and> (\<exists>f. sget (y_sched y) a = Some f \<and> fb_state f = HOLD))"

section \<open>The invariant\<close>

text \<open>A fiber whose context has ended has finished.\<close>

definition fit :: "'c body fiber \<Rightarrow> bool" where
  "fit f \<longleftrightarrow> fb_stack f \<and> fb_ctx f \<noteq> Ctx_unset \<and>
     (\<forall>e b. fb_ctx f = Ctx_end e b \<longrightarrow> fb_state f = TERM' \<or> fb_state f = EXCEPT)"

definition finished :: "'c body fiber \<Rightarrow> bool" where
  "finished f \<longleftrightarrow> fb_state f = TERM' \<or> fb_state f = EXCEPT"

text \<open>An idle fiber runs \<open>Scheduler::idle\<close>, which does not throw.\<close>

definition idle_fit :: "'c body fiber \<Rightarrow> bool" where
  "idle_fit f \<longleftrightarrow> fb_state f = TERM' \<or> fb_state f \<noteq> EXCEPT \<and>
     (\<forall>fr b. fb_ctx f = Ctx_user fr b \<longrightarrow> (\<exists>x. b = Idle x)) \<and>
     (\<forall>e. fb_ctx f = Ctx_entry e \<longrightarrow> fb_cb f = Some (Idle False))"

definition idle_rests :: "('c, 'u) sched \<Rightarrow> 'c worker \<Rightarrow> bool" where
  "idle_rests s w \<longleftrightarrow> (\<exists>f. sget s (wk_idle w) = Some f \<and> idle_fit f \<and> fb_state f \<noteq> EXEC)"

definition cb_rests :: "('c, 'u) sched \<Rightarrow> 'c worker \<Rightarrow> bool" where
  "cb_rests s w \<longleftrightarrow> (\<forall>a. wk_cb w = Some a \<longrightarrow> (\<exists>f. sget s a = Some f \<and> fb_state f = INIT))"

text \<open>The worker is in the fiber at \<open>a\<close>; its other fibers are at rest.\<close>

definition inside :: "role \<Rightarrow> addr \<Rightarrow> ('c body fiber \<Rightarrow> bool) \<Rightarrow> ('c, 'u) sched \<Rightarrow> 'c worker \<Rightarrow> bool" where
  "inside r a P s w \<longleftrightarrow> (\<exists>f. sget s a = Some f \<and> P f \<and> (r = Of_idle \<longrightarrow> idle_fit f)) \<and>
     (r \<noteq> Of_idle \<longrightarrow> idle_rests s w) \<and> (r \<noteq> Of_cb \<longrightarrow> cb_rests s w) \<and>
     (r = Of_idle \<longrightarrow> a = wk_idle w) \<and> (r = Of_cb \<longrightarrow> wk_cb w = Some a)"

fun calm_body_outcome :: "role \<Rightarrow> 'c body outcome \<Rightarrow> bool" where
  "calm_body_outcome r (Yields st k) = ((st = READY \<or> st = HOLD) \<and> (r = Of_idle \<longrightarrow> st = HOLD \<and> (\<exists>x. k = Idle x)))"
| "calm_body_outcome r (Ends e) = (r = Of_idle \<longrightarrow> e = Returned)"

fun yielded :: "'c body outcome \<Rightarrow> fiber_state \<Rightarrow> bool" where
  "yielded (Yields st k) x = (x = st)"
| "yielded (Ends Returned) x = (x = TERM')"
| "yielded (Ends (Threw e)) x = (x = EXCEPT)"

text \<open>What is done about a fiber fits its state.\<close>

fun closes :: "role \<Rightarrow> closing \<Rightarrow> 'c body fiber \<Rightarrow> bool" where
  "closes r Cl_schedule f = (r \<noteq> Of_idle \<and> fb_state f = READY)"
| "closes r Cl_hold f = (\<not> finished f)"
| "closes r Cl_reset f = (r = Of_cb \<and> finished f)"

fun pc_safe :: "'c worker_pc \<Rightarrow> ('c, 'u) sched \<Rightarrow> 'c worker \<Rightarrow> bool" where
  "pc_safe P_start s w = True"
| "pc_safe P_scan s w = (idle_rests s w \<and> cb_rests s w)"
| "pc_safe P_done s w = (idle_rests s w \<and> cb_rests s w)"
| "pc_safe (P_dispatch ft ia) s w = (idle_rests s w \<and> cb_rests s w \<and>
     (\<forall>a. tk_fiber ft = Some a \<longrightarrow> (\<exists>f. sget s a = Some f \<and> fb_state f \<noteq> EXEC)))"
| "pc_safe P_drop s w = (idle_rests s w \<and> cb_rests s w)"
| "pc_safe (P_enter r a) s w = inside r a (\<lambda>f. fb_state f \<noteq> EXEC \<and> \<not> finished f) s w"
| "pc_safe (P_request r a q qs out) s w = (inside r a (\<lambda>f. fb_state f = EXEC) s w \<and> r \<noteq> Of_idle \<and>
     list_all calm_request (q # qs) \<and> calm_body_outcome r out)"
| "pc_safe (P_run r a b) s w = (inside r a (\<lambda>f. fb_state f = EXEC) s w \<and> (r = Of_idle \<longrightarrow> (\<exists>x. b = Idle x)))"
| "pc_safe (P_yield r a out) s w = (inside r a (\<lambda>f. fb_state f = EXEC) s w \<and> calm_body_outcome r out)"
| "pc_safe (P_save r a out) s w = (inside r a (\<lambda>f. yielded out (fb_state f)) s w \<and> calm_body_outcome r out)"
| "pc_safe (P_after r a) s w = inside r a (\<lambda>f. fb_state f \<noteq> EXEC) s w"
| "pc_safe (P_settle r a) s w = inside r a (\<lambda>f. fb_state f \<noteq> EXEC) s w"
| "pc_safe (P_close r a cl) s w = inside r a (\<lambda>f. fb_state f \<noteq> EXEC \<and> closes r cl f) s w"

text \<open>One worker and the shared state; \<open>rest\<close> are the fibers of the other workers.\<close>

definition task_safe :: "('c, 'u) sched \<Rightarrow> 'c task \<Rightarrow> bool" where
  "task_safe s t \<longleftrightarrow> (case tk_fiber t of
     Some a \<Rightarrow> (\<exists>f. sget s a = Some f \<and> fb_state f \<noteq> EXEC) | None \<Rightarrow> tk_cb t \<noteq> None)"

definition shared_safe :: "('c, 'u) sched \<Rightarrow> bool" where
  "shared_safe s \<longleftrightarrow> (\<forall>t\<in>set (s_tasks s). task_safe s t) \<and> (\<forall>a f. sget s a = Some f \<longrightarrow> fit f)"

definition worker_safe :: "addr list \<Rightarrow> ('c, 'u) sched \<Rightarrow> 'c worker \<Rightarrow> bool" where
  "worker_safe rest s w \<longleftrightarrow> shared_safe s \<and> pc_safe (wk_pc w) s w \<and>
     distinct (task_fibers (s_tasks s) @ holds w @ rest) \<and> (\<forall>a\<in>set rest. sget s a \<noteq> None)"

definition step_safe :: "addr list \<Rightarrow> ('c, 'u) sched \<Rightarrow> fault + 'c worker \<times> ('c, 'u) sched \<Rightarrow> bool" where
  "step_safe rest s r \<longleftrightarrow> (\<exists>w' s'. r = Inr (w', s') \<and> worker_safe rest s' w' \<and> (\<forall>a\<in>set rest. sget s' a = sget s a))"

section \<open>One worker\<close>

lemma idle_rests_sset [simp]:
  "sget s a = Some g \<Longrightarrow> a \<noteq> wk_idle w \<Longrightarrow> idle_rests (sset a f s) w = idle_rests s w"
  by (simp add: idle_rests_def)

lemma cb_rests_sset [simp]:
  "sget s a = Some g \<Longrightarrow> wk_cb w \<noteq> Some a \<Longrightarrow> cb_rests (sset a f s) w = cb_rests s w"
  by (auto simp: cb_rests_def)

lemma rests_cong:
  assumes "sget s' = sget s"
  shows "idle_rests s' w = idle_rests s w" "cb_rests s' w = cb_rests s w" "task_safe s' t = task_safe s t"
    "inside r a P s' w = inside r a P s w"
  using assms by (simp_all add: idle_rests_def cb_rests_def task_safe_def inside_def split: option.split)

lemma rests_goto [simp]:
  "idle_rests s (goto pc w) = idle_rests s w" "cb_rests s (goto pc w) = cb_rests s w"
  "inside r a P s (goto pc w) = inside r a P s w"
  by (simp_all add: idle_rests_def cb_rests_def inside_def goto_def)

lemma shared_safe_change:
  assumes "shared_safe s" "sget s' a = Some f" "fit f" "\<forall>b. b \<noteq> a \<longrightarrow> sget s' b = sget s b"
    and "s_tasks s' = s_tasks s" "a \<notin> set (task_fibers (s_tasks s))"
  shows "shared_safe s'"
  unfolding shared_safe_def assms(5)
proof (intro conjI ballI allI impI)
  fix t assume t: "t \<in> set (s_tasks s)"
  then have "task_safe s t" using assms(1) by (simp add: shared_safe_def)
  moreover have "tk_fiber t \<noteq> Some a" using assms(6) t by (auto simp: in_task_fibers)
  ultimately show "task_safe s' t" using assms(4) by (auto simp: task_safe_def split: option.splits)
next
  fix b g assume "sget s' b = Some g"
  then show "fit g" using assms(1-4) by (cases "b = a") (auto simp: shared_safe_def)
qed

lemma shared_safe_sset:
  assumes "shared_safe s" "sget s a = Some g" "fit f" "a \<notin> set (task_fibers (s_tasks s))"
  shows "shared_safe (sset a f s)"
  by (rule shared_safe_change [OF assms(1) _ assms(3) _ _ assms(4)]) (use assms(2) in simp_all)

lemma shared_safe_cong:
  assumes "sget s' = sget s" "s_tasks s' = s_tasks s"
  shows "shared_safe s' = shared_safe s"
  by (simp add: shared_safe_def rests_cong(3) [OF assms(1)] assms)

lemma fit_of: "shared_safe s \<Longrightarrow> sget s a = Some f \<Longrightarrow> fit f"
  by (simp add: shared_safe_def)

text \<open>The worker changes only a fiber of its own and goes on to another place.\<close>

lemma step_safe_own:
  assumes "worker_safe rest s w" "sget s a = Some g" "fit f" "a \<in> set (holds w)" "wk_pc w \<noteq> P_start"
    and "task_fiber pc = task_fiber (wk_pc w)" "pc \<noteq> P_start" "pc_safe pc (sset a f s) (goto pc w)"
  shows "step_safe rest s (Inr (goto pc w, sset a f s))"
  unfolding step_safe_def
proof (intro exI conjI)
  have d: "distinct (task_fibers (s_tasks s) @ holds w @ rest)" using assms(1) by (simp add: worker_safe_def)
  have a: "a \<notin> set (task_fibers (s_tasks s))" "a \<notin> set rest" using d assms(4) by auto
  have "holds (goto pc w) = holds w" using assms(5-7) by (simp add: holds_def goto_def)
  then show "worker_safe rest (sset a f s) (goto pc w)"
    using assms(1,2,8) shared_safe_sset [OF _ assms(2,3) a(1)] by (auto simp: worker_safe_def)
  show "\<forall>b\<in>set rest. sget (sset a f s) b = sget s b" using a(2) assms(2) by auto
qed simp

fun pc_in :: "'c worker_pc \<Rightarrow> (role \<times> addr) option" where
  "pc_in (P_enter r a) = Some (r, a)"
| "pc_in (P_run r a b) = Some (r, a)"
| "pc_in (P_request r a q qs out) = Some (r, a)"
| "pc_in (P_yield r a out) = Some (r, a)"
| "pc_in (P_save r a out) = Some (r, a)"
| "pc_in (P_after r a) = Some (r, a)"
| "pc_in (P_settle r a) = Some (r, a)"
| "pc_in (P_close r a cl) = Some (r, a)"
| "pc_in _ = None"

lemma task_fiber_in: "pc_in pc = Some (r, a) \<Longrightarrow> task_fiber pc = (if r = Of_task then [a] else [])"
  by (cases pc; cases r) auto

lemma own_fiber:
  assumes "worker_safe rest s w" "pc_in (wk_pc w) = Some (r, a)" "inside r a P s w"
  shows "a \<in> set (holds w)" "wk_pc w \<noteq> P_start" "r \<noteq> Of_idle \<Longrightarrow> a \<noteq> wk_idle w" "r \<noteq> Of_cb \<Longrightarrow> wk_cb w \<noteq> Some a"
    "a \<notin> set (task_fibers (s_tasks s))" "a \<notin> set rest"
proof -
  have start: "wk_pc w \<noteq> P_start" using assms(2) by (cases "wk_pc w") simp_all
  then have h: "holds w = wk_idle w # (case wk_cb w of None \<Rightarrow> [] | Some b \<Rightarrow> [b]) @ (if r = Of_task then [a] else [])"
    by (simp add: holds_def task_fiber_in [OF assms(2)])
  have d: "distinct (task_fibers (s_tasks s) @ holds w @ rest)" using assms(1) by (simp add: worker_safe_def)
  have i: "r = Of_idle \<longrightarrow> a = wk_idle w" "r = Of_cb \<longrightarrow> wk_cb w = Some a" using assms(3) by (simp_all add: inside_def)
  show own: "a \<in> set (holds w)" using i by (cases r) (auto simp: h)
  show "wk_pc w \<noteq> P_start" by (rule start)
  have dw: "distinct (holds w)" using d by simp
  show "r \<noteq> Of_idle \<Longrightarrow> a \<noteq> wk_idle w" "r \<noteq> Of_cb \<Longrightarrow> wk_cb w \<noteq> Some a"
    using i dw by (cases r; auto simp: h split: option.splits)+
  show "a \<notin> set (task_fibers (s_tasks s))" "a \<notin> set rest" using d own by auto
qed

text \<open>The worker is in a fiber, changes it and stays in it.\<close>

lemma stays_safe:
  assumes "worker_safe rest s w" "pc_in (wk_pc w) = Some (r, a)" "inside r a P s w" "pc_in pc = Some (r, a)"
    and "sget s a = Some g" "fit f" "inside r a Q (sset a f s) w \<Longrightarrow> pc_safe pc (sset a f s) (goto pc w)"
    and "Q f" "r = Of_idle \<longrightarrow> idle_fit f"
  shows "step_safe rest s (Inr (goto pc w, sset a f s))"
proof (rule step_safe_own [OF assms(1,5,6)])
  note own = own_fiber [OF assms(1-3)]
  show "a \<in> set (holds w)" "wk_pc w \<noteq> P_start" by (rule own)+
  show "task_fiber pc = task_fiber (wk_pc w)" by (simp add: task_fiber_in [OF assms(2)] task_fiber_in [OF assms(4)])
  show "pc \<noteq> P_start" using assms(4) by (cases pc) simp_all
  show "pc_safe pc (sset a f s) (goto pc w)"
    by (rule assms(7)) (use assms(3,5,8,9) own(3,4) in \<open>auto simp: inside_def\<close>)
qed

text \<open>Running the fiber's code.\<close>

text \<open>Tasks are put at the end of the queue.\<close>

lemma shared_safe_append:
  assumes "shared_safe s" "\<forall>t\<in>set ts. task_safe s t"
  shows "shared_safe (s\<lparr>s_tasks := s_tasks s @ ts, s_log := log\<rparr>)"
proof -
  have g: "sget (s\<lparr>s_tasks := s_tasks s @ ts, s_log := log\<rparr>) = sget s" by (intro ext) (simp add: sget_def)
  show ?thesis using assms unfolding shared_safe_def by (auto simp: rests_cong(3) [OF g] g)
qed

definition only_callbacks :: "('c, 'u) sched \<Rightarrow> ('c, 'u) sched \<Rightarrow> bool" where
  "only_callbacks s s' \<longleftrightarrow> sget s' = sget s \<and> task_fibers (s_tasks s') = task_fibers (s_tasks s) \<and> shared_safe s'"

lemma schedule_Cb_safe:
  assumes "shared_safe s"
  shows "only_callbacks s (schedule (Cb c) thread s)"
proof -
  let ?ts = "case c of None \<Rightarrow> [] | Some d \<Rightarrow> [cb_task thread d]"
  obtain log where s': "schedule (Cb c) thread s = s\<lparr>s_tasks := s_tasks s @ ?ts, s_log := log\<rparr>"
    using schedule_Cb by blast
  have "\<forall>t\<in>set ?ts. task_safe s t" by (auto simp: cb_task_def task_safe_def split: option.split)
  from shared_safe_append [OF assms this] show ?thesis unfolding s' only_callbacks_def
    by (auto simp: cb_task_def sget_def fun_eq_iff split: option.split)
qed

lemma schedule_empty_safe:
  assumes "shared_safe s"
  shows "only_callbacks s (schedule (Fib None) thread s)"
proof -
  have g: "sget (schedule (Fib None) thread s) = sget s" by (intro ext) (simp add: sget_def heap_schedule)
  have t: "s_tasks (schedule (Fib None) thread s) = s_tasks s"
    by (simp add: schedule_def scheduleNoLock_def push_task_def Let_def)
  show ?thesis using assms by (simp add: only_callbacks_def shared_safe_cong [OF g t] g t)
qed

lemma request_safe:
  assumes "calm_request q" "shared_safe s"
  shows "only_callbacks s (do_request a q s)"
  using assms by (cases q rule: calm_request.cases) (simp_all add: schedule_Cb_safe schedule_empty_safe)

lemma run_body_safe:
  assumes "calm_code beh" "run_body beh b s = (reqs, out, s')" "shared_safe s" "r = Of_idle \<longrightarrow> (\<exists>x. b = Idle x)"
  shows "only_callbacks s s' \<and> calm_body_outcome r out \<and> list_all calm_request reqs \<and> (r = Of_idle \<longrightarrow> reqs = [])"
proof (cases b)
  case (User c)
  obtain o' u where b: "beh c (s_user s) = (reqs, o', u)" "out = lift_outcome o'" "s' = s\<lparr>s_user := u\<rparr>"
    using assms(2) by (auto simp: User split: prod.splits)
  have calm: "list_all calm_request reqs" "calm_outcome o'" using assms(1) b(1) unfolding calm_code_def by blast+
  have s1: "sget s' = sget s" by (intro ext) (simp add: b(3))
  have "shared_safe s'" using assms(3) shared_safe_cong [OF s1] by (simp add: b(3))
  then show ?thesis using assms(4) calm
    by (cases o') (auto simp: User b only_callbacks_def s1 [unfolded b(3)] lift_outcome_def)
next
  case (Idle begun)
  have s1: "sget (slog INFO ''idle'' s) = sget s" by (intro ext) simp
  show ?thesis using assms(2,3) shared_safe_cong [OF s1]
    by (auto simp: Idle only_callbacks_def s1 split: if_splits)
qed

lemma only_callbacks_safe:
  assumes "only_callbacks s s'" "worker_safe rest s w" "wk_pc w \<noteq> P_start" "pc \<noteq> P_start"
    and "task_fiber pc = task_fiber (wk_pc w)" "pc_safe pc s (goto pc w)"
  shows "step_safe rest s (Inr (goto pc w, s'))"
  unfolding step_safe_def
proof (intro exI conjI)
  have g: "sget s' = sget s" "task_fibers (s_tasks s') = task_fibers (s_tasks s)" "shared_safe s'"
    using assms(1) by (simp_all add: only_callbacks_def)
  have "pc_safe pc s' (goto pc w) = pc_safe pc s (goto pc w)" by (cases pc) (simp_all add: rests_cong [OF g(1)] g(1))
  moreover have "holds (goto pc w) = holds w" using assms(3-5) by (simp add: holds_def goto_def)
  ultimately show "worker_safe rest s' (goto pc w)" using assms(2,6) by (simp add: worker_safe_def g)
  show "\<forall>a\<in>set rest. sget s' a = sget s a" by (simp add: g)
qed simp

lemma requesting_safe:
  assumes "inside r a (\<lambda>f. fb_state f = EXEC) s w" "list_all calm_request reqs" "calm_body_outcome r out" "r = Of_idle \<longrightarrow> reqs = []"
  shows "pc_safe (requesting r a reqs out) s w" "requesting r a reqs out \<noteq> P_start" "pc_in (requesting r a reqs out) = Some (r, a)"
  using assms by (cases reqs; auto)+

lemma code_safe:
  assumes "calm_code beh" "worker_safe rest s w" "wk_pc w = P_run r a b"
  shows "step_safe rest s (worker_step une beh w s)"
proof -
  obtain reqs out s' where b: "run_body beh b s = (reqs, out, s')" by (cases "run_body beh b s")
  have p: "inside r a (\<lambda>f. fb_state f = EXEC) s w" "r = Of_idle \<longrightarrow> (\<exists>x. b = Idle x)" "shared_safe s"
    using assms(2,3) by (simp_all add: worker_safe_def)
  note c = run_body_safe [OF assms(1) b p(3,2)]
  note q = requesting_safe [where w = "goto (requesting r a reqs out) w" and s = s and r = r and a = a and reqs = reqs and out = out]
  have "step_safe rest s (Inr (goto (requesting r a reqs out) w, s'))"
    by (rule only_callbacks_safe [OF conjunct1 [OF c] assms(2)])
      (use p c assms(3) q task_fiber_in [OF q(3)] in \<open>auto simp: task_fiber_in\<close>)
  then show ?thesis by (simp add: worker_step_def assms(3) b)
qed

text \<open>A call of \<open>schedule\<close>.\<close>

lemma call_safe:
  assumes "worker_safe rest s w" "wk_pc w = P_request r a q qs out"
  shows "step_safe rest s (worker_step une beh w s)"
proof -
  have p: "inside r a (\<lambda>f. fb_state f = EXEC) s w" "r \<noteq> Of_idle" "calm_request q" "list_all calm_request qs"
    "calm_body_outcome r out" "shared_safe s"
    using assms by (simp_all add: worker_safe_def)
  note c = requesting_safe [where w = "goto (requesting r a qs out) w" and s = s and r = r and a = a and reqs = qs and out = out]
  have "step_safe rest s (Inr (goto (requesting r a qs out) w, do_request a q s))"
    by (rule only_callbacks_safe [OF request_safe [OF p(3,6)] assms(1)])
      (use p assms(2) c task_fiber_in [OF c(3)] in \<open>auto simp: task_fiber_in\<close>)
  then show ?thesis by (simp add: worker_step_def assms(2))
qed

text \<open>Its end: a yield, a return or an exception.\<close>

lemma yield_safe:
  assumes "worker_safe rest s w" "wk_pc w = P_yield r a out"
  shows "step_safe rest s (worker_step une beh w s)"
proof -
  have i: "inside r a (\<lambda>f. fb_state f = EXEC) s w" and c: "calm_body_outcome r out"
    using assms by (simp_all add: worker_safe_def)
  from i obtain f where f: "sget s a = Some f" "fb_state f = EXEC" "r = Of_idle \<longrightarrow> idle_fit f"
    by (auto simp: inside_def)
  have "fit f" using assms(1) f(1) by (auto simp: worker_safe_def intro: fit_of)
  then obtain g where g: "set_yield a out s = Inr (sset a g s)" "fit g" "yielded out (fb_state g)" "r = Of_idle \<longrightarrow> idle_fit g"
    using f c by (cases "(out, fb_state f)" rule: yielded.cases) (auto simp: set_yield_def check_def fit_def idle_fit_def)
  have "step_safe rest s (Inr (goto (P_save r a out) w, sset a g s))"
    by (rule stays_safe [OF assms(1) _ i _ f(1) g(2), where Q = "\<lambda>f. yielded out (fb_state f)"])
      (use assms(2) c g(3,4) in simp_all)
  then show ?thesis by (simp add: worker_step_def assms(2) g(1))
qed

lemma save_safe:
  assumes "worker_safe rest s w" "wk_pc w = P_save r a out"
  shows "step_safe rest s (worker_step une beh w s)"
proof -
  have i: "inside r a (\<lambda>f. yielded out (fb_state f)) s w" and c: "calm_body_outcome r out"
    using assms by (simp_all add: worker_safe_def)
  from i obtain f where f: "sget s a = Some f" "yielded out (fb_state f)" "r = Of_idle \<longrightarrow> idle_fit f"
    by (auto simp: inside_def)
  have "fit f" using assms(1) f(1) by (auto simp: worker_safe_def intro: fit_of)
  then obtain g where g: "save_ctx a out s = Inr (sset a g s)" "fit g" "fb_state g \<noteq> EXEC" "r = Of_idle \<longrightarrow> idle_fit g"
    using f c by (cases "(out, fb_state f)" rule: yielded.cases) (auto simp: save_ctx_def fit_def idle_fit_def)
  have "step_safe rest s (Inr (goto (P_after r a) w, sset a g s))"
    by (rule stays_safe [OF assms(1) _ i _ f(1) g(2), where Q = "\<lambda>f. fb_state f \<noteq> EXEC"])
      (use assms(2) g(3,4) in simp_all)
  then show ?thesis by (simp add: worker_step_def assms(2) g(1))
qed

text \<open>The worker comes to another place.\<close>

lemma goes_safe:
  assumes "worker_safe rest s w" "shared_safe s'" "pc_safe (wk_pc w') s' w'"
    and "distinct (task_fibers (s_tasks s') @ holds w' @ rest)" "\<forall>b\<in>set rest. sget s' b = sget s b"
  shows "step_safe rest s (Inr (w', s'))"
  using assms by (auto simp: step_safe_def worker_safe_def)

text \<open>The worker comes back to the loop.\<close>

lemma settles:
  assumes "shared_safe s'" "idle_rests s' w'" "cb_rests s' w'" "wk_pc w' = P_scan"
    and "distinct (task_fibers (s_tasks s') @ holds w' @ rest)"
    and "\<forall>b\<in>set rest. sget s' b = sget s b" "worker_safe rest s w"
  shows "step_safe rest s (Inr (w', s'))"
  by (rule goes_safe [OF assms(7,1)]) (use assms in simp_all)

lemma schedules_fiber:
  assumes "shared_safe s" "sget s a = Some f" "fb_state f \<noteq> EXEC"
  shows "shared_safe (schedule (Fib (Some a)) thread s) \<and> sget (schedule (Fib (Some a)) thread s) = sget s \<and>
    task_fibers (s_tasks (schedule (Fib (Some a)) thread s)) = task_fibers (s_tasks s) @ [a]"
proof -
  let ?t = "\<lparr>tk_fiber = Some a, tk_cb = None, tk_thread = thread\<rparr>"
  obtain log where s': "schedule (Fib (Some a)) thread s = s\<lparr>s_tasks := s_tasks s @ [?t], s_log := log\<rparr>"
    using schedule_Fib by blast
  have "shared_safe (s\<lparr>s_tasks := s_tasks s @ [?t], s_log := log\<rparr>)"
    by (rule shared_safe_append) (use assms in \<open>simp_all add: task_safe_def\<close>)
  moreover have "sget (s\<lparr>s_tasks := s_tasks s @ [?t], s_log := log\<rparr>) = sget s" by (intro ext) (simp add: sget_def)
  ultimately show ?thesis unfolding s' by simp
qed

lemma counters_safe:
  "shared_safe (s\<lparr>s_active := n\<rparr>) = shared_safe s" "shared_safe (s\<lparr>s_idle := n\<rparr>) = shared_safe s"
  by (rule shared_safe_cong; simp add: fun_eq_iff)+

lemma counters_only: "shared_safe s \<Longrightarrow> only_callbacks s (s\<lparr>s_active := n\<rparr>)" "shared_safe s \<Longrightarrow> only_callbacks s (s\<lparr>s_idle := n\<rparr>)"
  by (simp_all add: only_callbacks_def counters_safe fun_eq_iff)

lemma drop_safe:
  assumes "worker_safe rest s w" "wk_pc w = P_drop"
  shows "step_safe rest s (worker_step une beh w s)"
proof -
  have p: "idle_rests s w" "cb_rests s w" "shared_safe s" using assms by (simp_all add: worker_safe_def)
  have "step_safe rest s (Inr (goto P_scan w, s\<lparr>s_active := s_active s - 1\<rparr>))"
    by (rule only_callbacks_safe [OF counters_only(1) [OF p(3)] assms(1)]) (use p assms(2) in simp_all)
  then show ?thesis by (simp add: worker_step_def assms(2))
qed

lemma after_safe:
  assumes "worker_safe rest s w" "wk_pc w = P_after r a"
  shows "step_safe rest s (worker_step une beh w s)"
proof -
  have p: "inside r a (\<lambda>f. fb_state f \<noteq> EXEC) s w" "shared_safe s" using assms by (simp_all add: worker_safe_def)
  have "only_callbacks s (after_swap r s)" by (simp add: after_swap_def counters_only [OF p(2)])
  then have "step_safe rest s (Inr (goto (P_settle r a) w, after_swap r s))"
    by (rule only_callbacks_safe [OF _ assms(1)]) (use p assms(2) in \<open>cases r; simp\<close>)+
  then show ?thesis by (simp add: worker_step_def assms(2))
qed

lemma settle_safe:
  assumes "worker_safe rest s w" "wk_pc w = P_settle r a"
  shows "step_safe rest s (worker_step une beh w s)"
proof -
  have i: "inside r a (\<lambda>f. fb_state f \<noteq> EXEC) s w" and sh: "shared_safe s" using assms by (simp_all add: worker_safe_def)
  then obtain f where f: "sget s a = Some f" "fb_state f \<noteq> EXEC" "r = Of_idle \<longrightarrow> idle_fit f" by (auto simp: inside_def)
  have only: "only_callbacks s s" using sh by (simp add: only_callbacks_def)
  have d: "distinct (task_fibers (s_tasks s) @ holds w @ rest)" using assms(1) by (simp add: worker_safe_def)
  have close: "step_safe rest s (Inr (goto (P_close r a cl) w, s))" if "closes r cl f" for cl
  proof (rule only_callbacks_safe [OF only assms(1)])
    show "pc_safe (P_close r a cl) s (goto (P_close r a cl) w)" using i f that by (simp add: inside_def)
  qed (use assms(2) in \<open>cases r; simp\<close>)+
  have scan: "step_safe rest s (Inr (goto P_scan w, s))" if "r \<noteq> Of_cb" "finished f"
  proof (rule settles [OF sh _ _ _ _ _ assms(1)])
    show "idle_rests s (goto P_scan w)" "cb_rests s (goto P_scan w)"
      using i f that by (cases r; auto simp: inside_def idle_rests_def)+
    show "distinct (task_fibers (s_tasks s) @ holds (goto P_scan w) @ rest)"
      using d by (auto simp: holds_def assms(2) goto_def split: option.splits)
  qed simp_all
  show ?thesis using close scan f(1)
    by (auto simp: worker_step_def assms(2) settle_def Let_def finished_def)
qed

lemma close_safe:
  assumes "worker_safe rest s w" "wk_pc w = P_close r a cl"
  shows "step_safe rest s (worker_step une beh w s)"
proof -
  have i: "inside r a (\<lambda>f. fb_state f \<noteq> EXEC \<and> closes r cl f) s w" and sh: "shared_safe s"
    using assms by (simp_all add: worker_safe_def)
  then obtain f where f: "sget s a = Some f" "fb_state f \<noteq> EXEC" "closes r cl f" "r = Of_idle \<longrightarrow> idle_fit f"
    by (auto simp: inside_def)
  note own = own_fiber [OF assms(1) _ i, unfolded assms(2), simplified]
  have rests: "r \<noteq> Of_idle \<Longrightarrow> idle_rests s w" "r \<noteq> Of_cb \<Longrightarrow> cb_rests s w" using i by (simp_all add: inside_def)
  have place: "r = Of_idle \<Longrightarrow> a = wk_idle w" "r = Of_cb \<Longrightarrow> wk_cb w = Some a" using i by (simp_all add: inside_def)
  have fitf: "fit f" by (rule fit_of [OF sh f(1)])
  have d: "distinct (task_fibers (s_tasks s) @ holds w @ rest)" using assms(1) by (simp add: worker_safe_def)
  have h: "holds w = wk_idle w # (case wk_cb w of None \<Rightarrow> [] | Some b \<Rightarrow> [b]) @ (if r = Of_task then [a] else [])"
    by (cases r) (simp_all add: holds_def assms(2))
  note d' = d [unfolded h]
  note sched = schedules_fiber [OF sh f(1,2), of "- 1"]
  note queue = rests_cong [OF conjunct1 [OF conjunct2 [OF sched]]] sched
  have safe: "shared_safe (sset a g s)" if "fit g" for g
    by (rule shared_safe_sset [OF sh f(1) that own(5)])
  let ?w = "goto P_scan (if r = Of_cb then w\<lparr>wk_cb := None\<rparr> else w)"
  show ?thesis
  proof (cases cl)
    case Cl_schedule
    then have r: "r = Of_task \<or> r = Of_cb" using f(3) by (cases r) simp_all
    have "step_safe rest s (Inr (?w, schedule (Fib (Some a)) (- 1) s))"
      by (rule settles [OF _ _ _ _ _ _ assms(1)])
        (use r rests place own d' queue in \<open>auto simp: holds_def idle_rests_def cb_rests_def\<close>)
    then show ?thesis by (simp add: worker_step_def assms(2) close_def Cl_schedule)
  next
    case Cl_hold
    have g: "fit (f\<lparr>fb_state := HOLD\<rparr>)" using fitf f(3) by (auto simp: Cl_hold fit_def finished_def)
    have "step_safe rest s (Inr (?w, sset a (f\<lparr>fb_state := HOLD\<rparr>) s))"
      by (rule settles [OF safe [OF g] _ _ _ _ _ assms(1)])
        (use rests place own d' f Cl_hold in \<open>cases r; auto simp: holds_def idle_rests_def cb_rests_def idle_fit_def finished_def\<close>)+
    then show ?thesis using f(1) by (simp add: worker_step_def assms(2) close_def Cl_hold)
  next
    case Cl_reset
    then have r: "r = Of_cb" "fb_state f = TERM' \<or> fb_state f = EXCEPT" using f(3) by (simp_all add: finished_def)
    let ?f = "f\<lparr>fb_cb := None, fb_ctx := Ctx_entry MainFunc, fb_state := INIT\<rparr>"
    have fit': "fit ?f" "fb_stack f" using fitf by (simp_all add: fit_def)
    have "step_safe rest s (Inr (goto P_scan w, sset a ?f s))"
      by (rule settles [OF safe [OF fit'(1)] _ _ _ _ _ assms(1)])
        (use rests place own d' f(1) r in \<open>auto simp: holds_def cb_rests_def\<close>)
    moreover have "sreset a None s = Inr (sset a ?f s)" using f(1) fit'(2) r(2) by (auto simp: sreset_def check_def may_end_def)
    ultimately show ?thesis by (simp add: worker_step_def assms(2) close_def Cl_reset)
  qed
qed

text \<open>Switching to a fiber that has not finished.\<close>

fun pc_entry :: "role \<Rightarrow> addr \<Rightarrow> 'c worker_pc \<Rightarrow> bool" where
  "pc_entry r a (P_run r' a' b) = (r' = r \<and> a' = a \<and> (r = Of_idle \<longrightarrow> (\<exists>x. b = Idle x)))"
| "pc_entry r a (P_yield r' a' (Ends (Threw e))) = (r' = r \<and> a' = a \<and> r \<noteq> Of_idle)"
| "pc_entry r a _ = False"

lemma pc_entryD:
  assumes "pc_entry r a pc"
  shows "pc_in pc = Some (r, a)" "pc \<noteq> P_start"
    "inside r a (\<lambda>f. fb_state f = EXEC) s w \<Longrightarrow> pc_safe pc s w"
  using assms by (induction r a pc rule: pc_entry.induct) auto

lemma swapIn_safe:
  assumes "sget s a = Some f" "fit f" "fb_state f \<noteq> EXEC" "fb_state f \<noteq> TERM'" "fb_state f \<noteq> EXCEPT"
    and "r = Of_idle \<longrightarrow> idle_fit f"
  shows "\<exists>pc. sswapIn r a s = Inr (pc, sset a (f\<lparr>fb_state := EXEC\<rparr>) s) \<and> pc_entry r a pc \<and> fit (f\<lparr>fb_state := EXEC\<rparr>)"
  using assms by (auto simp: sswapIn_def sresume_def check_def fit_def idle_fit_def split: ctx.split option.split)

lemma enter_safe:
  assumes "worker_safe rest s w" "wk_pc w = P_enter r a"
  shows "step_safe rest s (worker_step une beh w s)"
proof -
  have i: "inside r a (\<lambda>f. fb_state f \<noteq> EXEC \<and> \<not> finished f) s w" and sh: "shared_safe s"
    using assms by (simp_all add: worker_safe_def)
  then obtain f where f: "sget s a = Some f" "fb_state f \<noteq> EXEC" "fb_state f \<noteq> TERM'" "fb_state f \<noteq> EXCEPT" "r = Of_idle \<longrightarrow> idle_fit f"
    by (auto simp: inside_def finished_def)
  from swapIn_safe [OF f(1) fit_of [OF sh f(1)] f(2-5)] obtain pc where
    pc: "sswapIn r a s = Inr (pc, sset a (f\<lparr>fb_state := EXEC\<rparr>) s)" "pc_entry r a pc" "fit (f\<lparr>fb_state := EXEC\<rparr>)" by blast
  have "step_safe rest s (Inr (goto pc w, sset a (f\<lparr>fb_state := EXEC\<rparr>) s))"
    by (rule stays_safe [OF assms(1) _ i pc_entryD(1) [OF pc(2)] f(1) pc(3), where Q = "\<lambda>f. fb_state f = EXEC"])
      (use assms(2) f pc_entryD(3) [OF pc(2), of "sset a (f\<lparr>fb_state := EXEC\<rparr>) s" "goto pc w"] in \<open>auto simp: idle_fit_def\<close>)
  then show ?thesis by (simp add: worker_step_def assms(2) pc(1))
qed

lemma dispatch_safe:
  assumes "worker_safe rest s w" "wk_pc w = P_dispatch ft ia"
  shows "step_safe rest s (worker_step une beh w s)"
proof -
  have p: "idle_rests s w" "cb_rests s w" "shared_safe s"
    "\<forall>a. tk_fiber ft = Some a \<longrightarrow> (\<exists>f. sget s a = Some f \<and> fb_state f \<noteq> EXEC)"
    using assms by (simp_all add: worker_safe_def)
  have h: "holds w = wk_idle w # (case wk_cb w of None \<Rightarrow> [] | Some b \<Rightarrow> [b]) @ (case tk_fiber ft of None \<Rightarrow> [] | Some a \<Rightarrow> [a])"
    by (simp add: holds_def assms(2))
  have d: "distinct (task_fibers (s_tasks s) @ holds w @ rest)" using assms(1) by (simp add: worker_safe_def)
  note d' = d [unfolded h]
  obtain fi where fi: "sget s (wk_idle w) = Some fi" "idle_fit fi" "fb_state fi \<noteq> EXEC" using p(1) by (auto simp: idle_rests_def)
  have idle: "step_safe rest s (dispatch_idle ia w s)"
  proof -
    consider "ia" | "\<not> ia" "fb_state fi = TERM'" | "\<not> ia" "fb_state fi \<noteq> TERM'" by blast
    then show ?thesis
    proof cases
      case 1
      have "step_safe rest s (Inr (goto P_drop w, s))"
        by (rule goes_safe [OF assms(1) p(3)]) (use p d' in \<open>auto simp: holds_def split: option.splits\<close>)
      then show ?thesis using 1 by (simp add: dispatch_idle_def)
    next
      case 2
      let ?s = "slog INFO ''idle fiber term'' s"
      have g: "sget ?s = sget s" by (intro ext) simp
      have "step_safe rest s (Inr (goto P_done w, ?s))"
        by (rule goes_safe [OF assms(1)])
          (use p d' shared_safe_cong [OF g] in \<open>auto simp: holds_def rests_cong [OF g] split: option.splits\<close>)
      then show ?thesis using 2 fi(1) by (simp add: dispatch_idle_def)
    next
      case 3
      let ?s = "s\<lparr>s_idle := s_idle s + 1\<rparr>"
      have g: "sget ?s = sget s" by (intro ext) simp
      have "step_safe rest s (Inr (goto (P_enter Of_idle (wk_idle w)) w, ?s))"
        by (rule goes_safe [OF assms(1)])
          (use p d' fi 3 in \<open>auto simp: holds_def counters_safe inside_def finished_def idle_fit_def rests_cong(2) [OF g] split: option.splits\<close>)
      then show ?thesis using 3 fi(1) by (simp add: dispatch_idle_def)
    qed
  qed
  have cb: "step_safe rest s (dispatch_cb b w s)" for b
  proof -
    obtain a s1 f where s1: "(case wk_cb w of
              Some a \<Rightarrow> rbind (sreset a (Some b) s) (\<lambda>s1. Inr (a, s1))
            | None \<Rightarrow> Inr (snew b s)) = Inr (a, s1)" "sget s1 a = Some f" "fb_state f = INIT" "fit f"
      and fr: "\<forall>c. c \<noteq> a \<longrightarrow> sget s1 c = sget s c" "s_tasks s1 = s_tasks s" "wk_cb w = Some a \<or> wk_cb w = None \<and> sget s a = None"
    proof (cases "wk_cb w")
      case None
      obtain a s1 where n: "snew b s = (a, s1)" by (cases "snew b s")
      show thesis by (rule that [OF _ snew_effect(2) [OF n]]) (use n snew_effect [OF n] None in \<open>auto simp: fit_def\<close>)
    next
      case (Some a)
      then obtain f where f: "sget s a = Some f" "fb_state f = INIT" using p(2) by (auto simp: cb_rests_def)
      then have "fit f" using p(3) by (auto intro: fit_of)
      then show thesis
        by (intro that [of a "sset a (f\<lparr>fb_cb := Some b, fb_ctx := Ctx_entry MainFunc, fb_state := INIT\<rparr>) s"
              "f\<lparr>fb_cb := Some b, fb_ctx := Ctx_entry MainFunc, fb_state := INIT\<rparr>"])
          (use f Some in \<open>auto simp: sreset_def check_def may_end_def fit_def\<close>)
    qed
    have own: "a \<notin> set (task_fibers (s_tasks s))" "a \<noteq> wk_idle w" "a \<notin> set rest"
      using fr(3) d' fi(1) p(3) assms(1)
      by (auto simp: in_task_fibers shared_safe_def task_safe_def worker_safe_def)
    have safe1: "shared_safe s1" by (rule shared_safe_change [OF p(3) s1(2,4) fr(1,2) own(1)])
    have "step_safe rest s (Inr (goto (P_enter Of_cb a) (w\<lparr>wk_cb := Some a\<rparr>), s1))"
      by (rule goes_safe [OF assms(1) safe1])
        (use fi own d' s1 fr in \<open>auto simp: holds_def inside_def idle_rests_def finished_def\<close>)
    then show ?thesis by (simp add: dispatch_cb_def s1(1))
  qed
  have task: "step_safe rest s (dispatch_fiber a w s)"
    if t: "tk_fiber ft = Some a" "sget s a = Some f" "fb_state f \<noteq> EXEC" "fb_state f \<noteq> TERM'" "fb_state f \<noteq> EXCEPT" for a f
    unfolding dispatch_fiber_def
    by (rule goes_safe [OF assms(1) p(3)]) (use p d' t in \<open>auto simp: holds_def inside_def finished_def\<close>)
  show ?thesis unfolding worker_step_def assms(2) using p(4) idle cb task
    by (auto simp: dispatch_def Let_def split: option.split)
qed

text \<open>Taking a task, and the beginning of the loop.\<close>

lemma valid_tasks: "shared_safe s \<Longrightarrow> \<forall>t\<in>set (s_tasks s). valid_task s t"
  unfolding shared_safe_def task_safe_def valid_task_def by (fastforce split: option.splits)

lemma scan_safe:
  assumes "worker_safe rest s w" "wk_pc w = P_scan"
  shows "step_safe rest s (worker_step une beh w s)"
proof -
  have p: "idle_rests s w" "cb_rests s w" "shared_safe s" using assms by (simp_all add: worker_safe_def)
  have d: "distinct (task_fibers (s_tasks s) @ holds w @ rest)" using assms(1) by (simp add: worker_safe_def)
  have h: "holds w = wk_idle w # (case wk_cb w of None \<Rightarrow> [] | Some b \<Rightarrow> [b])" by (simp add: holds_def assms(2))
  have ends: "step_safe rest s (Inr (goto (P_dispatch ft ia) w, if tick then tickle s1 else s1))"
    if "sget s1 = sget s" "shared_safe s1" "distinct (task_fibers (s_tasks s1) @ holds (goto (P_dispatch ft ia) w) @ rest)"
      "\<forall>a. tk_fiber ft = Some a \<longrightarrow> (\<exists>f. sget s a = Some f \<and> fb_state f \<noteq> EXEC)" for ft ia s1 tick
  proof -
    let ?s = "if tick then tickle s1 else s1"
    have g: "sget ?s = sget s" by (intro ext) (simp add: that(1))
    have "shared_safe ?s" using that(2) by (subst shared_safe_cong [of _ s1]) (simp_all add: g that(1))
    then show ?thesis using p assms(1) that(3,4)
      by (auto simp: step_safe_def worker_safe_def rests_cong [OF g] g)
  qed
  from scan_spec_from [OF valid_tasks [OF p(3)], of 0 "wk_tid w" une False] consider
      (taken) pre t post tick where "s_tasks s = pre @ t # post"
        "scan une (wk_tid w) 0 False s = Inr (\<lparr>sc_ft = t, sc_tickle = tick, sc_active = True\<rparr>,
          s\<lparr>s_tasks := pre @ post, s_active := s_active s + 1\<rparr>)"
    | (none) tick where "scan une (wk_tid w) 0 False s = Inr (\<lparr>sc_ft = empty_task, sc_tickle = tick, sc_active = False\<rparr>, s)"
    by auto
  then show ?thesis
  proof cases
    case taken
    let ?s = "s\<lparr>s_tasks := pre @ post, s_active := s_active s + 1\<rparr>"
    have g: "sget ?s = sget s" by (intro ext) simp
    have "shared_safe ?s" using p(3) by (auto simp: shared_safe_def rests_cong(3) [OF g] g taken(1))
    moreover have "task_safe s t" using p(3) by (simp add: shared_safe_def taken(1))
    ultimately have "step_safe rest s (Inr (goto (P_dispatch t True) w, if tick then tickle ?s else ?s))"
      by (intro ends) (use d h g taken(1) in \<open>auto simp: holds_def task_safe_def split: option.splits\<close>)
    then show ?thesis by (simp add: worker_step_def assms(2) taken(2))
  next
    case none
    have "step_safe rest s (Inr (goto (P_dispatch empty_task False) w, if tick then tickle s else s))"
      by (rule ends) (use p d h in \<open>auto simp: holds_def empty_task_def\<close>)
    then show ?thesis by (simp add: worker_step_def assms(2) none)
  qed
qed

lemma start_safe:
  assumes "worker_safe rest s w" "wk_pc w = P_start"
  shows "step_safe rest s (worker_step une beh w s)"
proof -
  let ?l = "slog DEBUG (s_name s @ '' run'') s"
  obtain a s1 where n: "snew (Idle False) ?l = (a, s1)" by (cases "snew (Idle False) ?l")
  note e = snew_effect [OF n]
  have p: "shared_safe s" "distinct (task_fibers (s_tasks s) @ rest)" "\<forall>b\<in>set rest. sget s b \<noteq> None"
    using assms by (simp_all add: worker_safe_def holds_def)
  have own: "a \<notin> set (task_fibers (s_tasks s))" "a \<notin> set rest"
    using p(1,3) e(1) by (auto simp: in_task_fibers shared_safe_def task_safe_def)
  have fr: "sget s1 b = sget s b" if "b \<in> set rest" for b using e(3) [of b] own(2) that by auto
  have "shared_safe s1" by (rule shared_safe_change [OF p(1) e(2)]) (use e own in \<open>simp_all add: fit_def\<close>)
  then have "step_safe rest s (Inr (goto P_scan (w\<lparr>wk_idle := a, wk_cb := None\<rparr>), s1))"
    by (rule settles [OF _ _ _ _ _ _ assms(1)])
      (use e(2,4) own p fr in \<open>auto simp: idle_rests_def cb_rests_def idle_fit_def holds_def\<close>)
  then show ?thesis by (simp add: worker_step_def assms(2) n)
qed

lemma worker_step_safe:
  assumes "calm_code beh" "worker_safe rest s w"
  shows "step_safe rest s (worker_step une beh w s)"
proof (cases "wk_pc w")
  case P_done
  then show ?thesis using assms(2) by (auto simp: worker_step_def step_safe_def)
qed (use assms(1) start_safe [OF assms(2)] scan_safe [OF assms(2)] dispatch_safe [OF assms(2)] code_safe [OF assms]
    yield_safe [OF assms(2)] save_safe [OF assms(2)] after_safe [OF assms(2)] drop_safe [OF assms(2)] enter_safe [OF assms(2)]
    call_safe [OF assms(2)] settle_safe [OF assms(2)] close_safe [OF assms(2)] in simp_all)

section \<open>All the workers\<close>

definition sys_safe :: "('c, 'u) sched_sys \<Rightarrow> bool" where
  "sys_safe y \<longleftrightarrow> shared_safe (y_sched y) \<and> distinct (owned y) \<and>
     (\<forall>w\<in>set (y_workers y). pc_safe (wk_pc w) (y_sched y) w)"

lemma holds_iff:
  "b \<in> set (holds w) \<longleftrightarrow> wk_pc w \<noteq> P_start \<and> (b = wk_idle w \<or> wk_cb w = Some b \<or> b \<in> set (task_fiber (wk_pc w)))"
  by (auto simp: holds_def split: option.splits)

lemma rests_alloc:
  "idle_rests s w \<Longrightarrow> sget s (wk_idle w) \<noteq> None" "cb_rests s w \<Longrightarrow> wk_cb w = Some b \<Longrightarrow> sget s b \<noteq> None"
  by (auto simp: idle_rests_def cb_rests_def)

lemma inside_alloc:
  assumes "inside r a P s w"
  shows "sget s a \<noteq> None" "sget s (wk_idle w) \<noteq> None" "wk_cb w = Some b \<Longrightarrow> sget s b \<noteq> None"
  using assms by (cases r; auto simp: inside_def idle_rests_def cb_rests_def)+

lemma pc_safe_holds:
  assumes "pc_safe (wk_pc w) s w" "b \<in> set (holds w)"
  shows "sget s b \<noteq> None"
proof -
  have b: "b = wk_idle w \<or> wk_cb w = Some b \<or> b \<in> set (task_fiber (wk_pc w))" "wk_pc w \<noteq> P_start"
    using assms(2) by (simp_all add: holds_iff)
  consider (out) "pc_in (wk_pc w) = None" | (inside) r a P where "pc_in (wk_pc w) = Some (r, a)" "inside r a P s w"
    using assms(1) by (cases "wk_pc w") auto
  then show ?thesis
  proof cases
    case out
    then have "idle_rests s w" "cb_rests s w" using assms(1) b(2) by (cases "wk_pc w"; simp)+
    moreover have "\<forall>c\<in>set (task_fiber (wk_pc w)). sget s c \<noteq> None"
      using out assms(1) by (cases "wk_pc w") (force split: option.splits)+
    ultimately show ?thesis using b(1) rests_alloc [of s w] by blast
  next
    case inside
    then have "\<forall>c\<in>set (task_fiber (wk_pc w)). c = a" using task_fiber_in [OF inside(1)] by simp
    then show ?thesis using b(1) inside_alloc(1,2) [OF inside(2)] inside_alloc(3) [OF inside(2), of b] by auto
  qed
qed

lemma inside_frame:
  assumes "inside r a P s w" "sget s' a = sget s a" "sget s' (wk_idle w) = sget s (wk_idle w)"
    and "\<forall>b. wk_cb w = Some b \<longrightarrow> sget s' b = sget s b"
  shows "inside r a P s' w"
  using assms by (simp add: inside_def idle_rests_def cb_rests_def)

lemma pc_safe_frame:
  assumes "pc_safe (wk_pc w) s w" "\<forall>b\<in>set (holds w). sget s' b = sget s b"
  shows "pc_safe (wk_pc w) s' w"
proof (cases "wk_pc w = P_start")
  case False
  have eq: "sget s' (wk_idle w) = sget s (wk_idle w)" "\<forall>b. wk_cb w = Some b \<longrightarrow> sget s' b = sget s b"
    "\<forall>b\<in>set (task_fiber (wk_pc w)). sget s' b = sget s b"
    using assms(2) False by (simp_all add: holds_iff)
  have rests: "idle_rests s' w = idle_rests s w" "cb_rests s' w = cb_rests s w"
    using eq(1,2) by (auto simp: idle_rests_def cb_rests_def)
  have "inside r a P s' w" if i: "inside r a P s w" and pc: "pc_in (wk_pc w) = Some (r, a)" for r a P
  proof (rule inside_frame [OF i _ eq(1,2)])
    show "sget s' a = sget s a"
      using i eq by (cases r) (simp_all add: inside_def task_fiber_in [OF pc])
  qed
  then show ?thesis using assms(1) eq rests by (cases "wk_pc w") (auto split: option.splits)
qed simp

lemma distinct_rotate: "distinct (t @ h @ a @ b) \<longleftrightarrow> distinct (t @ a @ h @ b)"
  by auto

text \<open>The fibers of the workers other than the one at \<open>i\<close>.\<close>

definition others :: "'c worker list \<Rightarrow> nat \<Rightarrow> 'c worker list" where
  "others ws i = take i ws @ drop (Suc i) ws"

definition held_by :: "'c worker list \<Rightarrow> addr list" where
  "held_by ws = concat (map holds ws)"

lemma held_by_append: "held_by (ws @ vs) = held_by ws @ held_by vs"
  by (simp add: held_by_def)

lemma sys_worker:
  assumes "sys_safe y" "i < length (y_workers y)"
  shows "worker_safe (held_by (others (y_workers y) i)) (y_sched y) (y_workers y ! i)"
    "v \<in> set (others (y_workers y) i) \<Longrightarrow> pc_safe (wk_pc v) (y_sched y) v"
proof -
  let ?s = "y_sched y" and ?pre = "take i (y_workers y)" and ?w = "y_workers y ! i" and ?post = "drop (Suc i) (y_workers y)"
  let ?rest = "held_by (others (y_workers y) i)"
  have ws: "y_workers y = ?pre @ ?w # ?post" using assms(2) by (simp add: id_take_nth_drop)
  have all: "\<forall>v\<in>set (?pre @ ?w # ?post). pc_safe (wk_pc v) ?s v"
    using assms(1) unfolding sys_safe_def by (subst ws [symmetric]) simp
  then show safe: "v \<in> set (others (y_workers y) i) \<Longrightarrow> pc_safe (wk_pc v) (y_sched y) v" for v
    by (auto simp: others_def)
  have "owned y = task_fibers (s_tasks ?s) @ held_by ?pre @ holds ?w @ held_by ?post"
    unfolding owned_def held_by_def by (subst ws) simp
  then have d: "distinct (task_fibers (s_tasks ?s) @ holds ?w @ ?rest)"
    using assms(1) by (simp only: sys_safe_def distinct_rotate others_def held_by_append)
  have "sget ?s a \<noteq> None" if "a \<in> set ?rest" for a
    using that safe pc_safe_holds [of _ ?s a] by (auto simp: held_by_def)
  then show "worker_safe ?rest ?s ?w"
    using assms(1) d all unfolding worker_safe_def sys_safe_def by simp
qed

lemma sys_safe_step:
  assumes "sys_safe y" "i < length (y_workers y)" "calm_code beh"
  shows "\<exists>y'. sys_step une beh (Ev_step i) y = Inr y' \<and> sys_safe y'"
proof -
  let ?s = "y_sched y" and ?pre = "take i (y_workers y)" and ?w = "y_workers y ! i" and ?post = "drop (Suc i) (y_workers y)"
  let ?rest = "held_by (others (y_workers y) i)"
  from worker_step_safe [OF assms(3) sys_worker(1) [OF assms(1,2)]] obtain w' s' where st: "worker_step une beh ?w ?s = Inr (w', s')"
    and safe: "worker_safe ?rest s' w'" and same: "\<forall>a\<in>set ?rest. sget s' a = sget ?s a"
    unfolding step_safe_def by blast
  let ?y = "y\<lparr>y_sched := s', y_workers := ?pre @ w' # ?post\<rparr>"
  have "\<forall>v\<in>set (?pre @ w' # ?post). pc_safe (wk_pc v) s' v"
  proof
    fix v assume "v \<in> set (?pre @ w' # ?post)"
    then consider "v = w'" | "v \<in> set (others (y_workers y) i)" by (auto simp: others_def)
    then show "pc_safe (wk_pc v) s' v"
    proof cases
      case 2
      then have "set (holds v) \<subseteq> set ?rest" by (auto simp: held_by_def)
      then show ?thesis using same by (blast intro: pc_safe_frame [OF sys_worker(2) [OF assms(1,2) 2]])
    qed (use safe in \<open>simp add: worker_safe_def\<close>)
  qed
  note pcs = this
  have "distinct (task_fibers (s_tasks s') @ holds w' @ ?rest)" using safe by (simp add: worker_safe_def)
  moreover have "owned ?y = task_fibers (s_tasks s') @ held_by ?pre @ holds w' @ held_by ?post"
    by (simp add: owned_def held_by_def)
  ultimately have "distinct (owned ?y)" by (simp only: distinct_rotate others_def held_by_append)
  then have "sys_safe ?y" using pcs safe by (simp add: sys_safe_def worker_safe_def)
  then show ?thesis using st assms(2) by (simp add: sys_step_def upd_conv_take_nth_drop)
qed

text \<open>A step of a worker of a safe state: what it returns, and that it leaves the fibers of the others alone.\<close>

lemma sys_step_worker:
  assumes "sys_safe y" "i < length (y_workers y)" "calm_code beh"
  obtains w s where "worker_step une beh (y_workers y ! i) (y_sched y) = Inr (w, s)"
    "sys_step une beh (Ev_step i) y = Inr (y\<lparr>y_sched := s, y_workers := (y_workers y)[i := w]\<rparr>)"
    "\<And>v. v \<in> set (others (y_workers y) i) \<Longrightarrow> \<forall>a\<in>set (holds v). sget s a = sget (y_sched y) a"
proof -
  from worker_step_safe [OF assms(3) sys_worker(1) [OF assms(1,2)]] obtain w s where
    st: "worker_step une beh (y_workers y ! i) (y_sched y) = Inr (w, s)"
    and "\<forall>a\<in>set (held_by (others (y_workers y) i)). sget s a = sget (y_sched y) a"
    unfolding step_safe_def by blast
  then have "\<forall>a\<in>set (holds v). sget s a = sget (y_sched y) a" if "v \<in> set (others (y_workers y) i)" for v
    using that by (auto simp: held_by_def)
  then show thesis using that [OF st] st assms(2) by (simp add: sys_step_def)
qed

lemma sys_safe_only_callbacks:
  assumes "sys_safe y" "only_callbacks (y_sched y) s'"
  shows "sys_safe (y\<lparr>y_sched := s'\<rparr>)"
  using assms by (auto simp: sys_safe_def only_callbacks_def owned_def intro: pc_safe_frame [of _ "y_sched y"])

lemma flags_only:
  assumes "sys_safe y" "sget s' = sget (y_sched y)" "s_tasks s' = s_tasks (y_sched y)"
  shows "only_callbacks (y_sched y) s'"
  using assms(1) shared_safe_cong [OF assms(2,3)] by (simp add: only_callbacks_def assms(2,3) sys_safe_def)

lemma sys_safe_event:
  assumes "sys_safe y" "allowed ev y" "calm_code beh"
  shows "\<exists>y'. sys_step une beh ev y = Inr y' \<and> sys_safe y'"
proof (cases ev)
  case (Ev_step i)
  then show ?thesis using sys_safe_step [OF assms(1) _ assms(3)] assms(1)
    by (cases "i < length (y_workers y)") (auto simp: sys_step_def)
next
  case (Ev_schedule fc thread)
  have shared: "shared_safe (y_sched y)" using assms(1) by (simp add: sys_safe_def)
  consider (cb) c where "fc = Cb c" | (null) "fc = Fib None" | (fiber) a where "fc = Fib (Some a)"
    by (metis fiber_or_cb.exhaust option.exhaust)
  then have "sys_safe (y\<lparr>y_sched := schedule fc thread (y_sched y)\<rparr>)"
  proof cases
    case cb
    then show ?thesis using sys_safe_only_callbacks [OF assms(1) schedule_Cb_safe [OF shared]] by simp
  next
    case null
    then show ?thesis using sys_safe_only_callbacks [OF assms(1) schedule_empty_safe [OF shared]] by simp
  next
    case fiber
    then obtain f where f: "a \<notin> set (owned y)" "sget (y_sched y) a = Some f" "fb_state f = HOLD"
      using assms(2) by (auto simp: allowed_def Ev_schedule)
    then have "shared_safe (schedule (Fib (Some a)) thread (y_sched y)) \<and>
        sget (schedule (Fib (Some a)) thread (y_sched y)) = sget (y_sched y) \<and>
        task_fibers (s_tasks (schedule (Fib (Some a)) thread (y_sched y))) = task_fibers (s_tasks (y_sched y)) @ [a]"
      by (intro schedules_fiber [OF shared f(2)]) simp
    then show ?thesis using assms(1) f(1) unfolding fiber
      by (auto simp: sys_safe_def owned_def intro: pc_safe_frame [of _ "y_sched y"])
  qed
  then show ?thesis by (simp add: sys_step_def Ev_schedule)
next
  case Ev_started
  have "only_callbacks (y_sched y) ((y_sched y)\<lparr>s_stopping := False\<rparr>)"
    by (rule flags_only [OF assms(1)]) (simp_all add: sget_def fun_eq_iff)
  then show ?thesis using sys_safe_only_callbacks [OF assms(1)] by (simp add: sys_step_def Ev_started)
next
  case Ev_stop
  have "only_callbacks (y_sched y) ((y_sched y)\<lparr>s_autoStop := True, s_stopping := True\<rparr>)"
    by (rule flags_only [OF assms(1)]) (simp_all add: sget_def fun_eq_iff)
  then show ?thesis using sys_safe_only_callbacks [OF assms(1)] by (simp add: sys_step_def Ev_stop)
next
  case (Ev_thread tid)
  then show ?thesis using assms(1) by (auto simp: sys_step_def sys_safe_def owned_def new_worker_def holds_def)
next
  case (Ev_user u)
  have "only_callbacks (y_sched y) ((y_sched y)\<lparr>s_user := u\<rparr>)"
    by (rule flags_only [OF assms(1)]) (simp_all add: sget_def fun_eq_iff)
  then show ?thesis using sys_safe_only_callbacks [OF assms(1)] by (simp add: sys_step_def Ev_user)
qed

interpretation calm: safe_steps "sys_step une beh" allowed "\<lambda>y. calm_code beh \<and> sys_safe y" for une beh
  by unfold_locales (auto dest: sys_safe_event)

lemma sys_safe_start: "sys_safe (sched_start name u)"
  by (simp add: sys_safe_def sched_start_def shared_safe_def owned_def sget_def hget_def)

section \<open>Safety\<close>

text \<open>What happens outside the workers: callbacks are scheduled, not fibers.\<close>

fun callbacks_event :: "('c, 'u) event \<Rightarrow> bool" where
  "callbacks_event (Ev_schedule (Fib (Some a)) thread) = False"
| "callbacks_event ev = True"

lemma callbacks_allowed: "callbacks_event ev \<Longrightarrow> allowed ev y"
  by (cases ev rule: callbacks_event.cases) (simp_all add: allowed_def)

lemma callbacks_permitted: "list_all callbacks_event evs \<Longrightarrow> permitted allowed step evs y"
  by (induction evs arbitrary: y) (auto simp: callbacks_allowed split: sum.split)

text \<open>C3. With any number of workers and in every interleaving: when the code yields by the two yield functions and
  schedules callbacks, and fibers on hold are scheduled again only when neither the queue nor a worker has them, then no
  step ever faults, every fiber is in one place at a time, and a worker inside a fiber is the only one that has it.\<close>

theorem calm_runs_safe:
  assumes "calm_code beh" "permitted allowed (sys_step une beh) evs (sched_start name u)"
  shows "\<exists>y. run_events une beh evs (sched_start name u) = Inr y \<and> distinct (owned y) \<and>
    (\<forall>w\<in>set (y_workers y). \<forall>ro a. pc_in (wk_pc w) = Some (ro, a) \<longrightarrow> a \<in> set (holds w))"
proof -
  obtain y where y: "run_events une beh evs (sched_start name u) = Inr y" "sys_safe y"
    using calm.run_safe [OF assms(2)] assms(1) sys_safe_start [of name u] by (auto simp: run_events_def)
  have "a \<in> set (holds w)" if "w \<in> set (y_workers y)" "pc_in (wk_pc w) = Some (ro, a)" for w ro a
  proof -
    have "pc_safe (wk_pc w) (y_sched y) w" using y(2) that(1) by (simp add: sys_safe_def)
    then show ?thesis using that(2) by (cases "wk_pc w"; cases ro) (auto simp: holds_iff inside_def)
  qed
  then show ?thesis using y by (auto simp: sys_safe_def)
qed

definition held_beh :: "(nat, unit) behaviour" where
  "held_beh c u = (if c = 0 then ([], Yields HOLD 1, u) else ([], Ends Returned, u))"

text \<open>A fiber goes on hold on one worker; it is scheduled again, and the other worker goes on with it.\<close>

definition held_events :: "(nat, unit) event list" where
  "held_events = [Ev_thread 11, Ev_thread 12, Ev_started, Ev_schedule (Cb (Some 0)) 11] @ replicate 10 (Ev_step 0) @
     [Ev_schedule (Fib (Some 1)) 12] @ replicate 4 (Ev_step 1)"

lemma held_calm: "permitted allowed (sys_step True held_beh) held_events (sched_start ''s'' ())"
  by (simp add: held_events_def numeral_eq_Suc sched_start_def allowed_def owned_def holds_def sched_defs scan.simps held_beh_def)

theorem calm_runs_safe_witness:
  "\<exists>y. run_events True held_beh held_events (sched_start ''s'' ()) = Inr y \<and> distinct (owned y) \<and>
     wk_pc (y_workers y ! 1) = P_run Of_task 1 (User 1) \<and> 1 \<in> set (holds (y_workers y ! 1))"
proof -
  have "calm_code held_beh" by (auto simp: calm_code_def held_beh_def split: if_splits)
  note safe = calm_runs_safe [OF this held_calm]
  have "\<exists>y. run_events True held_beh held_events (sched_start ''s'' ()) = Inr y \<and> length (y_workers y) = 2 \<and>
     wk_pc (y_workers y ! 1) = P_run Of_task 1 (User 1)"
    by (simp add: run_events_def held_events_def numeral_eq_Suc sched_start_def sched_defs scan.simps held_beh_def)
  then obtain y where y: "run_events True held_beh held_events (sched_start ''s'' ()) = Inr y" "length (y_workers y) = 2"
     "wk_pc (y_workers y ! 1) = P_run Of_task 1 (User 1)" by blast
  have "y_workers y ! 1 \<in> set (y_workers y)" using y(2) by (intro nth_mem) simp
  then show ?thesis using safe y by fastforce
qed

end
