(* ===== verification/SchedulerBag.thy ===== *)
theory SchedulerBag
  imports SchedulerSafety "HOL-Library.Multiset"
begin

text \<open>
  What any number of workers do together.  The abstract machine has a bag of pieces of code; a step
  takes any piece from the bag, runs it on whatever data it finds, and puts back what it
  schedules and what it goes on with.  The scheduler, in every interleaving of its workers and of
  changes of the user's data, does steps of this machine: no piece is lost and none is run twice.
\<close>

section \<open>The bag machine\<close>

text \<open>What one run leaves to be done: the callbacks it schedules, and its own continuation when it
  yields to \<open>READY\<close>.\<close>

fun request_bag :: "'c request \<Rightarrow> 'c multiset" where
  "request_bag (Req (Cb (Some c)) thread) = {#c#}"
| "request_bag (Req fc thread) = {#}"
| "request_bag (Req_self thread) = {#}"

fun continuation :: "'c outcome \<Rightarrow> 'c multiset" where
  "continuation (Yields READY k) = {#k#}"
| "continuation out = {#}"

definition left_by :: "'c request list \<Rightarrow> 'c outcome \<Rightarrow> 'c multiset" where
  "left_by reqs out = \<Sum>\<^sub># (image_mset request_bag (mset reqs)) + continuation out"

text \<open>A run of a piece: the piece, what it scheduled, and how it ended.\<close>

type_synonym 'c piece_run = "'c \<times> 'c request list \<times> 'c outcome"

definition left_all :: "'c piece_run list \<Rightarrow> 'c multiset" where
  "left_all trace = \<Sum>\<^sub># (image_mset (\<lambda>(c, reqs, out). left_by reqs out) (mset trace))"

text \<open>
  \<open>bag_run beh A trace B\<close>: the pieces \<open>A\<close> came from outside, the runs of \<open>trace\<close> have been begun in
  this order, each on some data, and \<open>B\<close> is what is left to do.
\<close>

inductive bag_run :: "('c, 'u) behaviour \<Rightarrow> 'c multiset \<Rightarrow> 'c piece_run list \<Rightarrow> 'c multiset \<Rightarrow> bool"
  for beh where
  bag_start: "bag_run beh {#} [] {#}"
| bag_arrive: "bag_run beh A trace B \<Longrightarrow> bag_run beh (add_mset c A) trace (add_mset c B)"
| bag_step: "bag_run beh A trace B \<Longrightarrow> c \<in># B \<Longrightarrow> beh c u = (reqs, out, u') \<Longrightarrow>
    bag_run beh A (trace @ [(c, reqs, out)]) (B - {#c#} + left_by reqs out)"

text \<open>Nothing is lost and nothing is run twice.\<close>

lemma bag_run_conserves: "bag_run beh A trace B \<Longrightarrow> mset (map fst trace) + B = A + left_all trace"
proof (induction rule: bag_run.induct)
  case (bag_step A trace B c u reqs out u')
  obtain B' where B: "B = add_mset c B'" using multi_member_split [OF bag_step.hyps(2)] by blast
  show ?case using bag_step.IH by (simp add: B left_all_def union_assoc [symmetric])
qed (simp_all add: left_all_def)

text \<open>The runs the workers begin in the course of some events.\<close>

fun runs_now :: "('c, 'u) behaviour \<Rightarrow> 'u \<Rightarrow> 'c worker_pc \<Rightarrow> 'c piece_run list" where
  "runs_now beh u (P_run r a (User c)) = (case beh c u of (reqs, out, u') \<Rightarrow> [(c, reqs, out)])"
| "runs_now beh u pc = []"

fun runs_at :: "('c, 'u) behaviour \<Rightarrow> ('c, 'u) event \<Rightarrow> ('c, 'u) sched_sys \<Rightarrow> 'c piece_run list" where
  "runs_at beh (Ev_step i) y =
     (if i < length (y_workers y) then runs_now beh (s_user (y_sched y)) (wk_pc (y_workers y ! i)) else [])"
| "runs_at beh ev y = []"

fun pieces_run :: "bool \<Rightarrow> ('c, 'u) behaviour \<Rightarrow> ('c, 'u) event list \<Rightarrow> ('c, 'u) sched_sys \<Rightarrow> 'c piece_run list" where
  "pieces_run une beh [] y = []"
| "pieces_run une beh (ev # evs) y =
     runs_at beh ev y @ (case sys_step une beh ev y of Inl e \<Rightarrow> [] | Inr y' \<Rightarrow> pieces_run une beh evs y')"

section \<open>The bag of a scheduler\<close>

fun body_code :: "'c body \<Rightarrow> 'c multiset" where
  "body_code (User c) = {#c#}"
| "body_code (Idle x) = {#}"

definition opt_code :: "'c body option \<Rightarrow> 'c multiset" where
  "opt_code b = (case b of None \<Rightarrow> {#} | Some x \<Rightarrow> body_code x)"

text \<open>What a fiber does when it is resumed.\<close>

definition fiber_code :: "'c body fiber \<Rightarrow> 'c multiset" where
  "fiber_code f = (case fb_ctx f of Ctx_user fr b \<Rightarrow> body_code b | Ctx_entry e \<Rightarrow> opt_code (fb_cb f) | _ \<Rightarrow> {#})"

text \<open>A task is its fiber, unless that has finished, or its callback.\<close>

definition task_bag :: "('c, 'u) sched \<Rightarrow> 'c task \<Rightarrow> 'c multiset" where
  "task_bag s t = (case tk_fiber t of None \<Rightarrow> opt_code (tk_cb t)
     | Some a \<Rightarrow> (case sget s a of None \<Rightarrow> {#} | Some f \<Rightarrow> if finished f then opt_code (tk_cb t) else fiber_code f))"

fun out_code :: "'c body outcome \<Rightarrow> 'c multiset" where
  "out_code (Yields READY b) = body_code b"
| "out_code out = {#}"

definition rest_of :: "('c, 'u) sched \<Rightarrow> addr \<Rightarrow> 'c multiset" where
  "rest_of s a = (case sget s a of None \<Rightarrow> {#} | Some f \<Rightarrow> fiber_code f)"

definition ready_rest :: "('c, 'u) sched \<Rightarrow> addr \<Rightarrow> 'c multiset" where
  "ready_rest s a = (case sget s a of None \<Rightarrow> {#} | Some f \<Rightarrow> if fb_state f = READY then fiber_code f else {#})"

definition requests_bag :: "'c request list \<Rightarrow> 'c multiset" where
  "requests_bag reqs = \<Sum>\<^sub># (image_mset request_bag (mset reqs))"

fun pc_bag :: "('c, 'u) sched \<Rightarrow> 'c worker_pc \<Rightarrow> 'c multiset" where
  "pc_bag s (P_dispatch ft ia) = task_bag s ft"
| "pc_bag s (P_enter r a) = rest_of s a"
| "pc_bag s (P_run r a b) = body_code b"
| "pc_bag s (P_request r a q qs out) = requests_bag (q # qs) + out_code out"
| "pc_bag s (P_yield r a out) = out_code out"
| "pc_bag s (P_save r a out) = out_code out"
| "pc_bag s (P_after r a) = ready_rest s a"
| "pc_bag s (P_settle r a) = ready_rest s a"
| "pc_bag s (P_close r a cl) = (if cl = Cl_schedule then rest_of s a else {#})"
| "pc_bag s _ = {#}"

lemma requesting_bag: "pc_bag s (requesting r a reqs out) = requests_bag reqs + out_code out"
  by (cases reqs) (simp_all add: requests_bag_def)

definition tasks_bag :: "('c, 'u) sched \<Rightarrow> 'c multiset" where
  "tasks_bag s = \<Sum>\<^sub># (image_mset (task_bag s) (mset (s_tasks s)))"

definition sys_bag :: "('c, 'u) sched_sys \<Rightarrow> 'c multiset" where
  "sys_bag y = tasks_bag (y_sched y) + \<Sum>\<^sub># (image_mset (\<lambda>w. pc_bag (y_sched y) (wk_pc w)) (mset (y_workers y)))"

section \<open>Frames\<close>

lemma task_bag_cong: "(\<And>a. tk_fiber t = Some a \<Longrightarrow> sget s' a = sget s a) \<Longrightarrow> task_bag s' t = task_bag s t"
  by (simp add: task_bag_def split: option.split)

lemma tasks_bag_cong:
  assumes "s_tasks s' = s_tasks s" "\<forall>a\<in>set (task_fibers (s_tasks s)). sget s' a = sget s a"
  shows "tasks_bag s' = tasks_bag s"
proof -
  have "task_bag s' t = task_bag s t" if "t \<in> set (s_tasks s)" for t
    by (rule task_bag_cong) (use assms(2) that in \<open>auto simp: in_task_fibers\<close>)
  then show ?thesis unfolding tasks_bag_def assms(1) by (intro arg_cong [where f = sum_mset] image_mset_cong) simp
qed

lemma rest_cong: "sget s' a = sget s a \<Longrightarrow> rest_of s' a = rest_of s a" "sget s' a = sget s a \<Longrightarrow> ready_rest s' a = ready_rest s a"
  by (simp_all add: rest_of_def ready_rest_def)

lemma pc_bag_cong:
  assumes "pc_safe (wk_pc w) s w" "\<forall>a\<in>set (holds w). sget s' a = sget s a"
  shows "pc_bag s' (wk_pc w) = pc_bag s (wk_pc w)"
proof -
  have own: "sget s' a = sget s a" if "pc_in (wk_pc w) = Some (r, a)" "inside r a P s w" for r a P
  proof -
    have "a \<in> set (holds w)" using that task_fiber_in [OF that(1)]
      by (cases r; cases "wk_pc w") (auto simp: holds_iff inside_def)
    then show ?thesis using assms(2) by blast
  qed
  show ?thesis
  proof (cases "wk_pc w")
    case (P_dispatch ft ia)
    have "sget s' a = sget s a" if "tk_fiber ft = Some a" for a
      using assms(2) that by (simp add: holds_iff P_dispatch)
    then show ?thesis unfolding P_dispatch pc_bag.simps by (rule task_bag_cong)
  qed (use assms(1) own rest_cong [of s' _ s] in simp_all)
qed

lemma idle_fit_code: "idle_fit f \<Longrightarrow> fb_state f \<noteq> TERM' \<Longrightarrow> fiber_code f = {#}"
  by (auto simp: idle_fit_def fiber_code_def opt_code_def split: ctx.split)

section \<open>Steps that keep the bag\<close>

lemma tasks_bag_sset:
  "sget s a = Some f \<Longrightarrow> a \<notin> set (task_fibers (s_tasks s)) \<Longrightarrow> tasks_bag (sset a g s) = tasks_bag s"
  by (intro tasks_bag_cong) auto

definition keeps_bag :: "('c, 'u) sched \<Rightarrow> 'c worker_pc \<Rightarrow> ('c, 'u) sched \<Rightarrow> 'c worker_pc \<Rightarrow> bool" where
  "keeps_bag s pc s' pc' \<longleftrightarrow> tasks_bag s' + pc_bag s' pc' = tasks_bag s + pc_bag s pc"

lemma task_fiber_known: "shared_safe s \<Longrightarrow> a \<in> set (task_fibers (s_tasks s)) \<Longrightarrow> sget s a \<noteq> None"
  unfolding in_task_fibers shared_safe_def task_safe_def by fastforce

lemma start_bag:
  assumes "worker_safe rest s w" "wk_pc w = P_start" "worker_step une beh w s = Inr (w', s')"
  shows "keeps_bag s (wk_pc w) s' (wk_pc w')"
proof -
  let ?l = "slog DEBUG (s_name s @ '' run'') s"
  obtain a s1 where n: "snew (Idle False) ?l = (a, s1)" by (cases "snew (Idle False) ?l")
  note e = snew_effect [OF n]
  have r: "w' = goto P_scan (w\<lparr>wk_idle := a, wk_cb := None\<rparr>)" "s' = s1"
    using assms(3) by (simp_all add: worker_step_def assms(2) n)
  have "tasks_bag s1 = tasks_bag s"
  proof (rule tasks_bag_cong)
    show "\<forall>b\<in>set (task_fibers (s_tasks s)). sget s1 b = sget s b"
    proof
      fix b assume "b \<in> set (task_fibers (s_tasks s))"
      then have "b \<noteq> a" using assms(1) e(1) task_fiber_known [of s b] by (auto simp: worker_safe_def)
      then show "sget s1 b = sget s b" using e(3) [of b] by simp
    qed
  qed (simp add: e(4))
  then show ?thesis by (simp add: keeps_bag_def r assms(2))
qed

lemma scan_bag:
  assumes "worker_safe rest s w" "wk_pc w = P_scan" "worker_step une beh w s = Inr (w', s')"
  shows "keeps_bag s (wk_pc w) s' (wk_pc w')"
proof -
  have valid: "\<forall>t\<in>set (s_tasks s). valid_task s t" using assms(1) by (simp add: worker_safe_def valid_tasks)
  from scan_spec_from [OF valid, of 0 "wk_tid w" une False] consider
      (taken) pre t post tick where "s_tasks s = pre @ t # post"
        "scan une (wk_tid w) 0 False s = Inr (\<lparr>sc_ft = t, sc_tickle = tick, sc_active = True\<rparr>,
          s\<lparr>s_tasks := pre @ post, s_active := s_active s + 1\<rparr>)"
    | (none) tick where "scan une (wk_tid w) 0 False s = Inr (\<lparr>sc_ft = empty_task, sc_tickle = tick, sc_active = False\<rparr>, s)"
    by auto
  then show ?thesis
  proof cases
    case taken
    have s': "s_tasks s' = pre @ post" "wk_pc w' = P_dispatch t True"
      using assms(3) by (auto simp: worker_step_def assms(2) taken(2))
    have "sget s' = sget s" using assms(3) by (auto simp: worker_step_def assms(2) taken(2))
    then have "task_bag s' = task_bag s" by (intro ext task_bag_cong) simp
    then show ?thesis by (simp add: keeps_bag_def assms(2) s' tasks_bag_def taken(1) add_ac)
  next
    case none
    have s': "s_tasks s' = s_tasks s" "wk_pc w' = P_dispatch empty_task False"
      using assms(3) by (auto simp: worker_step_def assms(2) none)
    have "sget s' = sget s" using assms(3) by (auto simp: worker_step_def assms(2) none)
    then have "task_bag s' = task_bag s" by (intro ext task_bag_cong) simp
    moreover have "task_bag s empty_task = {#}" by (simp add: task_bag_def empty_task_def opt_code_def)
    ultimately show ?thesis by (simp add: keeps_bag_def assms(2) s' tasks_bag_def)
  qed
qed

lemma same_bag:
  assumes "\<forall>b\<in>set (task_fibers (s_tasks s)). sget s' b = sget s b" "s_tasks s' = s_tasks s"
    and "pc_bag s' pc' = pc_bag s pc"
  shows "keeps_bag s pc s' pc'"
  using assms(3) tasks_bag_cong [OF assms(2,1)] by (simp add: keeps_bag_def)

lemma yield_bag:
  assumes "worker_safe rest s w" "wk_pc w = P_yield r a out" "worker_step une beh w s = Inr (w', s')"
  shows "keeps_bag s (wk_pc w) s' (wk_pc w')"
proof -
  have i: "inside r a (\<lambda>f. fb_state f = EXEC) s w" using assms(1,2) by (simp add: worker_safe_def)
  then obtain f where f: "sget s a = Some f" by (auto simp: inside_def)
  note own = own_fiber(5) [OF assms(1) _ i, unfolded assms(2), simplified]
  obtain g where "set_yield a out s = Inr (sset a g s)" "s' = sset a g s" "w' = goto (P_save r a out) w"
    using assms(3) f by (auto simp: worker_step_def assms(2) set_yield_def check_def split: outcome.splits ending.splits if_splits)
  then show ?thesis using f own by (intro same_bag) (auto simp: assms(2))
qed

lemma save_bag:
  assumes "worker_safe rest s w" "wk_pc w = P_save r a out" "worker_step une beh w s = Inr (w', s')"
  shows "keeps_bag s (wk_pc w) s' (wk_pc w')"
proof -
  have i: "inside r a (\<lambda>f. yielded out (fb_state f)) s w" and c: "calm_body_outcome r out"
    using assms(1,2) by (simp_all add: worker_safe_def)
  then obtain f where f: "sget s a = Some f" "yielded out (fb_state f)" by (auto simp: inside_def)
  note own = own_fiber(5) [OF assms(1) _ i, unfolded assms(2), simplified]
  let ?g = "f\<lparr>fb_ctx := (case out of Yields st k \<Rightarrow> Ctx_user (Body MainFunc a) k | Ends e \<Rightarrow> Ctx_end MainFunc a)\<rparr>"
  have s': "s' = sset a ?g s" "w' = goto (P_after r a) w"
    using assms(3) f(1) by (auto simp: worker_step_def assms(2) save_ctx_def)
  have "pc_bag s' (P_after r a) = out_code out"
    using f c by (cases "(out, fb_state f)" rule: yielded.cases) (auto simp: s' fiber_code_def ready_rest_def)
  then show ?thesis using f(1) own by (intro same_bag) (auto simp: assms(2) s')
qed

lemma counters_bag:
  "pc_bag (s\<lparr>s_active := n\<rparr>) = pc_bag s" "pc_bag (s\<lparr>s_idle := n\<rparr>) = pc_bag s" "pc_bag (s\<lparr>s_user := u\<rparr>) = pc_bag s"
  "tasks_bag (s\<lparr>s_active := n\<rparr>) = tasks_bag s" "tasks_bag (s\<lparr>s_idle := n\<rparr>) = tasks_bag s" "tasks_bag (s\<lparr>s_user := u\<rparr>) = tasks_bag s"
proof -
  have b: "task_bag (s\<lparr>s_active := n\<rparr>) t = task_bag s t" "task_bag (s\<lparr>s_idle := n\<rparr>) t = task_bag s t"
    "task_bag (s\<lparr>s_user := u\<rparr>) t = task_bag s t" for t
    by (rule task_bag_cong; simp)+
  show "pc_bag (s\<lparr>s_active := n\<rparr>) = pc_bag s" "pc_bag (s\<lparr>s_idle := n\<rparr>) = pc_bag s" "pc_bag (s\<lparr>s_user := u\<rparr>) = pc_bag s"
    by (rule ext, rename_tac pc, case_tac pc; simp add: b rest_of_def ready_rest_def)+
  show "tasks_bag (s\<lparr>s_active := n\<rparr>) = tasks_bag s" "tasks_bag (s\<lparr>s_idle := n\<rparr>) = tasks_bag s" "tasks_bag (s\<lparr>s_user := u\<rparr>) = tasks_bag s"
    by (rule tasks_bag_cong; simp)+
qed

lemma after_bag:
  assumes "wk_pc w = P_after r a" "worker_step une beh w s = Inr (w', s')"
  shows "keeps_bag s (wk_pc w) s' (wk_pc w')"
  using assms counters_bag by (auto simp: worker_step_def after_swap_def keeps_bag_def ready_rest_def)

lemma settle_bag:
  assumes "worker_safe rest s w" "wk_pc w = P_settle r a" "worker_step une beh w s = Inr (w', s')"
  shows "keeps_bag s (wk_pc w) s' (wk_pc w')"
proof -
  have i: "inside r a (\<lambda>f. fb_state f \<noteq> EXEC) s w" using assms by (simp add: worker_safe_def)
  then obtain f where f: "sget s a = Some f" "r = Of_idle \<longrightarrow> idle_fit f" by (auto simp: inside_def)
  have "s' = s" "pc_bag s (wk_pc w') = ready_rest s a"
    using assms(3) f idle_fit_code [of f]
    by (auto simp: worker_step_def assms(2) settle_def Let_def ready_rest_def rest_of_def split: if_splits)
  then show ?thesis by (simp add: keeps_bag_def assms(2))
qed

lemma schedule_Fib_bag:
  assumes "sget s a = Some f" "\<not> finished f"
  shows "tasks_bag (schedule (Fib (Some a)) thread s) = tasks_bag s + fiber_code f"
proof -
  let ?t = "\<lparr>tk_fiber = Some a, tk_cb = None, tk_thread = thread\<rparr>"
  obtain log where l: "schedule (Fib (Some a)) thread s = s\<lparr>s_tasks := s_tasks s @ [?t], s_log := log\<rparr>" using schedule_Fib by blast
  have "task_bag (s\<lparr>s_tasks := s_tasks s @ [?t], s_log := log\<rparr>) = task_bag s" by (intro ext task_bag_cong) (simp add: sget_def)
  moreover have "task_bag s ?t = fiber_code f" using assms by (simp add: task_bag_def)
  ultimately show ?thesis by (simp add: tasks_bag_def l)
qed

lemma close_bag:
  assumes "worker_safe rest s w" "wk_pc w = P_close r a cl" "worker_step une beh w s = Inr (w', s')"
  shows "keeps_bag s (wk_pc w) s' (wk_pc w')"
proof -
  have i: "inside r a (\<lambda>f. fb_state f \<noteq> EXEC \<and> closes r cl f) s w" using assms by (simp add: worker_safe_def)
  then obtain f where f: "sget s a = Some f" "closes r cl f" by (auto simp: inside_def)
  note own = own_fiber(5) [OF assms(1) _ i, unfolded assms(2), simplified]
  have step: "close r a cl w s = Inr (w', s')" using assms(3) by (simp add: worker_step_def assms(2))
  then have pc': "wk_pc w' = P_scan" using counters_close by blast
  show ?thesis
  proof (cases "cl = Cl_schedule")
    case True
    then have "\<not> finished f" "s' = schedule (Fib (Some a)) (- 1) s" using f(2) step by (auto simp: finished_def close_def)
    then show ?thesis using f(1) True by (simp add: keeps_bag_def assms(2) pc' schedule_Fib_bag rest_of_def)
  next
    case False
    then obtain g where "s' = sset a g s" using step f(1)
      by (cases cl) (auto simp: close_def Let_def sreset_def check_def split: if_splits)
    then show ?thesis using False f(1) own by (simp add: keeps_bag_def assms(2) pc' tasks_bag_sset)
  qed
qed

lemma enter_bag:
  assumes "worker_safe rest s w" "wk_pc w = P_enter r a" "worker_step une beh w s = Inr (w', s')"
  shows "keeps_bag s (wk_pc w) s' (wk_pc w')"
proof -
  have i: "inside r a (\<lambda>f. fb_state f \<noteq> EXEC \<and> \<not> finished f) s w" using assms by (simp add: worker_safe_def)
  then obtain f where f: "sget s a = Some f" by (auto simp: inside_def)
  note own = own_fiber(5) [OF assms(1) _ i, unfolded assms(2), simplified]
  have "tasks_bag s' = tasks_bag s" "pc_bag s' (wk_pc w') = fiber_code f"
    using assms(3) f tasks_bag_sset [OF f own]
    by (auto simp: worker_step_def assms(2) sswapIn_def sresume_def check_def fiber_code_def opt_code_def
      split: if_splits ctx.splits option.splits)
  then show ?thesis using f by (simp add: keeps_bag_def assms(2) rest_of_def)
qed

lemma dispatch_bag:
  assumes "worker_safe rest s w" "wk_pc w = P_dispatch ft ia" "worker_step une beh w s = Inr (w', s')"
  shows "keeps_bag s (wk_pc w) s' (wk_pc w')"
proof -
  have p: "idle_rests s w" "cb_rests s w" "shared_safe s"
    "\<forall>a. tk_fiber ft = Some a \<longrightarrow> (\<exists>f. sget s a = Some f \<and> fb_state f \<noteq> EXEC)"
    using assms by (simp_all add: worker_safe_def)
  have d: "distinct (task_fibers (s_tasks s) @ holds w @ rest)" using assms(1) by (simp add: worker_safe_def)
  have own: "b \<notin> set (task_fibers (s_tasks s))" if "b \<in> set (holds w)" for b using d that by auto
  obtain fi where fi: "sget s (wk_idle w) = Some fi" "idle_fit fi" using p(1) by (auto simp: idle_rests_def)
  have idle: "tasks_bag s' + pc_bag s' (wk_pc w') = tasks_bag s" if r: "dispatch_idle ia w s = Inr (w', s')"
  proof -
    have "s_tasks s' = s_tasks s" "\<forall>b. sget s' b = sget s b" "pc_bag s' (wk_pc w') = {#}"
      using r fi idle_fit_code [OF fi(2)] by (auto simp: dispatch_idle_def rest_of_def split: if_splits)
    then show ?thesis using tasks_bag_cong [of s' s] by simp
  qed
  have cb: "tasks_bag s' + pc_bag s' (wk_pc w') = tasks_bag s + body_code b" if r: "dispatch_cb b w s = Inr (w', s')" for b
  proof (cases "wk_cb w")
    case None
    obtain a s1 where n: "snew b s = (a, s1)" by (cases "snew b s")
    note e = snew_effect [OF n]
    have a: "a \<notin> set (task_fibers (s_tasks s))" using task_fiber_known [OF p(3)] e(1) by blast
    have "tasks_bag s1 = tasks_bag s" by (intro tasks_bag_cong e(4) ballI) (metis a e(3))
    then show ?thesis using r None n e(2) by (auto simp: dispatch_cb_def rest_of_def fiber_code_def opt_code_def)
  next
    case (Some a)
    then obtain f where f: "sget s a = Some f" "fb_state f = INIT" using p(2) by (auto simp: cb_rests_def)
    have a: "a \<notin> set (task_fibers (s_tasks s))" using own by (simp add: holds_iff assms(2) Some)
    show ?thesis using r f(1) Some tasks_bag_sset [OF f(1) a]
      by (auto simp: dispatch_cb_def rest_of_def fiber_code_def opt_code_def sreset_def check_def split: if_splits)
  qed
  have task: "tasks_bag s' + pc_bag s' (wk_pc w') = tasks_bag s + fiber_code f"
    if "dispatch_fiber a w s = Inr (w', s')" "sget s a = Some f" for a f
    using that by (auto simp: dispatch_fiber_def rest_of_def)
  have step: "dispatch ft ia w s = Inr (w', s')" using assms(3) by (simp add: worker_step_def assms(2))
  have other: "tasks_bag s' + pc_bag s' (wk_pc w') = tasks_bag s + opt_code (tk_cb ft)"
    if "(case tk_cb ft of Some b \<Rightarrow> dispatch_cb b w s | None \<Rightarrow> dispatch_idle ia w s) = Inr (w', s')"
    using that idle cb by (auto simp: opt_code_def split: option.splits)
  show ?thesis
  proof (cases "tk_fiber ft")
    case None
    then show ?thesis using step other by (simp add: dispatch_def keeps_bag_def assms(2) task_bag_def)
  next
    case (Some a)
    then obtain f where "sget s a = Some f" using p(4) by blast
    then show ?thesis using step other task Some
      by (auto simp: dispatch_def Let_def keeps_bag_def assms(2) task_bag_def finished_def split: if_splits)
  qed
qed

section \<open>Running a piece\<close>

lemma schedule_Cb_bag:
  "tasks_bag (schedule (Cb c) thread s) = tasks_bag s + (case c of None \<Rightarrow> {#} | Some d \<Rightarrow> {#d#})"
proof -
  let ?ts = "case c of None \<Rightarrow> [] | Some d \<Rightarrow> [cb_task thread d]"
  obtain log where l: "schedule (Cb c) thread s = s\<lparr>s_tasks := s_tasks s @ ?ts, s_log := log\<rparr>" using schedule_Cb by blast
  have "task_bag (s\<lparr>s_tasks := s_tasks s @ ?ts, s_log := log\<rparr>) = task_bag s"
    by (intro ext task_bag_cong) (simp add: sget_def)
  then show ?thesis unfolding l
    by (simp add: tasks_bag_def) (simp add: task_bag_def cb_task_def opt_code_def split: option.split)
qed

lemma schedule_null_bag: "tasks_bag (schedule (Fib None) thread s) = tasks_bag s"
  by (rule tasks_bag_cong)
    (simp_all add: schedule_def scheduleNoLock_def push_task_def Let_def sget_def tickle_def slog_def)

lemma request_adds:
  assumes "calm_request r"
  shows "tasks_bag (do_request a r s) = tasks_bag s + request_bag r"
  using assms by (cases r rule: calm_request.cases)
    (auto simp: schedule_Cb_bag schedule_null_bag split: option.split)

lemma call_bag:
  assumes "worker_safe rest s w" "wk_pc w = P_request r a q qs out" "worker_step une beh w s = Inr (w', s')"
  shows "keeps_bag s (wk_pc w) s' (wk_pc w')"
proof -
  have "calm_request q" using assms(1,2) by (simp add: worker_safe_def)
  then show ?thesis using assms(3)
    by (auto simp: worker_step_def assms(2) keeps_bag_def request_adds requesting_bag requests_bag_def add_ac)
qed

lemma run_bag:
  assumes "calm_code beh" "wk_pc w = P_run r a (User c)" "worker_step une beh w s = Inr (w', s')" "beh c (s_user s) = (reqs, out, u)"
  shows "tasks_bag s' + pc_bag s' (wk_pc w') = tasks_bag s + left_by reqs out"
proof -
  have "calm_outcome out" using assms(1,4) unfolding calm_code_def by blast
  then show ?thesis using assms(3)
    by (cases out rule: continuation.cases)
      (auto simp: worker_step_def assms(2,4) lift_outcome_def left_by_def requesting_bag requests_bag_def counters_bag)
qed

lemma idle_bag:
  assumes "wk_pc w = P_run r a (Idle x)" "worker_step une beh w s = Inr (w', s')"
  shows "keeps_bag s (wk_pc w) s' (wk_pc w')"
  by (rule same_bag) (use assms in \<open>auto simp: worker_step_def split: if_splits\<close>)

lemma drop_bag: "wk_pc w = P_drop \<Longrightarrow> worker_step une beh w s = Inr (w', s') \<Longrightarrow> keeps_bag s (wk_pc w) s' (wk_pc w')"
  by (auto simp: worker_step_def keeps_bag_def counters_bag)

section \<open>All the workers\<close>

lemma worker_step_bag:
  assumes "worker_safe rest s w" "worker_step une beh w s = Inr (w', s')" "\<And>r a c. wk_pc w \<noteq> P_run r a (User c)"
  shows "keeps_bag s (wk_pc w) s' (wk_pc w')"
proof (cases "wk_pc w")
  case (P_run r a b)
  then obtain x where "b = Idle x" using assms(3) by (cases b) auto
  then show ?thesis using idle_bag [OF _ assms(2)] P_run by blast
next
  case P_done
  then show ?thesis using assms(2) by (simp add: worker_step_def keeps_bag_def)
qed (use assms(2) start_bag [OF assms(1)] scan_bag [OF assms(1)] dispatch_bag [OF assms(1)] yield_bag [OF assms(1)]
    save_bag [OF assms(1)] after_bag [OF _ assms(2)] drop_bag [OF _ assms(2)] enter_bag [OF assms(1)] call_bag [OF assms(1)] settle_bag [OF assms(1)]
    close_bag [OF assms(1)] in \<open>simp_all del: pc_bag.simps\<close>)

definition workers_bag :: "('c, 'u) sched \<Rightarrow> 'c worker list \<Rightarrow> 'c multiset" where
  "workers_bag s ws = \<Sum>\<^sub># (image_mset (\<lambda>w. pc_bag s (wk_pc w)) (mset ws))"

lemma workers_bag_frame:
  assumes "\<And>w. w \<in> set ws \<Longrightarrow> pc_safe (wk_pc w) s w" "\<And>w. w \<in> set ws \<Longrightarrow> \<forall>a\<in>set (holds w). sget s' a = sget s a"
  shows "workers_bag s' ws = workers_bag s ws"
  unfolding workers_bag_def
proof (intro arg_cong [where f = sum_mset] image_mset_cong)
  fix w assume "w \<in># mset ws"
  then show "pc_bag s' (wk_pc w) = pc_bag s (wk_pc w)"
    by (intro pc_bag_cong) (use assms in auto)
qed

lemma sys_bag_worker:
  assumes "i < length (y_workers y)"
  shows "sys_bag (y\<lparr>y_sched := s', y_workers := (y_workers y)[i := w']\<rparr>) =
      tasks_bag s' + pc_bag s' (wk_pc w') + workers_bag s' (others (y_workers y) i)"
    "sys_bag y = tasks_bag (y_sched y) + pc_bag (y_sched y) (wk_pc (y_workers y ! i)) + workers_bag (y_sched y) (others (y_workers y) i)"
proof -
  show "sys_bag (y\<lparr>y_sched := s', y_workers := (y_workers y)[i := w']\<rparr>) =
      tasks_bag s' + pc_bag s' (wk_pc w') + workers_bag s' (others (y_workers y) i)"
    using assms by (simp add: sys_bag_def workers_bag_def others_def upd_conv_take_nth_drop add_ac)
  show "sys_bag y = tasks_bag (y_sched y) + pc_bag (y_sched y) (wk_pc (y_workers y ! i)) + workers_bag (y_sched y) (others (y_workers y) i)"
    unfolding sys_bag_def workers_bag_def others_def by (subst id_take_nth_drop [OF assms]) (simp add: add_ac)
qed

text \<open>The bag after the step of a worker: a piece less and what it leaves, or the same.\<close>

lemma sys_step_bags:
  assumes "sys_safe y" "i < length (y_workers y)" "calm_code beh" "worker_step une beh (y_workers y ! i) (y_sched y) = Inr (w', s')"
    and "\<And>v. v \<in> set (others (y_workers y) i) \<Longrightarrow> \<forall>a\<in>set (holds v). sget s' a = sget (y_sched y) a"
  obtains M where
    "sys_bag y = tasks_bag (y_sched y) + pc_bag (y_sched y) (wk_pc (y_workers y ! i)) + M"
    "sys_bag (y\<lparr>y_sched := s', y_workers := (y_workers y)[i := w']\<rparr>) = tasks_bag s' + pc_bag s' (wk_pc w') + M"
proof (rule that)
  have "workers_bag s' (others (y_workers y) i) = workers_bag (y_sched y) (others (y_workers y) i)"
    by (rule workers_bag_frame [OF sys_worker(2) [OF assms(1,2)] assms(5)])
  then show "sys_bag (y\<lparr>y_sched := s', y_workers := (y_workers y)[i := w']\<rparr>) =
      tasks_bag s' + pc_bag s' (wk_pc w') + workers_bag (y_sched y) (others (y_workers y) i)"
    using sys_bag_worker(1) [OF assms(2), of w' s'] by simp
qed (rule sys_bag_worker(2) [OF assms(2)])

lemma sys_step_runs:
  assumes "sys_safe y" "i < length (y_workers y)" "calm_code beh" "worker_step une beh (y_workers y ! i) (y_sched y) = Inr (w', s')"
    and "\<And>v. v \<in> set (others (y_workers y) i) \<Longrightarrow> \<forall>a\<in>set (holds v). sget s' a = sget (y_sched y) a"
    and "wk_pc (y_workers y ! i) = P_run r a (User c)" "beh c (s_user (y_sched y)) = (reqs, out, u)"
  shows "c \<in># sys_bag y"
    "sys_bag (y\<lparr>y_sched := s', y_workers := (y_workers y)[i := w']\<rparr>) = sys_bag y - {#c#} + left_by reqs out"
proof -
  obtain M where M: "sys_bag y = tasks_bag (y_sched y) + pc_bag (y_sched y) (wk_pc (y_workers y ! i)) + M"
    "sys_bag (y\<lparr>y_sched := s', y_workers := (y_workers y)[i := w']\<rparr>) = tasks_bag s' + pc_bag s' (wk_pc w') + M"
    by (rule sys_step_bags [OF assms(1-5)])
  note r = run_bag [OF assms(3,6,4,7)]
  show "c \<in># sys_bag y"
    "sys_bag (y\<lparr>y_sched := s', y_workers := (y_workers y)[i := w']\<rparr>) = sys_bag y - {#c#} + left_by reqs out"
    using r by (simp_all add: M assms(6) add_ac)
qed

lemma sys_step_keeps:
  assumes "sys_safe y" "i < length (y_workers y)" "calm_code beh" "worker_step une beh (y_workers y ! i) (y_sched y) = Inr (w', s')"
    and "\<And>v. v \<in> set (others (y_workers y) i) \<Longrightarrow> \<forall>a\<in>set (holds v). sget s' a = sget (y_sched y) a"
    and "\<And>r a c. wk_pc (y_workers y ! i) \<noteq> P_run r a (User c)"
  shows "sys_bag (y\<lparr>y_sched := s', y_workers := (y_workers y)[i := w']\<rparr>) = sys_bag y"
proof -
  obtain M where M: "sys_bag y = tasks_bag (y_sched y) + pc_bag (y_sched y) (wk_pc (y_workers y ! i)) + M"
    "sys_bag (y\<lparr>y_sched := s', y_workers := (y_workers y)[i := w']\<rparr>) = tasks_bag s' + pc_bag s' (wk_pc w') + M"
    by (rule sys_step_bags [OF assms(1-5)])
  have "keeps_bag (y_sched y) (wk_pc (y_workers y ! i)) s' (wk_pc w')"
    by (rule worker_step_bag [OF sys_worker(1) [OF assms(1,2)] assms(4,6)])
  then show "sys_bag (y\<lparr>y_sched := s', y_workers := (y_workers y)[i := w']\<rparr>) = sys_bag y"
    by (simp add: M keeps_bag_def)
qed

lemma runs_now_none: "(\<And>r a c. pc \<noteq> P_run r a (User c)) \<Longrightarrow> runs_now beh u pc = []"
  by (cases "(beh, u, pc)" rule: runs_now.cases) auto

lemma step_refines:
  assumes "sys_safe y" "calm_code beh" "bag_run beh A trace (sys_bag y)" "sys_step une beh (Ev_step i) y = Inr y'"
  shows "bag_run beh A (trace @ runs_at beh (Ev_step i) y) (sys_bag y')"
proof (cases "i < length (y_workers y)")
  case True
  from sys_step_worker [OF assms(1) True assms(2), of une] obtain w' s' where
    st: "worker_step une beh (y_workers y ! i) (y_sched y) = Inr (w', s')"
      "sys_step une beh (Ev_step i) y = Inr (y\<lparr>y_sched := s', y_workers := (y_workers y)[i := w']\<rparr>)"
      "\<And>v. v \<in> set (others (y_workers y) i) \<Longrightarrow> \<forall>a\<in>set (holds v). sget s' a = sget (y_sched y) a" by blast
  have y': "y' = y\<lparr>y_sched := s', y_workers := (y_workers y)[i := w']\<rparr>" using st(2) assms(4) by simp
  show ?thesis
  proof (cases "\<exists>r a c. wk_pc (y_workers y ! i) = P_run r a (User c)")
    case run: True
    then obtain r a c where pc: "wk_pc (y_workers y ! i) = P_run r a (User c)" by blast
    obtain reqs out u where b: "beh c (s_user (y_sched y)) = (reqs, out, u)" by (cases "beh c (s_user (y_sched y))")
    note s = sys_step_runs [OF assms(1) True assms(2) st(1,3) pc b]
    show ?thesis using bag_step [OF assms(3) s(1) b] s(2) True by (simp add: y' pc b)
  next
    case False
    then show ?thesis using assms(3) sys_step_keeps [OF assms(1) True assms(2) st(1,3)] True by (simp add: runs_now_none y')
  qed
next
  case False
  then show ?thesis using assms(3,4) by (simp add: sys_step_def)
qed

text \<open>What comes from outside.\<close>

fun arrival :: "('c, 'u) event \<Rightarrow> 'c multiset" where
  "arrival (Ev_schedule (Cb (Some c)) thread) = {#c#}"
| "arrival ev = {#}"

definition arrivals :: "('c, 'u) event list \<Rightarrow> 'c multiset" where
  "arrivals evs = \<Sum>\<^sub># (image_mset arrival (mset evs))"

lemma sys_bag_arrive:
  assumes "sget s' = sget (y_sched y)" "tasks_bag s' = tasks_bag (y_sched y) + M"
  shows "sys_bag (y\<lparr>y_sched := s'\<rparr>) = sys_bag y + M"
proof -
  have "pc_bag s' pc = pc_bag (y_sched y) pc" for pc
    using task_bag_cong [of _ s' "y_sched y"] by (cases pc) (simp_all add: assms(1) rest_of_def ready_rest_def)
  then show ?thesis by (simp add: sys_bag_def assms(2) add_ac)
qed

lemma sys_bag_flags: "s_heap s' = s_heap (y_sched y) \<Longrightarrow> s_tasks s' = s_tasks (y_sched y) \<Longrightarrow> sys_bag (y\<lparr>y_sched := s'\<rparr>) = sys_bag y"
  using sys_bag_arrive [of s' y "{#}"] tasks_bag_cong [of s' "y_sched y"] by (simp add: sget_def fun_eq_iff)

lemma event_refines:
  assumes "sys_safe y" "calm_code beh" "bag_run beh A trace (sys_bag y)" "callbacks_event ev" "sys_step une beh ev y = Inr y'"
  shows "bag_run beh (A + arrival ev) (trace @ runs_at beh ev y) (sys_bag y')"
proof (cases ev)
  case (Ev_step i)
  then show ?thesis using step_refines [OF assms(1-3)] assms(5) by simp
next
  case (Ev_schedule fc thread)
  have g: "sget (schedule fc thread (y_sched y)) = sget (y_sched y)" by (intro ext) (simp add: sget_def heap_schedule)
  have t: "tasks_bag (schedule fc thread (y_sched y)) = tasks_bag (y_sched y) + arrival ev"
    using assms(4) by (cases ev rule: callbacks_event.cases)
      (auto simp: Ev_schedule schedule_Cb_bag schedule_null_bag split: option.split)
  have y': "sys_bag y' = sys_bag y + arrival ev"
    using assms(5) sys_bag_arrive [OF g t] by (auto simp: sys_step_def Ev_schedule)
  have "arrival ev = {#} \<or> (\<exists>c. arrival ev = {#c#})" by (cases ev rule: arrival.cases) simp_all
  then show ?thesis using assms(3) bag_arrive [OF assms(3)] by (auto simp: y') (auto simp: Ev_schedule)
next
  case Ev_started
  have "sys_bag y' = sys_bag y" using assms(5) by (auto simp: sys_step_def Ev_started intro: sys_bag_flags)
  then show ?thesis using assms(3) by (simp add: Ev_started)
next
  case Ev_stop
  have "sys_bag y' = sys_bag y" using assms(5) by (auto simp: sys_step_def Ev_stop intro: sys_bag_flags)
  then show ?thesis using assms(3) by (simp add: Ev_stop)
next
  case (Ev_thread tid)
  then show ?thesis using assms(3,5) by (auto simp: sys_step_def sys_bag_def new_worker_def)
next
  case (Ev_user u)
  have "sys_bag y' = sys_bag y" using assms(5) by (auto simp: sys_step_def Ev_user intro: sys_bag_flags)
  then show ?thesis using assms(3) by (simp add: Ev_user)
qed

lemma run_refines:
  assumes "calm_code beh" "sys_safe y" "bag_run beh A trace (sys_bag y)" "list_all callbacks_event evs"
  shows "\<exists>y'. run_events une beh evs y = Inr y' \<and> sys_safe y' \<and> bag_run beh (A + arrivals evs) (trace @ pieces_run une beh evs y) (sys_bag y')"
  using assms(2-)
proof (induction evs arbitrary: y A trace)
  case (Cons ev evs)
  have ev: "callbacks_event ev" "list_all callbacks_event evs" using Cons.prems(3) by simp_all
  obtain y1 where y1: "sys_step une beh ev y = Inr y1" "sys_safe y1"
    using sys_safe_event [OF Cons.prems(1) callbacks_allowed [OF ev(1)] assms(1), of une] by blast
  note r1 = event_refines [OF Cons.prems(1) assms(1) Cons.prems(2) ev(1) y1(1)]
  show ?case using Cons.IH [OF y1(2) r1 ev(2)] y1(1) by (simp add: run_events_def arrivals_def add_ac)
qed (simp add: run_events_def arrivals_def)

text \<open>When \<open>stopping()\<close> is true and no worker is about to put a fiber back, nothing is left.\<close>

lemma idle_rest: "inside Of_idle a P s w \<Longrightarrow> ready_rest s a = {#}"
  by (auto simp: inside_def ready_rest_def idle_fit_code)

lemma quiet_pc:
  assumes "pc_safe pc s w" "pc_ok pc" "\<not> pc_active pc" "\<not> unsettled pc"
  shows "pc_bag s pc = {#}"
  using assms
proof (cases pc)
  case (P_dispatch ft ia)
  then show ?thesis using assms by (simp add: pc_ok_def task_bag_def opt_code_def empty_task_def)
next
  case (P_enter r a)
  then show ?thesis using assms idle_fit_code by (auto simp: inside_def finished_def rest_of_def)
next
  case (P_run r a b)
  then show ?thesis using assms by (cases r) auto
next
  case (P_yield r a out)
  then show ?thesis using assms by (cases r; cases out rule: out_code.cases) auto
next
  case (P_save r a out)
  then show ?thesis using assms by (cases r; cases out rule: out_code.cases) auto
next
  case (P_after r a)
  then show ?thesis using assms idle_rest by auto
next
  case (P_settle r a)
  then show ?thesis using assms idle_rest by auto
next
  case (P_close r a cl)
  then show ?thesis using assms by (auto simp: inside_def)
qed simp_all

lemma stopping_empty:
  assumes "sys_safe y" "counters_inv y" "length (y_workers y) < 2 ^ 64" "stopping (y_sched y)"
    and "\<forall>w\<in>set (y_workers y). \<not> unsettled (wk_pc w)"
  shows "sys_bag y = {#}"
proof -
  have "pc_bag (y_sched y) (wk_pc w) = {#}" if "w \<in> set (y_workers y)" for w
    by (rule quiet_pc [of _ _ w])
      (use assms counters_quiet(3) [OF assms(2,3)] that in \<open>auto simp: sys_safe_def counters_inv_def stopping_def\<close>)
  moreover have "tasks_bag (y_sched y) = {#}" using assms(4) by (simp add: tasks_bag_def stopping_def)
  ultimately show ?thesis by (auto simp: sys_bag_def)
qed

section \<open>The refinement\<close>

lemma start_refines: "bag_run beh {#} [] (sys_bag (sched_start name u))"
  by (simp add: sys_bag_def sched_start_def tasks_bag_def bag_start)


text \<open>Two workers: a callback schedules another and yields; the other worker runs the one while the
  first goes on with its fiber.\<close>

definition relay_beh :: "(nat, nat list) behaviour" where
  "relay_beh c u = (if c = 0 then ([Req (Cb (Some 2)) (- 1)], Yields READY 1, u @ [0]) else ([], Ends Returned, u @ [c]))"

definition relay_events :: "(nat, nat list) event list" where
  "relay_events = [Ev_thread 11, Ev_thread 12, Ev_started, Ev_schedule (Cb (Some 0)) (- 1)] @ replicate 11 (Ev_step 0) @
     replicate 5 (Ev_step 1) @ [Ev_user [9]] @ replicate 4 (Ev_step 0)"

lemma relay_runs:
  "\<exists>y. run_events True relay_beh relay_events (sched_start ''s'' []) = Inr y \<and> s_user (y_sched y) = [9, 1] \<and>
     s_tasks (y_sched y) = []"
  by (simp add: run_events_def relay_events_def numeral_eq_Suc sched_start_def sched_defs scan.simps relay_beh_def)

lemma relay_arrivals: "arrivals relay_events = {#0#}"
  by (simp add: relay_events_def arrivals_def numeral_eq_Suc)


end
