(* ===== verification/SchedulerEnd.thy ===== *)
theory SchedulerEnd
  imports SchedulerBag
begin

text \<open>
  The end of the workers: once \<open>stopping()\<close> is true, and no worker has given its count back with a
  fiber still to see to, it stays true as long as nothing is scheduled from outside, and every worker leaves \<open>Scheduler::run\<close> within a bounded number of its own steps, whatever
  the others do.
\<close>

section \<open>How far a worker is from the end\<close>

definition idle_over :: "('c, 'u) sched \<Rightarrow> 'c worker \<Rightarrow> bool" where
  "idle_over s w \<longleftrightarrow> (\<exists>f. sget s (wk_idle w) = Some f \<and> fb_state f = TERM')"

fun is_end :: "'c outcome \<Rightarrow> bool" where
  "is_end (Ends e) = True"
| "is_end (Yields st k) = False"

fun pc_rank :: "bool \<Rightarrow> 'c worker_pc \<Rightarrow> nat" where
  "pc_rank over P_start = 11"
| "pc_rank over P_scan = (if over then 2 else 10)"
| "pc_rank over (P_dispatch ft ia) = (if over then 1 else 9)"
| "pc_rank over P_drop = 11"
| "pc_rank over (P_enter r a) = 8"
| "pc_rank over (P_run r a b) = 7"
| "pc_rank over (P_request r a q qs out) = 15"
| "pc_rank over (P_yield r a out) = (if is_end out then 6 else 15)"
| "pc_rank over (P_save r a out) = (if is_end out then 5 else 14)"
| "pc_rank over (P_after r a) = (if over then 4 else 13)"
| "pc_rank over (P_settle r a) = (if over then 3 else 12)"
| "pc_rank over (P_close r a cl) = 11"
| "pc_rank over P_done = 0"

definition rank :: "('c, 'u) sched \<Rightarrow> 'c worker \<Rightarrow> nat" where
  "rank s w = pc_rank (idle_over s w) (wk_pc w)"

lemma rank_bound: "rank s w \<le> 15"
  unfolding rank_def by (cases "wk_pc w") simp_all

lemma rank_done: "rank s w = 0 \<longleftrightarrow> wk_pc w = P_done"
  unfolding rank_def by (cases "wk_pc w") simp_all

section \<open>A worker without a task\<close>

definition ends_sooner :: "'c worker \<Rightarrow> ('c, 'u) sched \<Rightarrow> fault + 'c worker \<times> ('c, 'u) sched \<Rightarrow> bool" where
  "ends_sooner w s r \<longleftrightarrow> (\<forall>w' s'. r = Inr (w', s') \<longrightarrow>
     stopping s' \<and> \<not> pc_active (wk_pc w') \<and> \<not> unsettled (wk_pc w') \<and>
     rank s' w' \<le> rank s w - 1)"

lemma stopping_cong:
  "s_tasks s' = s_tasks s \<Longrightarrow> s_active s' = s_active s \<Longrightarrow> s_stopping s' = s_stopping s \<Longrightarrow> s_autoStop s' = s_autoStop s \<Longrightarrow>
    stopping s' = stopping s"
  by (simp add: stopping_def)

lemma quiet_start:
  assumes "stopping s" "wk_pc w = P_start"
  shows "ends_sooner w s (worker_step une beh w s)"
proof -
  let ?l = "slog DEBUG (s_name s @ '' run'') s"
  obtain a s1 where n: "snew (Idle False) ?l = (a, s1)" by (cases "snew (Idle False) ?l")
  note e = snew_effect [OF n]
  show ?thesis using assms e by (simp add: worker_step_def n ends_sooner_def rank_def idle_over_def stopping_cong [of s1 s])
qed

lemma quiet_scan:
  assumes "stopping s" "wk_pc w = P_scan"
  shows "ends_sooner w s (worker_step une beh w s)"
proof -
  have "s_tasks s = []" using assms(1) by (simp add: stopping_def)
  then show ?thesis using assms by (simp add: worker_step_def scan.simps ends_sooner_def rank_def idle_over_def)
qed

lemma quiet_dispatch:
  assumes "stopping s" "wk_pc w = P_dispatch ft False" "pc_ok (wk_pc w)" "worker_safe rest s w"
  shows "ends_sooner w s (worker_step une beh w s)"
proof -
  have "idle_rests s w" using assms(2,4) by (simp add: worker_safe_def)
  then obtain f where f: "sget s (wk_idle w) = Some f" by (auto simp: idle_rests_def)
  have "tk_fiber ft = None" "tk_cb ft = None" using assms(2,3) unfolding pc_ok_def by blast+
  then have step: "worker_step une beh w s = dispatch_idle False w s" by (simp add: worker_step_def assms(2) dispatch_def)
  show ?thesis
  proof (cases "fb_state f = TERM'")
    case True
    then show ?thesis using assms f by (simp add: step dispatch_idle_def ends_sooner_def stopping_def rank_def)
  next
    case False
    then show ?thesis using assms f by (simp add: step dispatch_idle_def ends_sooner_def stopping_def rank_def idle_over_def)
  qed
qed

lemma quiet_run:
  assumes "stopping s" "wk_pc w = P_run Of_idle a (Idle x)"
  shows "ends_sooner w s (worker_step une beh w s)"
  using assms by (simp add: worker_step_def ends_sooner_def stopping_def rank_def)

text \<open>The worker is in its idle fiber.\<close>

lemma in_idle:
  assumes "inside Of_idle a P s w"
  obtains f where "sget s a = Some f" "P f" "idle_fit f" "a = wk_idle w"
  using assms by (auto simp: inside_def)

lemma idle_entry: "pc_entry Of_idle a pc \<Longrightarrow> \<exists>x. pc = P_run Of_idle a (Idle x)"
  by (cases "(Of_idle, a, pc)" rule: pc_entry.cases) auto

lemma quiet_enter:
  assumes "stopping s" "wk_pc w = P_enter Of_idle a" "worker_safe rest s w"
  shows "ends_sooner w s (worker_step une beh w s)"
proof -
  have i: "inside Of_idle a (\<lambda>f. fb_state f \<noteq> EXEC \<and> \<not> finished f) s w" and sh: "shared_safe s"
    using assms(2,3) by (simp_all add: worker_safe_def)
  from i obtain f where f: "sget s a = Some f" "fb_state f \<noteq> EXEC \<and> \<not> finished f" "idle_fit f" by (rule in_idle)
  then obtain pc where pc: "sswapIn Of_idle a s = Inr (pc, sset a (f\<lparr>fb_state := EXEC\<rparr>) s)" "pc_entry Of_idle a pc"
    using swapIn_safe [OF f(1) fit_of [OF sh f(1)], of Of_idle] by (auto simp: finished_def)
  then obtain x where "pc = P_run Of_idle a (Idle x)" using idle_entry by blast
  with pc(1) show ?thesis using assms(1,2) by (simp add: worker_step_def ends_sooner_def stopping_def rank_def)
qed

lemma quiet_yield:
  assumes "stopping s" "wk_pc w = P_yield Of_idle a out" "worker_safe rest s w"
  shows "ends_sooner w s (worker_step une beh w s)"
proof -
  have "inside Of_idle a (\<lambda>f. fb_state f = EXEC) s w" using assms(2,3) by (simp add: worker_safe_def)
  then obtain f where "sget s a = Some f" by (rule in_idle)
  then show ?thesis using assms(1,2)
    by (cases out) (auto simp: worker_step_def set_yield_def check_def ends_sooner_def stopping_def rank_def split: ending.split)
qed

lemma quiet_save:
  assumes "stopping s" "wk_pc w = P_save Of_idle a out" "worker_safe rest s w"
  shows "ends_sooner w s (worker_step une beh w s)"
proof -
  have i: "inside Of_idle a (\<lambda>f. yielded out (fb_state f)) s w" and c: "calm_body_outcome Of_idle out"
    using assms(2,3) by (simp_all add: worker_safe_def)
  from i obtain f where "sget s a = Some f" "yielded out (fb_state f)" "a = wk_idle w" by (rule in_idle)
  then show ?thesis using assms(1,2) c
    by (cases out) (auto simp: worker_step_def save_ctx_def ends_sooner_def stopping_def rank_def idle_over_def)
qed

lemma quiet_after:
  assumes "stopping s" "wk_pc w = P_after Of_idle a"
  shows "ends_sooner w s (worker_step une beh w s)"
  using assms by (simp add: worker_step_def after_swap_def ends_sooner_def stopping_def rank_def idle_over_def)

lemma quiet_settle:
  assumes "stopping s" "wk_pc w = P_settle Of_idle a" "worker_safe rest s w"
  shows "ends_sooner w s (worker_step une beh w s)"
proof -
  have "inside Of_idle a (\<lambda>f. fb_state f \<noteq> EXEC) s w" using assms(2,3) by (simp add: worker_safe_def)
  then obtain f where "sget s a = Some f" "idle_fit f" "a = wk_idle w" by (rule in_idle)
  then show ?thesis using assms(1,2)
    by (auto simp: worker_step_def settle_def Let_def ends_sooner_def rank_def idle_over_def idle_fit_def)
qed

lemma quiet_close:
  assumes "stopping s" "wk_pc w = P_close Of_idle a cl" "worker_safe rest s w"
  shows "ends_sooner w s (worker_step une beh w s)"
proof -
  have "inside Of_idle a (\<lambda>f. fb_state f \<noteq> EXEC \<and> closes Of_idle cl f) s w" using assms(2,3) by (simp add: worker_safe_def)
  then obtain f where "sget s a = Some f" "fb_state f \<noteq> EXEC \<and> closes Of_idle cl f" "a = wk_idle w" by (rule in_idle)
  then show ?thesis using assms(1,2)
    by (cases cl) (auto simp: worker_step_def close_def Let_def ends_sooner_def stopping_def rank_def idle_over_def)
qed

lemma quiet_step:
  assumes "stopping s" "\<not> pc_active (wk_pc w)" "\<not> unsettled (wk_pc w)" "pc_ok (wk_pc w)" "worker_safe rest s w"
  shows "ends_sooner w s (worker_step une beh w s)"
proof (cases "wk_pc w")
  case (P_run r a b)
  then obtain x where "r = Of_idle" "b = Idle x" using assms(2,5) by (auto simp: worker_safe_def)
  then show ?thesis using quiet_run [OF assms(1)] P_run by blast
next
  case P_done
  then show ?thesis using assms(1) by (simp add: worker_step_def ends_sooner_def rank_def)
next
  case P_start
  then show ?thesis by (rule quiet_start [OF assms(1)])
next
  case P_scan
  then show ?thesis by (rule quiet_scan [OF assms(1)])
next
  case (P_dispatch ft ia)
  then show ?thesis using assms(2) quiet_dispatch [OF assms(1) _ assms(4,5)] by simp
next
  case P_drop
  then show ?thesis using assms(2) by simp
next
  case (P_enter r a)
  then show ?thesis using assms(2) quiet_enter [OF assms(1) _ assms(5)] by simp
next
  case (P_request r a q qs out)
  then show ?thesis using assms(2,5) by (simp add: worker_safe_def)
next
  case (P_yield r a out)
  then show ?thesis using assms(2) quiet_yield [OF assms(1) _ assms(5)] by simp
next
  case (P_save r a out)
  then show ?thesis using assms(2) quiet_save [OF assms(1) _ assms(5)] by simp
next
  case (P_after r a)
  then show ?thesis using assms(2) quiet_after [OF assms(1)] by simp
next
  case (P_settle r a)
  then show ?thesis using assms(3) quiet_settle [OF assms(1) _ assms(5)] by simp
next
  case (P_close r a cl)
  then show ?thesis using assms(3) quiet_close [OF assms(1) _ assms(5)] by simp
qed

section \<open>All the workers\<close>

definition all_quiet :: "('c, 'u) sched_sys \<Rightarrow> bool" where
  "all_quiet y \<longleftrightarrow> sys_safe y \<and> counters_inv y \<and> stopping (y_sched y) \<and>
     (\<forall>w\<in>set (y_workers y). \<not> pc_active (wk_pc w) \<and> \<not> unsettled (wk_pc w))"

definition rank_at :: "('c, 'u) sched_sys \<Rightarrow> nat \<Rightarrow> nat" where
  "rank_at y i = rank (y_sched y) (y_workers y ! i)"

lemma nth_others:
  assumes "j < length ws" "j \<noteq> i"
  shows "ws ! j \<in> set (others ws i)"
proof (cases "j < i")
  case True
  then have "ws ! j \<in> set (take i ws)" using assms(1) nth_mem [of j "take i ws"] by simp
  then show ?thesis by (simp add: others_def)
next
  case False
  then have "ws ! j = drop (Suc i) ws ! (j - Suc i)" "j - Suc i < length (drop (Suc i) ws)" using assms by auto
  then have "ws ! j \<in> set (drop (Suc i) ws)" using nth_mem by metis
  then show ?thesis by (simp add: others_def)
qed

lemma rank_frame:
  assumes "\<forall>a\<in>set (holds w). sget s' a = sget s a"
  shows "rank s' w = rank s w"
proof (cases "wk_pc w = P_start")
  case False
  then show ?thesis using assms by (simp add: rank_def idle_over_def holds_iff)
qed (simp add: rank_def)

text \<open>What happens when nothing is scheduled from outside: the workers go on, and other code changes the data.\<close>

fun after_stop :: "nat + 'u \<Rightarrow> ('c, 'u) event" where
  "after_stop (Inl i) = Ev_step i"
| "after_stop (Inr u) = Ev_user u"

lemma quiet_runs:
  assumes "worker_safe rest s w" "\<not> pc_active (wk_pc w)"
  shows "runs_now beh u (wk_pc w) = []"
proof (rule runs_now_none)
  fix r a c
  show "wk_pc w \<noteq> P_run r a (User c)" using assms by (auto simp: worker_safe_def)
qed

lemma all_quiet_step:
  assumes "all_quiet y" "calm_code beh"
  shows "\<exists>y'. sys_step une beh (Ev_step i) y = Inr y' \<and> all_quiet y' \<and> length (y_workers y') = length (y_workers y) \<and>
    runs_at beh (Ev_step i) y = [] \<and> (\<forall>j<length (y_workers y). rank_at y' j \<le> rank_at y j - of_bool (i = j))"
proof (cases "i < length (y_workers y)")
  case True
  let ?s = "y_sched y" and ?w = "y_workers y ! i"
  have q: "sys_safe y" "counters_inv y" "stopping ?s" "\<forall>w\<in>set (y_workers y). \<not> pc_active (wk_pc w) \<and> \<not> unsettled (wk_pc w)"
    using assms(1) by (simp_all add: all_quiet_def)
  have w: "\<not> pc_active (wk_pc ?w)" "\<not> unsettled (wk_pc ?w)" "pc_ok (wk_pc ?w)" using q(2,4) True by (simp_all add: counters_inv_def)
  note safe = sys_worker(1) [OF q(1) True]
  from sys_step_worker [OF q(1) True assms(2), of une] obtain w' s' where
    st: "worker_step une beh ?w ?s = Inr (w', s')"
      "sys_step une beh (Ev_step i) y = Inr (y\<lparr>y_sched := s', y_workers := (y_workers y)[i := w']\<rparr>)"
      "\<And>v. v \<in> set (others (y_workers y) i) \<Longrightarrow> \<forall>a\<in>set (holds v). sget s' a = sget ?s a" by blast
  have e: "stopping s'" "\<not> pc_active (wk_pc w') \<and> \<not> unsettled (wk_pc w')" "rank s' w' \<le> rank ?s ?w - 1"
    using quiet_step [OF q(3) w safe, of une beh] by (simp_all add: ends_sooner_def st)
  let ?y = "y\<lparr>y_sched := s', y_workers := (y_workers y)[i := w']\<rparr>"
  note step = st(2)
  have "\<forall>v\<in>set ((y_workers y)[i := w']). \<not> pc_active (wk_pc v) \<and> \<not> unsettled (wk_pc v)"
    using q(4) e(2) set_update_subset_insert [of "y_workers y" i w'] by auto
  then have "all_quiet ?y"
    using sys_safe_step [OF q(1) True assms(2), of une] counters_inv_step [OF q(2) step] e(1) step by (simp add: all_quiet_def)
  moreover have "rank_at ?y j \<le> rank_at y j - of_bool (i = j)" if j: "j < length (y_workers y)" for j
  proof (cases "j = i")
    case False
    then have "y_workers y ! j \<in> set (others (y_workers y) i)" using j by (rule nth_others [rotated])
    from rank_frame [OF st(3) [OF this]] show ?thesis using False by (simp add: rank_at_def)
  qed (use e(3) True in \<open>simp add: rank_at_def\<close>)
  ultimately show ?thesis using step quiet_runs [OF safe w(1)] True by auto
next
  case False
  then show ?thesis using assms(1) by (auto simp: sys_step_def)
qed

lemma all_quiet_event:
  assumes "all_quiet y" "calm_code beh"
  shows "\<exists>y'. sys_step une beh (after_stop e) y = Inr y' \<and> all_quiet y' \<and> length (y_workers y') = length (y_workers y) \<and>
    runs_at beh (after_stop e) y = [] \<and> (\<forall>j<length (y_workers y). rank_at y' j \<le> rank_at y j - of_bool (e = Inl j))"
proof (cases e)
  case (Inl i)
  then show ?thesis using all_quiet_step [OF assms, of une i] by (simp add: Inl)
next
  case (Inr u)
  let ?y = "y\<lparr>y_sched := (y_sched y)\<lparr>s_user := u\<rparr>\<rparr>"
  have q: "sys_safe y" "counters_inv y" using assms(1) by (simp_all add: all_quiet_def)
  have step: "sys_step une beh (Ev_user u) y = Inr ?y" by (simp add: sys_step_def)
  have "sys_safe ?y" using sys_safe_event [OF q(1) _ assms(2), of "Ev_user u" une] step by (simp add: allowed_def)
  then have "all_quiet ?y" using counters_inv_step [OF q(2) step] assms(1) by (simp add: all_quiet_def stopping_def)
  then show ?thesis using step by (auto simp: Inr rank_at_def rank_def idle_over_def)
qed

lemma quiet_run_ends:
  assumes "all_quiet y" "calm_code beh"
  shows "\<exists>y'. run_events une beh (map after_stop es) y = Inr y' \<and> all_quiet y' \<and> length (y_workers y') = length (y_workers y) \<and>
    pieces_run une beh (map after_stop es) y = [] \<and>
    (\<forall>j<length (y_workers y). rank_at y' j \<le> rank_at y j - count_list es (Inl j))"
  using assms(1)
proof (induction es arbitrary: y)
  case (Cons e es)
  obtain y1 where y1: "sys_step une beh (after_stop e) y = Inr y1" "all_quiet y1" "length (y_workers y1) = length (y_workers y)"
    "runs_at beh (after_stop e) y = []" "\<forall>j<length (y_workers y). rank_at y1 j \<le> rank_at y j - of_bool (e = Inl j)"
    using all_quiet_event [OF Cons.prems assms(2), of une e] by blast
  obtain y' where y': "run_events une beh (map after_stop es) y1 = Inr y'" "all_quiet y'" "length (y_workers y') = length (y_workers y1)"
    "pieces_run une beh (map after_stop es) y1 = []" "\<forall>j<length (y_workers y1). rank_at y' j \<le> rank_at y1 j - count_list es (Inl j)"
    using Cons.IH [OF y1(2)] by blast
  have "rank_at y' j \<le> rank_at y j - count_list (e # es) (Inl j)" if "j < length (y_workers y)" for j
    using y1(3,5) y'(5) that by (cases "e = Inl j") fastforce+
  then show ?case using y1 y' by (auto simp: run_events_def)
qed (simp add: run_events_def)

section \<open>The property\<close>

lemma all_quiet_ends:
  assumes "all_quiet y" "calm_code beh"
  shows "\<exists>y'. run_events une beh (map after_stop es) y = Inr y' \<and> all_quiet y' \<and> length (y_workers y') = length (y_workers y) \<and>
    pieces_run une beh (map after_stop es) y = [] \<and>
    (\<forall>i<length (y_workers y). 15 \<le> count_list es (Inl i) \<longrightarrow> wk_pc (y_workers y' ! i) = P_done)"
proof -
  from quiet_run_ends [OF assms, of une es] obtain y' where
    y': "run_events une beh (map after_stop es) y = Inr y'" "all_quiet y'" "length (y_workers y') = length (y_workers y)"
      "pieces_run une beh (map after_stop es) y = []"
    and rk: "\<forall>j<length (y_workers y). rank_at y' j \<le> rank_at y j - count_list es (Inl j)" by blast
  have "wk_pc (y_workers y' ! i) = P_done" if "i < length (y_workers y)" "15 \<le> count_list es (Inl i)" for i
    using rk that rank_bound [of "y_sched y" "y_workers y ! i"] rank_done [of "y_sched y'" "y_workers y' ! i"]
    by (fastforce simp: rank_at_def)
  then show ?thesis using y' by blast
qed


text \<open>Two workers with nothing to do, and a stop: they end one after the other.\<close>

definition idle_events :: "(unit, unit) event list" where
  "idle_events = [Ev_thread 11, Ev_thread 12, Ev_started] @ replicate 11 (Ev_step 0) @ [Ev_stop]"

definition no_beh :: "(unit, unit) behaviour" where
  "no_beh c u = ([], Ends Returned, u)"

lemma idle_events_run:
  "\<exists>y. run_events True no_beh idle_events (sched_start ''s'' ()) = Inr y \<and> length (y_workers y) = 2 \<and> stopping (y_sched y) \<and>
     (\<forall>w\<in>set (y_workers y). \<not> unsettled (wk_pc w))"
  by (simp add: run_events_def idle_events_def numeral_eq_Suc sched_start_def sched_defs scan.simps stopping_def empty_task_def)

lemma idle_events_permitted: "permitted allowed (sys_step True no_beh) idle_events (sched_start ''s'' ())"
  by (rule callbacks_permitted) (simp add: idle_events_def list_all_iff)


end
