(* ===== verification/SchedulerDrain.thy ===== *)
theory SchedulerDrain
  imports SchedulerEnd
begin

text \<open>
  What \<open>stop\<close> waits for.  A worker leaves \<open>Scheduler::run\<close> only after \<open>stopping()\<close> was true, but that need not
  stay so: another worker may still put its fiber back into the queue.  When no task is meant for one thread only, that
  worker looks at the queue again before it leaves, so that when all the workers have ended, all that was scheduled has
  been run.
\<close>

section \<open>Only \<open>stopping()\<close> ends a worker\<close>

text \<open>The idle fiber of the worker has returned, or is about to.\<close>

definition leaving :: "'c worker_pc \<Rightarrow> bool" where
  "leaving pc \<longleftrightarrow> pc = P_done \<or> (\<exists>a e. pc = P_yield Of_idle a (Ends e) \<or> pc = P_save Of_idle a (Ends e))"

definition ended :: "('c, 'u) sched \<Rightarrow> 'c worker \<Rightarrow> bool" where
  "ended s w \<longleftrightarrow> wk_pc w \<noteq> P_start \<and> (idle_over s w \<or> leaving (wk_pc w))"

lemma leaving_simps [simp]:
  "\<not> leaving P_scan" "\<not> leaving (P_dispatch ft ia)" "\<not> leaving P_drop" "\<not> leaving (P_enter r a)" "\<not> leaving (P_run r a b)"
  "\<not> leaving (P_request r a q qs out)" "\<not> leaving (P_after r a)" "\<not> leaving (P_settle r a)" "\<not> leaving (P_close r a cl)"
  "leaving P_done"
  "leaving (P_yield r a out) = (r = Of_idle \<and> is_end out)" "leaving (P_save r a out) = (r = Of_idle \<and> is_end out)"
  by (cases out; auto simp: leaving_def)+

lemma idle_over_other:
  "sget s' (wk_idle w) = sget s (wk_idle w) \<Longrightarrow> wk_idle w' = wk_idle w \<Longrightarrow> idle_over s' w' = idle_over s w"
  by (simp add: idle_over_def)

lemma set_yield_sset: "set_yield a out s = Inr s' \<Longrightarrow> \<exists>f g. sget s a = Some f \<and> s' = sset a g s \<and> (\<forall>st k. out = Yields st k \<longrightarrow> fb_state g = st)"
  by (auto simp: set_yield_def on_sfiber_def check_def split: option.splits outcome.splits ending.splits if_splits)

lemma save_ctx_sset: "save_ctx a out s = Inr s' \<Longrightarrow> \<exists>f g. sget s a = Some f \<and> s' = sset a g s \<and> fb_state g = fb_state f"
  by (auto simp: save_ctx_def on_sfiber_def split: option.splits)

lemma swapIn_sset: "sswapIn r a s = Inr (pc, s') \<Longrightarrow> \<exists>f. sget s a = Some f \<and> s' = sset a (f\<lparr>fb_state := EXEC\<rparr>) s \<and> pc_role pc = Some r"
  by (auto simp: sswapIn_def sresume_def check_def elim!: inversion split: if_splits ctx.splits option.splits)

lemma not_over_role: "pc_role pc = Some r \<Longrightarrow> r \<noteq> Of_idle \<Longrightarrow> \<not> leaving pc"
  by (cases pc) simp_all

text \<open>The step neither ends the idle fiber nor leaves.\<close>

lemma ended_other:
  assumes "ended s' w'" "sget s' (wk_idle w) = sget s (wk_idle w)" "wk_idle w' = wk_idle w" "wk_pc w \<noteq> P_start"
    and "leaving (wk_pc w') \<Longrightarrow> idle_over s w"
  shows "ended s w"
  using assms idle_over_other [OF assms(2,3)] by (auto simp: ended_def)

lemma ended_scan:
  assumes "worker_safe rest s w" "wk_pc w = P_scan" "worker_step une beh w s = Inr (w', s')" "ended s' w'"
  shows "ended s w"
proof -
  from scan_spec_from [OF valid_tasks, of s 0 "wk_tid w" une False]
  obtain sc s1 where sc: "scan une (wk_tid w) 0 False s = Inr (sc, s1)" "sget s1 = sget s"
    using assms(1) by (auto simp: worker_safe_def fun_eq_iff)
  have "w' = goto (P_dispatch (sc_ft sc) (sc_active sc)) w" "sget s' = sget s"
    using assms(3) sc by (auto simp: worker_step_def assms(2))
  then show ?thesis using assms(2,4) by (simp add: ended_def idle_over_def)
qed

lemma ended_dispatch:
  assumes "worker_safe rest s w" "wk_pc w = P_dispatch ft ia" "worker_step une beh w s = Inr (w', s')" "ended s' w'"
  shows "ended s w"
proof -
  have p: "idle_rests s w" "cb_rests s w" using assms(1,2) by (simp_all add: worker_safe_def)
  have d: "distinct (task_fibers (s_tasks s) @ holds w @ rest)" using assms(1) by (simp add: worker_safe_def)
  then have ne: "wk_cb w \<noteq> Some (wk_idle w)" by (auto simp: holds_def assms(2))
  obtain fi where fi: "sget s (wk_idle w) = Some fi" using p(1) by (auto simp: idle_rests_def)
  define ok where "ok \<longleftrightarrow> sget s' (wk_idle w) = sget s (wk_idle w) \<and> wk_idle w' = wk_idle w \<and> (leaving (wk_pc w') \<longrightarrow> idle_over s w)"
  have idle: ok if "dispatch_idle ia w s = Inr (w', s')"
    using that fi by (auto simp: ok_def dispatch_idle_def idle_over_def split: if_splits)
  have cb: ok if r: "dispatch_cb b w s = Inr (w', s')" for b
  proof (cases "wk_cb w")
    case None
    obtain a s1 where n: "snew b s = (a, s1)" by (cases "snew b s")
    have "a \<noteq> wk_idle w" using snew_effect(1) [OF n] fi by auto
    then show ?thesis using r None n snew_effect(3) [OF n, of "wk_idle w"] by (auto simp: ok_def dispatch_cb_def)
  next
    case (Some a)
    then obtain f where "sget s a = Some f" using p(2) by (auto simp: cb_rests_def)
    then show ?thesis using r Some ne by (auto simp: ok_def dispatch_cb_def sreset_def check_def split: if_splits)
  qed
  have task: ok if "dispatch_fiber a w s = Inr (w', s')" for a using that by (auto simp: ok_def dispatch_fiber_def)
  have "dispatch ft ia w s = Inr (w', s')" using assms(3) by (simp add: worker_step_def assms(2))
  then have ok by (cases rule: dispatch_cases) (rule task cb idle, assumption)+
  then show ?thesis using assms(2) by (intro ended_other [OF assms(4)]) (auto simp: ok_def)
qed

lemma ended_enter:
  assumes "worker_safe rest s w" "wk_pc w = P_enter r a" "worker_step une beh w s = Inr (w', s')" "ended s' w'"
  shows "ended s w"
proof -
  have i: "inside r a (\<lambda>f. fb_state f \<noteq> EXEC \<and> \<not> finished f) s w" and sh: "shared_safe s"
    using assms(1,2) by (simp_all add: worker_safe_def)
  then obtain f where f: "sget s a = Some f" "fb_state f \<noteq> EXEC" "\<not> finished f" "r = Of_idle \<longrightarrow> idle_fit f" by (auto simp: inside_def)
  note own = own_fiber(3) [OF assms(1) _ i, unfolded assms(2), simplified]
  have "fb_state f \<noteq> TERM'" "fb_state f \<noteq> EXCEPT" using f(3) by (simp_all add: finished_def)
  from swapIn_safe [OF f(1) fit_of [OF sh f(1)] f(2) this f(4)] obtain pc where
    pc: "sswapIn r a s = Inr (pc, sset a (f\<lparr>fb_state := EXEC\<rparr>) s)" "pc_entry r a pc" by blast
  then have st: "w' = goto pc w" "s' = sset a (f\<lparr>fb_state := EXEC\<rparr>) s"
    using assms(3) by (simp_all add: worker_step_def assms(2))
  show ?thesis
  proof (cases "r = Of_idle")
    case True
    then have "a = wk_idle w" "\<not> leaving pc" using i pc(2) idle_entry by (fastforce simp: inside_def)+
    then show ?thesis using assms(4) f(1) by (simp add: st ended_def idle_over_def)
  next
    case False
    then have "\<not> leaving pc" using pc(2) by (cases "(r, a, pc)" rule: pc_entry.cases) auto
    then show ?thesis using assms(2) own False f(1) by (intro ended_other [OF assms(4)]) (auto simp: st)
  qed
qed

lemma ended_yield:
  assumes "worker_safe rest s w" "wk_pc w = P_yield r a out" "worker_step une beh w s = Inr (w', s')" "ended s' w'"
  shows "ended s w"
proof -
  have i: "inside r a (\<lambda>f. fb_state f = EXEC) s w" and c: "calm_body_outcome r out"
    using assms(1,2) by (simp_all add: worker_safe_def)
  note own = own_fiber(3) [OF assms(1) _ i, unfolded assms(2), simplified]
  obtain f g where s': "sget s a = Some f" "s' = sset a g s" "\<forall>st k. out = Yields st k \<longrightarrow> fb_state g = st" "w' = goto (P_save r a out) w"
    using assms(3) set_yield_sset [of a out s] by (auto simp: worker_step_def assms(2))
  show ?thesis
  proof (cases "r = Of_idle \<and> \<not> is_end out")
    case True
    then have "a = wk_idle w" "\<not> ended s' w'" using i c s'
      by (cases out; auto simp: inside_def ended_def idle_over_def)+
    then show ?thesis using assms(4) by simp
  next
    case False
    then show ?thesis using own s'(1,4) assms(4) by (auto simp: ended_def assms(2) s'(2) idle_over_def)
  qed
qed

lemma ended_save:
  assumes "worker_safe rest s w" "wk_pc w = P_save r a out" "worker_step une beh w s = Inr (w', s')" "ended s' w'"
  shows "ended s w"
proof -
  have i: "inside r a (\<lambda>f. yielded out (fb_state f)) s w" using assms(1,2) by (simp add: worker_safe_def)
  obtain f g where s': "sget s a = Some f" "s' = sset a g s" "fb_state g = fb_state f" "w' = goto (P_after r a) w"
    using assms(3) save_ctx_sset [of a out s] by (auto simp: worker_step_def assms(2))
  then show ?thesis using assms(4) by (auto simp: ended_def assms(2) idle_over_def split: if_splits)
qed

lemma sget_schedule: "sget (schedule fc thread s) a = sget s a"
  by (simp add: sget_def heap_schedule)

lemma ended_settle:
  assumes "worker_safe rest s w" "wk_pc w = P_settle r a" "worker_step une beh w s = Inr (w', s')" "ended s' w'"
  shows "ended s w"
proof -
  have i: "inside r a (\<lambda>f. fb_state f \<noteq> EXEC) s w" using assms by (simp add: worker_safe_def)
  then obtain f where f: "sget s a = Some f" by (auto simp: inside_def)
  show ?thesis using assms(2,3) f
    by (intro ended_other [OF assms(4)]) (auto simp: worker_step_def settle_def Let_def split: if_splits)
qed

lemma ended_close:
  assumes "worker_safe rest s w" "wk_pc w = P_close r a cl" "worker_step une beh w s = Inr (w', s')" "ended s' w'"
  shows "ended s w"
proof -
  have i: "inside r a (\<lambda>f. fb_state f \<noteq> EXEC \<and> closes r cl f) s w" using assms by (simp add: worker_safe_def)
  then obtain f where f: "sget s a = Some f" "closes r cl f" by (auto simp: inside_def)
  note own = own_fiber(3) [OF assms(1) _ i, unfolded assms(2), simplified]
  have "idle_over s w" using assms(3,4) f own
    by (cases cl; cases r) (auto simp: worker_step_def assms(2) close_def Let_def sreset_def check_def finished_def
      ended_def idle_over_def sget_schedule split: if_splits)
  then show ?thesis by (simp add: ended_def assms(2))
qed

lemma heap_request: "s_heap (do_request a q s) = s_heap s"
  using heap_requests [of a "[q]"] by simp

lemma ended_call:
  assumes "wk_pc w = P_request r a q qs out" "r \<noteq> Of_idle" "worker_step une beh w s = Inr (w', s')" "ended s' w'"
  shows "ended s w"
  using assms not_over_role [OF requesting_role, of r a qs out]
  by (intro ended_other [OF assms(4)]) (auto simp: worker_step_def heap_request sget_def)

lemma ended_run:
  assumes "wk_pc w = P_run r a b" "r = Of_idle \<longrightarrow> (\<exists>x. b = Idle x)" "worker_step une beh w s = Inr (w', s')" "ended s' w'"
  shows "ended s w \<or> stopping s \<and> r = Of_idle"
proof -
  obtain reqs out where out: "run_body beh b s = (reqs, out, s')" "w' = goto (requesting r a reqs out) w"
    using assms(3) by (auto simp: worker_step_def assms(1) split: prod.splits)
  have "sget s' = sget s" by (rule run_body_heap(1) [OF out(1)])
  moreover have "leaving (requesting r a reqs out) \<Longrightarrow> stopping s \<and> r = Of_idle"
    using assms(2) out(1) not_over_role [OF requesting_role, of r a reqs out]
    by (cases "r = Of_idle") (auto split: if_splits)
  ultimately show ?thesis using assms(1,4) ended_other [OF assms(4), of w s] by (auto simp: out(2))
qed

lemma ended_step:
  assumes "worker_safe rest s w" "worker_step une beh w s = Inr (w', s')" "ended s' w'"
  shows "ended s w \<or> stopping s \<and> \<not> pc_active (wk_pc w)"
proof (cases "wk_pc w")
  case P_start
  let ?l = "slog DEBUG (s_name s @ '' run'') s"
  obtain a s1 where n: "snew (Idle False) ?l = (a, s1)" by (cases "snew (Idle False) ?l")
  note e = snew_effect [OF n]
  have "w' = goto P_scan (w\<lparr>wk_idle := a, wk_cb := None\<rparr>)" "s' = s1"
    using assms(2) by (simp_all add: worker_step_def P_start n)
  then show ?thesis using assms(3) e(2) by (simp add: ended_def idle_over_def goto_def)
next
  case (P_run r a b)
  have "r = Of_idle \<longrightarrow> (\<exists>x. b = Idle x)" using assms(1) by (simp add: worker_safe_def P_run)
  then show ?thesis using ended_run [OF P_run _ assms(2,3)] P_run by auto
next
  case P_done
  then show ?thesis by (simp add: ended_def)
next
  case P_scan
  then show ?thesis using ended_scan [OF assms(1) _ assms(2,3)] by blast
next
  case (P_dispatch ft ia)
  then show ?thesis using ended_dispatch [OF assms(1) _ assms(2,3)] by blast
next
  case (P_yield r a out)
  then show ?thesis using ended_yield [OF assms(1) _ assms(2,3)] by blast
next
  case (P_save r a out)
  then show ?thesis using ended_save [OF assms(1) _ assms(2,3)] by blast
next
  case P_drop
  then show ?thesis using assms(2,3) by (intro disjI1 ended_other [OF assms(3)]) (auto simp: worker_step_def)
next
  case (P_enter r a)
  then show ?thesis using ended_enter [OF assms(1) _ assms(2,3)] by blast
next
  case (P_request r a q qs out)
  then have "r \<noteq> Of_idle" using assms(1) by (simp add: worker_safe_def)
  then show ?thesis using ended_call [OF P_request _ assms(2,3)] by blast
next
  case (P_after r a)
  then show ?thesis using assms(2,3)
    by (intro disjI1 ended_other [OF assms(3)]) (auto simp: worker_step_def after_swap_def)
next
  case (P_settle r a)
  then show ?thesis using ended_settle [OF assms(1) _ assms(2,3)] by blast
next
  case (P_close r a cl)
  then show ?thesis using ended_close [OF assms(1) _ assms(2,3)] by blast
qed

section \<open>The flags\<close>

definition flags :: "('c, 'u) sched \<Rightarrow> bool \<times> bool" where
  "flags s = (s_autoStop s, s_stopping s)"

lemma flags_simps [simp]:
  "flags (s\<lparr>s_tasks := ts\<rparr>) = flags s" "flags (s\<lparr>s_active := n\<rparr>) = flags s" "flags (s\<lparr>s_idle := n\<rparr>) = flags s"
  "flags (s\<lparr>s_user := u\<rparr>) = flags s" "flags (s\<lparr>s_log := l\<rparr>) = flags s" "flags (s\<lparr>s_heap := h\<rparr>) = flags s"
  "flags (sset a f s) = flags s" "flags (slog lv m s) = flags s" "flags (tickle s) = flags s"
  by (simp_all add: flags_def sset_def slog_def tickle_def)

lemma snew_flags: "snew b s = (a, s') \<Longrightarrow> flags s' = flags s"
  by (auto simp: snew_def)

lemma flags_request: "flags (do_request a q s) = flags s"
  by (cases q) (simp_all add: schedule_effect)

lemma flags_run: "run_body beh b s = (reqs, out, s') \<Longrightarrow> flags s' = flags s"
  by (cases b) (auto split: prod.splits if_splits)

lemma flags_reset: "sreset a cb s = Inr s' \<Longrightarrow> flags s' = flags s"
  by (auto simp: sreset_def elim!: inversion dest!: check_InrD)

lemma flags_swapIn: "sswapIn r a s = Inr (pc, s') \<Longrightarrow> flags s' = flags s"
  using swapIn_sset by fastforce

lemma flags_dispatch:
  assumes "dispatch ft ia w s = Inr (w', s')"
  shows "flags s' = flags s"
proof -
  have cb: "flags s' = flags s" if "dispatch_cb b w s = Inr (w', s')" for b
    using that flags_reset snew_flags [of b s]
    by (cases "wk_cb w"; cases "snew b s") (fastforce simp: dispatch_cb_def)+
  have idle: "flags s' = flags s" if "dispatch_idle ia w s = Inr (w', s')"
    using that by (auto simp: dispatch_idle_def elim!: inversion split: if_splits)
  have task: "flags s' = flags s" if "dispatch_fiber a w s = Inr (w', s')" for a
    using that by (simp add: dispatch_fiber_def)
  from assms show ?thesis by (cases rule: dispatch_cases) (rule task cb idle, assumption)+
qed

lemma flags_close: "close r a cl w s = Inr (w', s') \<Longrightarrow> flags s' = flags s"
  by (cases cl) (auto simp: close_def Let_def schedule_effect elim!: inversion dest!: flags_reset)

lemma flags_step:
  assumes "worker_safe rest s w" "worker_step une beh w s = Inr (w', s')"
  shows "flags s' = flags s"
proof (cases "wk_pc w")
  case P_start
  then show ?thesis using assms(2) snew_flags [of "Idle False" "slog DEBUG (s_name s @ '' run'') s"]
    by (auto simp: worker_step_def split: prod.splits)
next
  case P_scan
  from scan_spec_from [OF valid_tasks, of s 0 "wk_tid w" une False]
  obtain sc s1 where "scan une (wk_tid w) 0 False s = Inr (sc, s1)" "flags s1 = flags s"
    using assms(1) by (auto simp: worker_safe_def)
  then show ?thesis using assms(2) by (auto simp: worker_step_def P_scan split: if_splits)
next
  case (P_dispatch ft ia)
  then show ?thesis using assms(2) flags_dispatch by (simp add: worker_step_def)
next
  case (P_run r a b)
  then show ?thesis using assms(2) flags_run [of beh b s] by (auto simp: worker_step_def split: prod.splits)
next
  case (P_yield r a out)
  then show ?thesis using assms(2) set_yield_sset [of a out s] by (auto simp: worker_step_def)
next
  case (P_save r a out)
  then show ?thesis using assms(2) save_ctx_sset [of a out s] by (auto simp: worker_step_def)
next
  case P_drop
  then show ?thesis using assms(2) by (auto simp: worker_step_def)
next
  case (P_enter r a)
  then show ?thesis using assms(2) flags_swapIn [of r a s] by (auto simp: worker_step_def)
next
  case (P_request r a q qs out)
  then show ?thesis using assms(2) by (auto simp: worker_step_def flags_request)
next
  case (P_after r a)
  then show ?thesis using assms(2) by (auto simp: worker_step_def after_swap_def)
next
  case (P_settle r a)
  then show ?thesis using assms(2) counters_settle [of r a w s w' s'] by (simp add: worker_step_def)
next
  case (P_close r a cl)
  then show ?thesis using assms(2) flags_close by (simp add: worker_step_def)
next
  case P_done
  then show ?thesis using assms(2) by (simp add: worker_step_def)
qed

section \<open>Tasks for any thread\<close>

definition unpinned :: "('c, 'u) sched \<Rightarrow> bool" where
  "unpinned s \<longleftrightarrow> (\<forall>t\<in>set (s_tasks s). tk_thread t = - 1)"

fun unpinned_request :: "'c request \<Rightarrow> bool" where
  "unpinned_request (Req fc thread) = (thread = - 1)"
| "unpinned_request (Req_self thread) = (thread = - 1)"

definition unpinned_code :: "('c, 'u) behaviour \<Rightarrow> bool" where
  "unpinned_code beh \<longleftrightarrow> (\<forall>c u reqs out u'. beh c u = (reqs, out, u') \<longrightarrow> list_all unpinned_request reqs)"

fun unpinned_event :: "('c, 'u) event \<Rightarrow> bool" where
  "unpinned_event (Ev_schedule fc thread) = (thread = - 1)"
| "unpinned_event ev = True"

fun pc_unpinned :: "'c worker_pc \<Rightarrow> bool" where
  "pc_unpinned (P_request r a q qs out) = list_all unpinned_request (q # qs)"
| "pc_unpinned pc = True"

lemma requesting_unpinned: "list_all unpinned_request reqs \<Longrightarrow> pc_unpinned (requesting r a reqs out)"
  by (cases reqs) simp_all

lemma unpinned_same: "s_tasks s' = s_tasks s \<Longrightarrow> unpinned s' = unpinned s"
  by (simp add: unpinned_def)

lemma unpinned_schedule: "unpinned s \<Longrightarrow> unpinned (schedule fc (- 1) s)"
  by (cases fc) (auto simp: unpinned_def schedule_effect tasks_of_def Let_def)

text \<open>The steps that change the queue: taking a task, and the calls of \<open>schedule\<close>.\<close>

lemma scan_step:
  assumes "worker_safe rest s w" "wk_pc w = P_scan" "worker_step une beh w s = Inr (w', s')"
  obtains (taken) pre t post where "s_tasks s = pre @ t # post" "s_tasks s' = pre @ post" "w' = goto (P_dispatch t True) w"
    | (none) "\<forall>t\<in>set (s_tasks s). \<not> eligible s (wk_tid w) t" "s_tasks s' = s_tasks s" "w' = goto (P_dispatch empty_task False) w"
proof -
  have valid: "\<forall>t\<in>set (s_tasks s). valid_task s t" using assms(1) by (simp add: worker_safe_def valid_tasks)
  from scan_spec_from [OF valid, of 0 "wk_tid w" une False] consider
      (1) pre t post tick where "s_tasks s = pre @ t # post"
        "scan une (wk_tid w) 0 False s = Inr (\<lparr>sc_ft = t, sc_tickle = tick, sc_active = True\<rparr>,
          s\<lparr>s_tasks := pre @ post, s_active := s_active s + 1\<rparr>)"
    | (2) tick where "scan une (wk_tid w) 0 False s = Inr (\<lparr>sc_ft = empty_task, sc_tickle = tick, sc_active = False\<rparr>, s)"
        "\<forall>t\<in>set (s_tasks s). \<not> eligible s (wk_tid w) t"
    by auto
  then show thesis
  proof cases
    case 1
    then show ?thesis using assms(2,3) by (intro taken [of pre t post]) (auto simp: worker_step_def)
  next
    case 2
    then show ?thesis using assms(2,3) by (intro none) (auto simp: worker_step_def)
  qed
qed

lemma dispatch_step:
  assumes "dispatch ft ia w s = Inr (w', s')"
  shows "s_tasks s' = s_tasks s" "wk_pc w' = P_done \<and> \<not> ia \<and> idle_over s w \<or> wk_pc w' = P_drop \<and> ia \<or> (\<exists>r a. wk_pc w' = P_enter r a)"
proof -
  let ?pc = "\<lambda>w'. wk_pc w' = P_done \<and> \<not> ia \<and> idle_over s w \<or> wk_pc w' = P_drop \<and> ia \<or> (\<exists>r a. wk_pc w' = P_enter r a)"
  have cb: "s_tasks s' = s_tasks s \<and> ?pc w'" if r: "dispatch_cb b w s = Inr (w', s')" for b
  proof (cases "wk_cb w")
    case None
    obtain a s1 where n: "snew b s = (a, s1)" by (cases "snew b s")
    show ?thesis using r None n snew_effect(4) [OF n] by (auto simp: dispatch_cb_def)
  next
    case (Some a)
    then show ?thesis using r by (auto simp: dispatch_cb_def sreset_def elim!: inversion dest!: check_InrD)
  qed
  have idle: "s_tasks s' = s_tasks s \<and> ?pc w'" if "dispatch_idle ia w s = Inr (w', s')"
    using that by (auto simp: dispatch_idle_def idle_over_def elim!: inversion split: if_splits)
  have task: "s_tasks s' = s_tasks s \<and> ?pc w'" if "dispatch_fiber a w s = Inr (w', s')" for a
    using that by (auto simp: dispatch_fiber_def)
  from assms have "s_tasks s' = s_tasks s \<and> ?pc w'" by (cases rule: dispatch_cases) (rule task cb idle, assumption)+
  then show "s_tasks s' = s_tasks s" "?pc w'" by simp_all
qed

lemma same_tasks:
  assumes "worker_step une beh w s = Inr (w', s')" "wk_pc w \<noteq> P_scan" "\<And>r a q qs out. wk_pc w \<noteq> P_request r a q qs out"
    and "\<And>r a. wk_pc w \<noteq> P_close r a Cl_schedule"
  shows "s_tasks s' = s_tasks s"
proof (cases "wk_pc w")
  case P_start
  then show ?thesis using assms(1) snew_effect(4) [of "Idle False" "slog DEBUG (s_name s @ '' run'') s"]
    by (auto simp: worker_step_def split: prod.splits)
next
  case (P_dispatch ft ia)
  then show ?thesis using assms(1) dispatch_step(1) [of ft ia w s w' s'] by (simp add: worker_step_def)
next
  case (P_enter r a)
  then show ?thesis using assms(1) swapIn_sset [of r a s] by (auto simp: worker_step_def)
next
  case (P_run r a b)
  then show ?thesis using assms(1) by (cases b) (auto simp: worker_step_def split: prod.splits if_splits)
next
  case (P_yield r a out)
  then show ?thesis using assms(1) set_yield_sset [of a out s] by (auto simp: worker_step_def)
next
  case (P_save r a out)
  then show ?thesis using assms(1) save_ctx_sset [of a out s] by (auto simp: worker_step_def)
next
  case (P_settle r a)
  then show ?thesis using assms(1) counters_settle [of r a w s w' s'] by (simp add: worker_step_def)
next
  case (P_close r a cl)
  then show ?thesis using assms(1,4)
    by (cases cl) (auto simp: worker_step_def close_def Let_def sreset_def elim!: inversion dest!: check_InrD)
qed (use assms in \<open>auto simp: worker_step_def after_swap_def\<close>)

lemma unpinned_step:
  assumes "worker_safe rest s w" "unpinned_code beh" "unpinned s" "pc_unpinned (wk_pc w)" "worker_step une beh w s = Inr (w', s')"
  shows "unpinned s'" "pc_unpinned (wk_pc w')"
proof -
  consider (scan) "wk_pc w = P_scan" | (request) r a q qs out where "wk_pc w = P_request r a q qs out"
    | (schedule) r a where "wk_pc w = P_close r a Cl_schedule" | (other) "s_tasks s' = s_tasks s"
    using same_tasks [OF assms(5)] by blast
  then show "unpinned s'"
  proof cases
    case scan
    from assms(1) scan assms(5) show ?thesis by (cases rule: scan_step) (use assms(3) in \<open>auto simp: unpinned_def\<close>)
  next
    case request
    then have "s' = do_request a q s" "unpinned_request q" using assms(4,5) by (auto simp: worker_step_def)
    then show ?thesis using assms(3) by (cases q) (auto intro: unpinned_schedule)
  next
    case schedule
    then show ?thesis using assms(3,5) by (auto simp: worker_step_def close_def Let_def intro: unpinned_schedule)
  qed (use assms(3) unpinned_same in blast)
  show "pc_unpinned (wk_pc w')"
  proof (cases "wk_pc w")
    case (P_dispatch ft ia)
    then have "dispatch ft ia w s = Inr (w', s')" using assms(5) by (simp add: worker_step_def)
    from dispatch_step(2) [OF this] show ?thesis by auto
  next
    case (P_enter r a)
    then show ?thesis using assms(5)
      by (auto simp: worker_step_def sswapIn_def sresume_def elim!: inversion dest!: check_InrD split: ctx.splits option.splits)
  next
    case (P_run r a b)
    obtain reqs out where b: "run_body beh b s = (reqs, out, s')" "w' = goto (requesting r a reqs out) w"
      using assms(5) by (auto simp: worker_step_def P_run split: prod.splits)
    have "list_all unpinned_request reqs"
    proof (cases b)
      case (User c)
      then obtain out' u' where "beh c (s_user s) = (reqs, out', u')" using b(1) by (auto split: prod.splits)
      then show ?thesis using assms(2) unfolding unpinned_code_def by blast
    qed (use b(1) in simp)
    then show ?thesis by (simp add: b(2) requesting_unpinned)
  next
    case (P_request r a q qs out)
    then show ?thesis using assms(4,5) by (auto simp: worker_step_def requesting_unpinned)
  next
    case (P_close r a cl)
    then show ?thesis using assms(5) counters_close [of r a cl w s w' s'] by (simp add: worker_step_def)
  next
    case P_start
    then show ?thesis using assms(5) by (auto simp: worker_step_def split: prod.splits)
  next
    case (P_settle r a)
    then show ?thesis using assms(5)
      by (auto simp: worker_step_def settle_def Let_def elim!: inversion split: if_split_asm)
  qed (use assms(5) in \<open>auto simp: worker_step_def\<close>)
qed

section \<open>The last look at the queue\<close>

text \<open>The worker leaves without looking at the queue again.\<close>

definition past :: "('c, 'u) sched \<Rightarrow> 'c worker \<Rightarrow> bool" where
  "past s w \<longleftrightarrow> wk_pc w = P_done \<or> (\<exists>ft. wk_pc w = P_dispatch ft False) \<and> idle_over s w"

lemma past_ended: "past s w \<Longrightarrow> ended s w"
  by (auto simp: past_def ended_def)

lemma role_not_past: "pc_role (wk_pc w) = Some r \<Longrightarrow> \<not> past s w"
  by (cases "wk_pc w") (simp_all add: past_def)

lemma past_place:
  assumes "worker_step une beh w s = Inr (w', s')" "past s' w'"
  shows "past s w \<or> wk_pc w = P_scan"
proof (cases "wk_pc w")
  case (P_dispatch ft ia)
  then have "dispatch ft ia w s = Inr (w', s')" using assms(1) by (simp add: worker_step_def)
  from dispatch_step(2) [OF this] show ?thesis using assms(2) by (auto simp: P_dispatch past_def)
next
  case (P_enter r a)
  then obtain pc where "w' = goto pc w" "pc_role pc = Some r"
    using assms(1) counters_swapIn [of r a s] by (auto simp: worker_step_def)
  then show ?thesis using assms(2) role_not_past [of w' r s'] by simp
next
  case (P_run r a b)
  then obtain reqs out where "w' = goto (requesting r a reqs out) w" using assms(1) by (auto simp: worker_step_def split: prod.splits)
  then show ?thesis using assms(2) role_not_past [of w' r s'] by simp
next
  case (P_request r a q qs out)
  then have "w' = goto (requesting r a qs out) w" using assms(1) by (auto simp: worker_step_def)
  then show ?thesis using assms(2) role_not_past [of w' r s'] by simp
next
  case (P_close r a cl)
  then show ?thesis using assms counters_close [of r a cl w s w' s'] by (simp add: worker_step_def past_def)
next
  case (P_settle r a)
  then show ?thesis using assms
    by (auto simp: worker_step_def settle_def Let_def past_def elim!: inversion split: if_split_asm)
next
  case P_start
  then show ?thesis using assms by (auto simp: worker_step_def past_def split: prod.splits)
qed (use assms in \<open>auto simp: worker_step_def past_def\<close>)

lemma unpinned_eligible: "shared_safe s \<Longrightarrow> unpinned s \<Longrightarrow> t \<in> set (s_tasks s) \<Longrightarrow> eligible s tid t"
  by (fastforce simp: shared_safe_def task_safe_def unpinned_def eligible_def split: option.splits)

text \<open>A worker that does not look at the queue again found it empty.\<close>

lemma past_step:
  assumes "worker_safe rest s w" "unpinned s" "worker_step une beh w s = Inr (w', s')" "past s' w'"
  shows "s_tasks s' = s_tasks s" "past s w \<or> s_tasks s = []"
proof -
  have "s_tasks s' = s_tasks s \<and> (past s w \<or> s_tasks s = [])"
  proof (cases "wk_pc w = P_scan")
    case True
    have "shared_safe s" using assms(1) by (simp add: worker_safe_def)
    then have el: "eligible s (wk_tid w) t" if "t \<in> set (s_tasks s)" for t by (rule unpinned_eligible [OF _ assms(2) that])
    from assms(1) True assms(3) show ?thesis
    proof (cases rule: scan_step)
      case taken
      then show ?thesis using assms(4) by (simp add: past_def)
    next
      case none
      then show ?thesis using el by (cases "s_tasks s") auto
    qed
  next
    case False
    then have p: "past s w" using past_place [OF assms(3,4)] by blast
    then have "s_tasks s' = s_tasks s" by (intro same_tasks [OF assms(3)]) (auto simp: past_def)
    then show ?thesis using p by simp
  qed
  then show "s_tasks s' = s_tasks s" "past s w \<or> s_tasks s = []" by simp_all
qed

lemma past_frame: "\<forall>a\<in>set (holds w). sget s' a = sget s a \<Longrightarrow> past s' w = past s w"
  by (auto simp: past_def idle_over_def holds_iff)

section \<open>All the workers\<close>

definition none_ended :: "('c, 'u) sched_sys \<Rightarrow> bool" where
  "none_ended y \<longleftrightarrow> (\<forall>w\<in>set (y_workers y). \<not> ended (y_sched y) w)"

lemma ended_frame: "\<forall>a\<in>set (holds w). sget s' a = sget s a \<Longrightarrow> ended s' w = ended s w"
  by (auto simp: ended_def idle_over_def holds_iff)

text \<open>The first worker to end saw \<open>stopping()\<close>.\<close>

lemma first_end:
  assumes "sys_safe y" "counters_inv y" "none_ended y" "calm_code beh" "sys_step une beh (Ev_step i) y = Inr y'"
  shows "flags (y_sched y') = flags (y_sched y)" "length (y_workers y') = length (y_workers y)"
    "none_ended y' \<or> stopping (y_sched y)"
proof -
  have "flags (y_sched y') = flags (y_sched y) \<and> length (y_workers y') = length (y_workers y) \<and>
    (none_ended y' \<or> stopping (y_sched y))"
  proof (cases "i < length (y_workers y)")
    case True
    let ?s = "y_sched y" and ?w = "y_workers y ! i"
    note safe = sys_worker(1) [OF assms(1) True]
    from sys_step_worker [OF assms(1) True assms(4), of une] obtain w' s' where
      st: "worker_step une beh ?w ?s = Inr (w', s')"
        "sys_step une beh (Ev_step i) y = Inr (y\<lparr>y_sched := s', y_workers := (y_workers y)[i := w']\<rparr>)"
        "\<And>v. v \<in> set (others (y_workers y) i) \<Longrightarrow> \<forall>a\<in>set (holds v). sget s' a = sget ?s a" by blast
    have y': "y' = y\<lparr>y_sched := s', y_workers := (y_workers y)[i := w']\<rparr>" using st(2) assms(5) by simp
    have "none_ended y'" if ns: "\<not> stopping ?s"
    proof -
      have "\<not> ended s' v" if "v \<in> set ((y_workers y)[i := w'])" for v
      proof -
        have "v = w' \<or> v \<in> set (others (y_workers y) i)" using that True by (auto simp: others_def upd_conv_take_nth_drop)
        then show ?thesis
        proof
          assume "v = w'"
          then show ?thesis using ended_step [OF safe st(1)] ns assms(3) True by (auto simp: none_ended_def)
        next
          assume v: "v \<in> set (others (y_workers y) i)"
          then have "ended s' v = ended ?s v" by (intro ended_frame st(3))
          moreover have "v \<in> set (y_workers y)" using v by (auto simp: others_def dest: in_set_takeD in_set_dropD)
          ultimately show ?thesis using assms(3) by (auto simp: none_ended_def)
        qed
      qed
      then show ?thesis by (simp add: none_ended_def y')
    qed
    then show ?thesis using flags_step [OF safe st(1)] by (auto simp: y' flags_def)
  next
    case False
    then show ?thesis using assms(3,5) by (auto simp: sys_step_def)
  qed
  then show "flags (y_sched y') = flags (y_sched y)" "length (y_workers y') = length (y_workers y)"
    "none_ended y' \<or> stopping (y_sched y)" by simp_all
qed

text \<open>Whether tasks wait, and somebody will look at the queue.\<close>

definition unpinned_sys :: "('c, 'u) sched_sys \<Rightarrow> bool" where
  "unpinned_sys y \<longleftrightarrow> unpinned (y_sched y) \<and> (\<forall>w\<in>set (y_workers y). pc_unpinned (wk_pc w))"

definition attended :: "('c, 'u) sched_sys \<Rightarrow> bool" where
  "attended y \<longleftrightarrow> s_tasks (y_sched y) = [] \<or> (\<exists>w\<in>set (y_workers y). \<not> past (y_sched y) w)"

lemma unpinned_sys_step:
  assumes "sys_safe y" "calm_code beh" "unpinned_code beh" "unpinned_sys y" "unpinned_event ev" "sys_step une beh ev y = Inr y'"
  shows "unpinned_sys y'"
proof (cases ev)
  case (Ev_step i)
  show ?thesis
  proof (cases "i < length (y_workers y)")
    case True
    then obtain w' s' where st: "worker_step une beh (y_workers y ! i) (y_sched y) = Inr (w', s')"
      "y' = y\<lparr>y_sched := s', y_workers := (y_workers y)[i := w']\<rparr>"
      using assms(6) by (auto simp: sys_step_def Ev_step)
    have u: "unpinned (y_sched y)" "pc_unpinned (wk_pc (y_workers y ! i))" using assms(4) True by (simp_all add: unpinned_sys_def)
    note n = unpinned_step [OF sys_worker(1) [OF assms(1) True] assms(3) u st(1)]
    show ?thesis using n assms(4) set_update_subset_insert [of "y_workers y" i w'] by (auto simp: st(2) unpinned_sys_def)
  qed (use assms(4,6) in \<open>simp add: sys_step_def Ev_step\<close>)
next
  case (Ev_schedule fc thread)
  then show ?thesis using assms(4-6) unpinned_schedule [of "y_sched y" fc] by (auto simp: sys_step_def unpinned_sys_def)
qed (use assms(4,6) in \<open>auto simp: sys_step_def unpinned_sys_def unpinned_def new_worker_def\<close>)

text \<open>Before \<open>stop\<close> no worker ends.\<close>

definition running :: "('c, 'u) sched_sys \<Rightarrow> bool" where
  "running y \<longleftrightarrow> sys_safe y \<and> counters_inv y \<and> unpinned_sys y \<and> \<not> s_autoStop (y_sched y) \<and> none_ended y"

lemma none_ended_same:
  assumes "none_ended y" "sget s' = sget (y_sched y)"
  shows "none_ended (y\<lparr>y_sched := s'\<rparr>)"
  using assms by (simp add: none_ended_def ended_def idle_over_def)

definition before_stop :: "('c, 'u) event \<Rightarrow> bool" where
  "before_stop ev \<longleftrightarrow> callbacks_event ev \<and> unpinned_event ev \<and> ev \<noteq> Ev_stop"

lemma running_step:
  assumes "calm_code beh" "unpinned_code beh" "running y" "before_stop ev"
  shows "\<exists>y'. sys_step une beh ev y = Inr y' \<and> running y'"
proof -
  have run: "sys_safe y" "counters_inv y" "unpinned_sys y" "\<not> s_autoStop (y_sched y)" "none_ended y"
    using assms(3) by (simp_all add: running_def)
  have ev: "callbacks_event ev" "unpinned_event ev" "ev \<noteq> Ev_stop" using assms(4) by (simp_all add: before_stop_def)
  obtain y' where y': "sys_step une beh ev y = Inr y'" "sys_safe y'"
    using sys_safe_event [OF run(1) callbacks_allowed [OF ev(1)] assms(1)] by blast
  have "\<not> s_autoStop (y_sched y') \<and> none_ended y'"
  proof (cases ev)
    case (Ev_step i)
    then show ?thesis using first_end [OF run(1,2,5) assms(1)] y'(1) run(4) by (auto simp: stopping_def flags_def)
  next
    case (Ev_schedule fc thread)
    have "sget (schedule fc thread (y_sched y)) = sget (y_sched y)" by (intro ext) (rule sget_schedule)
    then show ?thesis using y'(1) run(4) none_ended_same [OF run(5)]
      by (auto simp: sys_step_def Ev_schedule schedule_effect)
  next
    case Ev_started
    have "sget ((y_sched y)\<lparr>s_stopping := False\<rparr>) = sget (y_sched y)" by (simp add: sget_def fun_eq_iff)
    then show ?thesis using y'(1) run(4) none_ended_same [OF run(5)] by (auto simp: sys_step_def Ev_started)
  next
    case (Ev_thread tid)
    then show ?thesis using y'(1) run(4,5) by (auto simp: sys_step_def none_ended_def new_worker_def ended_def)
  next
    case (Ev_user u)
    have "sget ((y_sched y)\<lparr>s_user := u\<rparr>) = sget (y_sched y)" by (simp add: sget_def fun_eq_iff)
    then show ?thesis using y'(1) run(4) none_ended_same [OF run(5)] by (auto simp: sys_step_def Ev_user)
  qed (use ev(3) in simp)
  then show ?thesis using y' counters_inv_step [OF run(2) y'(1)] unpinned_sys_step [OF run(1) assms(1,2) run(3) ev(2) y'(1)]
    by (auto simp: running_def)
qed

interpretation unstopped: safe_steps "sys_step une beh" "\<lambda>ev y. before_stop ev"
  "\<lambda>y. calm_code beh \<and> unpinned_code beh \<and> running y" for une beh
  by unfold_locales (auto dest: running_step)

text \<open>After it the workers go on, and other code of the user may change the data; as long as tasks wait, some worker will look
  at the queue.\<close>

definition draining :: "('c, 'u) sched_sys \<Rightarrow> bool" where
  "draining y \<longleftrightarrow> sys_safe y \<and> counters_inv y \<and> unpinned_sys y \<and> flags (y_sched y) = (True, True) \<and> attended y"

lemma attended_step:
  assumes "sys_safe y" "unpinned_sys y" "attended y" "calm_code beh" "sys_step une beh (Ev_step i) y = Inr y'"
  shows "attended y'"
proof (cases "i < length (y_workers y)")
  case True
  let ?s = "y_sched y" and ?w = "y_workers y ! i"
  note safe = sys_worker(1) [OF assms(1) True]
  from sys_step_worker [OF assms(1) True assms(4), of une] obtain w' s' where
    st: "worker_step une beh ?w ?s = Inr (w', s')"
      "sys_step une beh (Ev_step i) y = Inr (y\<lparr>y_sched := s', y_workers := (y_workers y)[i := w']\<rparr>)"
      "\<And>v. v \<in> set (others (y_workers y) i) \<Longrightarrow> \<forall>a\<in>set (holds v). sget s' a = sget ?s a" by blast
  have y': "y' = y\<lparr>y_sched := s', y_workers := (y_workers y)[i := w']\<rparr>" using st(2) assms(5) by simp
  have u: "unpinned ?s" using assms(2) by (simp add: unpinned_sys_def)
  show ?thesis
  proof (cases "past s' w'")
    case False
    then show ?thesis using True set_update_memI [of i "y_workers y" w'] by (auto simp: y' attended_def)
  next
    case p: True
    note step = past_step [OF safe u st(1) p]
    show ?thesis
    proof (cases "s_tasks ?s = []")
      case False
      then obtain v where v: "v \<in> set (y_workers y)" "\<not> past ?s v" "past ?s ?w" using step(2) assms(3) by (auto simp: attended_def)
      then obtain j where j: "j < length (y_workers y)" "v = y_workers y ! j" "j \<noteq> i" by (auto simp: in_set_conv_nth)
      have "\<not> past s' v" using past_frame [OF st(3), of v] nth_others [OF j(1,3)] v(2) j(2) by simp
      moreover have "v \<in> set ((y_workers y)[i := w'])" using j by (metis length_list_update nth_list_update_neq nth_mem)
      ultimately show ?thesis by (auto simp: y' attended_def)
    qed (use step(1) in \<open>simp add: y' attended_def\<close>)
  qed
next
  case False
  then show ?thesis using assms(3,5) by (simp add: sys_step_def)
qed

lemma draining_step:
  assumes "draining y" "calm_code beh" "unpinned_code beh" "sys_step une beh (after_stop e) y = Inr y'"
  shows "draining y'"
proof -
  have d: "sys_safe y" "counters_inv y" "unpinned_sys y" "flags (y_sched y) = (True, True)" "attended y"
    using assms(1) by (simp_all add: draining_def)
  have e: "allowed (after_stop e) y" "unpinned_event (after_stop e)" by (cases e; simp add: allowed_def)+
  have "flags (y_sched y') = flags (y_sched y) \<and> attended y'"
  proof (cases e)
    case (Inl i)
    have "flags (y_sched y') = flags (y_sched y)"
    proof (cases "i < length (y_workers y)")
      case True
      then show ?thesis using assms(4) flags_step [OF sys_worker(1) [OF d(1) True]] by (auto simp: Inl sys_step_def)
    qed (use assms(4) in \<open>simp add: Inl sys_step_def\<close>)
    then show ?thesis using attended_step [OF d(1,3,5) assms(2)] assms(4) Inl by simp
  next
    case (Inr u)
    then show ?thesis using assms(4) d(5) by (auto simp: sys_step_def attended_def past_def idle_over_def)
  qed
  then show ?thesis using sys_safe_event [OF d(1) e(1) assms(2), of une] counters_inv_step [OF d(2) assms(4)]
      unpinned_sys_step [OF d(1) assms(2,3) d(3) e(2) assms(4)] assms(4) d(4) by (simp add: draining_def)
qed

interpretation drained: keeps "\<lambda>e. sys_step une beh (after_stop e)" "\<lambda>y. calm_code beh \<and> unpinned_code beh \<and> draining y" for une beh
  by unfold_locales (auto dest: draining_step)

section \<open>What \<open>stop\<close> waits for\<close>

lemma run_steps: "run_events une beh (map after_stop es) y = rfold (\<lambda>e. sys_step une beh (after_stop e)) es y"
  unfolding run_events_def by (induction es arbitrary: y) (simp_all cong: rbind_cong)

lemma run_split:
  "run_events une beh (evs @ Ev_stop # map after_stop es) y = Inr y' \<longleftrightarrow>
    (\<exists>y1 y2. run_events une beh evs y = Inr y1 \<and> sys_step une beh Ev_stop y1 = Inr y2 \<and>
       rfold (\<lambda>e. sys_step une beh (after_stop e)) es y2 = Inr y')"
  by (auto simp: run_events_def rfold_append run_steps [unfolded run_events_def])

lemma unstopped_permitted: "list_all before_stop evs \<Longrightarrow> permitted (\<lambda>ev y. before_stop ev) step evs y"
  by (induction evs arbitrary: y) (auto split: sum.split)

lemma running_start: "running (sched_start name u)"
proof -
  have "\<not> s_autoStop (y_sched (sched_start name u))" "none_ended (sched_start name u)" "unpinned_sys (sched_start name u)"
    by (simp_all add: sched_start_def none_ended_def unpinned_sys_def unpinned_def)
  then show ?thesis by (simp add: running_def sys_safe_start counters_inv_start)
qed

lemma steps_length:
  "rfold (\<lambda>e. sys_step une beh (after_stop e)) es y = Inr y' \<Longrightarrow> length (y_workers y') = length (y_workers y)"
proof (induction es arbitrary: y)
  case (Cons e es)
  then obtain y1 where "sys_step une beh (after_stop e) y = Inr y1" "length (y_workers y') = length (y_workers y1)" by auto
  then show ?case by (cases e) (auto simp: sys_step_def split: if_splits)
qed simp

lemma after_stop_events [simp]: "arrival (after_stop e) = {#}" "callbacks_event (after_stop e)"
  by (cases e; simp)+

lemma stop_arrivals: "arrivals (evs @ Ev_stop # map after_stop es) = arrivals evs"
proof -
  have "arrivals (map after_stop es) = {#}" by (induction es) (simp_all add: arrivals_def)
  then show ?thesis by (simp add: arrivals_def)
qed

text \<open>\<open>stop\<close> is called on a running scheduler.\<close>

lemma running_run:
  assumes "calm_code beh" "unpinned_code beh" "list_all before_stop evs" "run_events une beh evs (sched_start name u) = Inr y"
  shows "running y"
  using unstopped.run_safe [OF unstopped_permitted [OF assms(3)], of beh "sched_start name u" une] assms(1,2,4) running_start [of name u]
  by (auto simp: run_events_def)

lemma stopped:
  assumes "running y" "calm_code beh" "sys_step une beh Ev_stop y = Inr y'" "y_workers y \<noteq> []"
  shows "draining y'" "y_workers y' = y_workers y" "sys_bag y' = sys_bag y"
proof -
  have y: "sys_safe y" "counters_inv y" "unpinned_sys y" "none_ended y" using assms(1) by (simp_all add: running_def)
  have "sget ((y_sched y)\<lparr>s_autoStop := True, s_stopping := True\<rparr>) = sget (y_sched y)" by (simp add: sget_def fun_eq_iff)
  then have n: "none_ended y'" using assms(3) none_ended_same [OF y(4)] by (auto simp: sys_step_def)
  show w: "y_workers y' = y_workers y" using assms(3) by (auto simp: sys_step_def)
  have "attended y'" using n assms(4) past_ended by (cases "y_workers y") (auto simp: attended_def none_ended_def w)
  moreover have "sys_safe y'" using sys_safe_event [OF y(1) callbacks_allowed assms(2), of Ev_stop une] assms(3) by simp
  moreover have "flags (y_sched y') = (True, True)" "unpinned_sys y'"
    using assms(3) y(3) by (auto simp: sys_step_def flags_def unpinned_sys_def unpinned_def)
  ultimately show "draining y'" using counters_inv_step [OF y(2) assms(3)] by (simp add: draining_def)
  show "sys_bag y' = sys_bag y" using assms(3) by (auto simp: sys_step_def intro: sys_bag_flags)
qed

text \<open>When everybody has left, nothing is left.\<close>

lemma drained_end:
  assumes "draining y" "length (y_workers y) < 2 ^ 64" "\<forall>w\<in>set (y_workers y). wk_pc w = P_done"
  shows "stopping (y_sched y)" "sys_bag y = {#}"
proof -
  have d: "sys_safe y" "counters_inv y" "flags (y_sched y) = (True, True)" "attended y" using assms(1) by (simp_all add: draining_def)
  have "s_tasks (y_sched y) = []" using d(4) assms(3) by (auto simp: attended_def past_def)
  moreover have "s_active (y_sched y) = 0" using counters_quiet(3) [OF d(2) assms(2)] assms(3) by auto
  ultimately show "stopping (y_sched y)" using d(3) by (simp add: stopping_def flags_def)
  then show "sys_bag y = {#}" using stopping_empty [OF d(1,2) assms(2)] assms(3) by simp
qed


text \<open>A worker runs a callback and ends.\<close>

definition some_events :: "(nat, nat list) event list" where
  "some_events = [Ev_thread 11, Ev_started, Ev_schedule (Cb (Some 1)) (- 1)]"

definition drain_steps :: "(nat + nat list) list" where
  "drain_steps = replicate 20 (Inl 0)"

lemma drain_runs:
  "\<exists>y. run_events True relay_beh (some_events @ Ev_stop # map after_stop drain_steps) (sched_start ''s'' []) = Inr y \<and>
     length (y_workers y) = 1 \<and> (\<forall>w\<in>set (y_workers y). wk_pc w = P_done) \<and> s_user (y_sched y) = [1]"
  by (simp add: run_events_def drain_steps_def some_events_def numeral_eq_Suc sched_start_def sched_defs scan.simps relay_beh_def
    stopping_def empty_task_def sreset_def may_end_def)

lemma relay_calm: "calm_code relay_beh" "unpinned_code relay_beh"
  by (auto simp: calm_code_def unpinned_code_def relay_beh_def split: if_splits)


end
