(* ===== verification/SchedulerFair.thy ===== *)
theory SchedulerFair
  imports SchedulerDrain
begin

text \<open>
  Under fair interleavings \<open>stop\<close> returns: when every order of running the pieces of code ends, every
  task is for any thread, and no worker is left waiting for ever, then \<open>stopping()\<close> becomes true for
  good and all the workers leave \<open>Scheduler::run\<close>.
\<close>

section \<open>Programs that end\<close>

text \<open>Every order in which the bag machine can run what is left, on whatever data, ends within \<open>n\<close> runs.\<close>

fun ends_within :: "('c, 'u) behaviour \<Rightarrow> nat \<Rightarrow> 'c multiset \<Rightarrow> bool" where
  "ends_within beh 0 B = (B = {#})"
| "ends_within beh (Suc n) B =
     (\<forall>c\<in>set_mset B. \<forall>u. case beh c u of (reqs, out, u') \<Rightarrow> ends_within beh n (B - {#c#} + left_by reqs out))"

definition runs_left :: "('c, 'u) behaviour \<Rightarrow> 'c multiset \<Rightarrow> nat" where
  "runs_left beh B = (LEAST n. ends_within beh n B)"

lemma run_left:
  assumes "ends_within beh n B" "c \<in># B" "beh c u = (reqs, out, u')"
  shows "runs_left beh (B - {#c#} + left_by reqs out) < runs_left beh B"
    "\<exists>m. ends_within beh m (B - {#c#} + left_by reqs out)"
proof -
  have l: "ends_within beh (runs_left beh B) B" unfolding runs_left_def by (rule LeastI [where P = "\<lambda>n. ends_within beh n B", OF assms(1)])
  then obtain k where k: "runs_left beh B = Suc k" using assms(2) by (cases "runs_left beh B") auto
  then have "case beh c u of (reqs, out, u') \<Rightarrow> ends_within beh k (B - {#c#} + left_by reqs out)" using l assms(2) by simp
  then have e: "ends_within beh k (B - {#c#} + left_by reqs out)" by (simp add: assms(3))
  have "runs_left beh (B - {#c#} + left_by reqs out) \<le> k" unfolding runs_left_def by (rule Least_le) (rule e)
  then show "runs_left beh (B - {#c#} + left_by reqs out) < runs_left beh B" by (simp add: k)
  show "\<exists>m. ends_within beh m (B - {#c#} + left_by reqs out)" using e by blast
qed

section \<open>What is left of a turn\<close>

text \<open>The worker has a task, or a fiber it has not seen to.\<close>

definition busy :: "'c worker_pc \<Rightarrow> bool" where
  "busy pc \<longleftrightarrow> pc_active pc \<or> unsettled pc"

text \<open>The weight of a task that a worker has, until it is back in the queue (weight 9) or done.\<close>

fun goes_on :: "'c outcome \<Rightarrow> bool" where
  "goes_on (Yields st k) = (st = READY)"
| "goes_on (Ends e) = False"

definition ready :: "('c, 'u) sched \<Rightarrow> addr \<Rightarrow> bool" where
  "ready s a \<longleftrightarrow> (\<exists>f. sget s a = Some f \<and> fb_state f = READY)"

fun stage :: "('c, 'u) sched \<Rightarrow> 'c worker_pc \<Rightarrow> nat" where
  "stage s (P_dispatch ft ia) = (if ia then 8 else 0)"
| "stage s P_drop = 7"
| "stage s (P_enter r a) = (if r = Of_idle then 0 else 7)"
| "stage s (P_run r a b) = (if r = Of_idle then 0 else 6)"
| "stage s (P_request r a q qs out) = (if r = Of_idle then 0 else 10 * Suc (length qs) + (if goes_on out then 14 else 5))"
| "stage s (P_yield r a out) = (if r = Of_idle then 0 else if goes_on out then 14 else 5)"
| "stage s (P_save r a out) = (if r = Of_idle then 0 else if goes_on out then 13 else 4)"
| "stage s (P_after r a) = (if r = Of_idle then 0 else if ready s a then 12 else 3)"
| "stage s (P_settle r a) = (if r = Of_idle then 0 else if ready s a then 11 else 2)"
| "stage s (P_close r a cl) = (if r = Of_idle then 0 else if cl = Cl_schedule then 10 else 1)"
| "stage s _ = 0"

definition weight :: "('c, 'u) sched \<Rightarrow> 'c worker_pc \<Rightarrow> nat" where
  "weight s pc = 9 * length (s_tasks s) + stage s pc"

text \<open>The steps of a worker without a task to its next critical section.\<close>

fun to_scan :: "'c worker_pc \<Rightarrow> nat" where
  "to_scan (P_dispatch ft ia) = 8"
| "to_scan (P_enter r a) = 7"
| "to_scan (P_run r a b) = 6"
| "to_scan (P_yield r a out) = 5"
| "to_scan (P_save r a out) = 4"
| "to_scan (P_after r a) = 3"
| "to_scan (P_settle r a) = 2"
| "to_scan (P_close r a cl) = 1"
| "to_scan P_start = 1"
| "to_scan _ = 0"

text \<open>A step makes the weight smaller; or the worker has no task, takes none, and comes nearer to its
  critical section, if it has one before it.\<close>

definition advances :: "'c worker \<Rightarrow> ('c, 'u) sched \<Rightarrow> 'c worker \<Rightarrow> ('c, 'u) sched \<Rightarrow> bool" where
  "advances w s w' s' \<longleftrightarrow> weight s' (wk_pc w') < weight s (wk_pc w) \<or>
     weight s' (wk_pc w') = weight s (wk_pc w) \<and> s_tasks s' = s_tasks s \<and> \<not> busy (wk_pc w) \<and> \<not> busy (wk_pc w') \<and>
     (past s w \<and> past s' w' \<or> (if wk_pc w = P_scan then s_tasks s = [] else to_scan (wk_pc w') < to_scan (wk_pc w)))"

lemma advances_less: "weight s' (wk_pc w') < weight s (wk_pc w) \<Longrightarrow> advances w s w' s'"
  by (simp add: advances_def)

lemma advances_near:
  assumes "s_tasks s' = s_tasks s" "stage s (wk_pc w) = 0" "stage s' (wk_pc w') = 0" "\<not> busy (wk_pc w)" "\<not> busy (wk_pc w')"
    and "wk_pc w \<noteq> P_scan" "to_scan (wk_pc w') < to_scan (wk_pc w)"
  shows "advances w s w' s'"
  using assms by (simp add: advances_def weight_def)

lemma busy_simps [simp]:
  "\<not> busy P_start" "\<not> busy P_scan" "\<not> busy P_done" "busy (P_dispatch ft b) = b" "busy P_drop"
  "busy (P_enter r a) = (r \<noteq> Of_idle)" "busy (P_run r a x) = (r \<noteq> Of_idle)" "busy (P_request r a q qs out) = (r \<noteq> Of_idle)"
  "busy (P_yield r a out) = (r \<noteq> Of_idle)" "busy (P_save r a out) = (r \<noteq> Of_idle)" "busy (P_after r a) = (r \<noteq> Of_idle)"
  "busy (P_settle r a) = (r \<noteq> Of_idle)" "busy (P_close r a cl) = (r \<noteq> Of_idle)"
  by (simp_all add: busy_def)

lemma advances_scan:
  assumes "worker_safe rest s w" "wk_pc w = P_scan" "unpinned s" "worker_step une beh w s = Inr (w', s')"
  shows "advances w s w' s'"
proof -
  have "shared_safe s" using assms(1) by (simp add: worker_safe_def)
  then have el: "eligible s (wk_tid w) t" if "t \<in> set (s_tasks s)" for t by (rule unpinned_eligible [OF _ assms(3) that])
  from assms(1,2,4) show ?thesis
  proof (cases rule: scan_step)
    case taken
    then show ?thesis by (intro advances_less) (simp add: weight_def assms(2))
  next
    case none
    then have "s_tasks s = []" using el by (cases "s_tasks s") auto
    then show ?thesis using none by (simp add: advances_def weight_def assms(2))
  qed
qed

lemma past_stays:
  assumes "pc_ok (wk_pc w)" "past s w" "worker_step une beh w s = Inr (w', s')"
  shows "wk_pc w' = P_done"
proof (cases "wk_pc w = P_done")
  case False
  then obtain ft where pc: "wk_pc w = P_dispatch ft False" "idle_over s w" using assms(2) by (auto simp: past_def)
  have "tk_fiber ft = None" "tk_cb ft = None" using assms(1) pc(1) unfolding pc_ok_def by blast+
  then have "dispatch_idle False w s = Inr (w', s')" using assms(3) by (simp add: worker_step_def pc(1) dispatch_def)
  then show ?thesis using pc(2) by (auto simp: dispatch_idle_def idle_over_def)
qed (use assms(3) in \<open>auto simp: worker_step_def\<close>)

lemma advances_dispatch:
  assumes "wk_pc w = P_dispatch ft ia" "pc_ok (wk_pc w)" "worker_step une beh w s = Inr (w', s')"
  shows "advances w s w' s'"
proof -
  have step: "dispatch ft ia w s = Inr (w', s')" using assms(3) by (simp add: worker_step_def assms(1))
  note d = dispatch_step [OF step]
  show ?thesis
  proof (cases ia)
    case True
    then show ?thesis using d by (intro advances_less) (auto simp: weight_def assms(1))
  next
    case False
    have "tk_fiber ft = None" "tk_cb ft = None" using assms(1,2) False unfolding pc_ok_def by blast+
    then have i: "dispatch_idle ia w s = Inr (w', s')" using step by (simp add: dispatch_def)
    show ?thesis
    proof (cases "idle_over s w")
      case True
      then have p: "past s w" using False by (simp add: past_def assms(1))
      then have "wk_pc w' = P_done" by (rule past_stays [OF assms(2) _ assms(3)])
      then show ?thesis using d(1) False p by (simp add: advances_def weight_def assms(1) past_def)
    next
      case no: False
      then have "wk_pc w' = P_enter Of_idle (wk_idle w)"
        using i False by (auto simp: dispatch_idle_def idle_over_def elim!: inversion)
      then show ?thesis using d(1) False by (intro advances_near) (simp_all add: assms(1))
    qed
  qed
qed

lemma advances_enter:
  assumes "worker_safe rest s w" "wk_pc w = P_enter r a" "worker_step une beh w s = Inr (w', s')"
  shows "advances w s w' s'"
proof -
  have t: "s_tasks s' = s_tasks s" by (rule same_tasks [OF assms(3)]) (simp_all add: assms(2))
  have i: "inside r a (\<lambda>f. fb_state f \<noteq> EXEC \<and> \<not> finished f) s w" and sh: "shared_safe s"
    using assms(1,2) by (simp_all add: worker_safe_def)
  then obtain f where f: "sget s a = Some f" "fb_state f \<noteq> EXEC" "fb_state f \<noteq> TERM'" "fb_state f \<noteq> EXCEPT" "r = Of_idle \<longrightarrow> idle_fit f"
    by (auto simp: inside_def finished_def)
  from swapIn_safe [OF f(1) fit_of [OF sh f(1)] f(2-5)] obtain pc where
    pc: "sswapIn r a s = Inr (pc, sset a (f\<lparr>fb_state := EXEC\<rparr>) s)" "pc_entry r a pc" by blast
  then have w': "wk_pc w' = pc" using assms(3) by (auto simp: worker_step_def assms(2))
  show ?thesis
  proof (cases "r = Of_idle")
    case True
    then obtain x where "pc = P_run Of_idle a (Idle x)" using idle_entry pc(2) by blast
    then show ?thesis using t True by (intro advances_near) (simp_all add: assms(2) w')
  next
    case False
    then have "stage s' pc < 7" using pc(2) by (cases "(r, a, pc)" rule: pc_entry.cases) auto
    then show ?thesis using t False by (intro advances_less) (simp add: weight_def assms(2) w')
  qed
qed

lemma request_length: "length (s_tasks (do_request a q s)) \<le> Suc (length (s_tasks s))"
  by (cases q) (simp_all add: schedule_effect tasks_of_def Let_def)

lemma advances_request:
  assumes "wk_pc w = P_request r a q qs out" "r \<noteq> Of_idle" "worker_step une beh w s = Inr (w', s')"
  shows "advances w s w' s'"
proof -
  have "s' = do_request a q s" "wk_pc w' = requesting r a qs out" using assms(1,3) by (auto simp: worker_step_def)
  then show ?thesis using assms(1,2) request_length [of a q s]
    by (intro advances_less) (cases qs; simp add: weight_def)
qed

lemma advances_settle:
  assumes "worker_safe rest s w" "wk_pc w = P_settle r a" "worker_step une beh w s = Inr (w', s')"
  shows "advances w s w' s'"
proof -
  have "inside r a (\<lambda>f. fb_state f \<noteq> EXEC) s w" using assms by (simp add: worker_safe_def)
  then obtain f where f: "sget s a = Some f" by (auto simp: inside_def)
  have "settle r a w s = Inr (w', s')" using assms(3) by (simp add: worker_step_def assms(2))
  with counters_settle [OF this] have s': "s' = s" "settle r a w s = Inr (w', s)" by simp_all
  show ?thesis
  proof (cases "r = Of_idle")
    case True
    then show ?thesis using s' f by (intro advances_near) (auto simp: assms(2) settle_def Let_def split: if_split_asm)
  next
    case False
    then show ?thesis using s' f
      by (intro advances_less) (auto simp: assms(2) settle_def Let_def ready_def weight_def split: if_split_asm)
  qed
qed

lemma advances_close:
  assumes "worker_safe rest s w" "wk_pc w = P_close r a cl" "worker_step une beh w s = Inr (w', s')"
  shows "advances w s w' s'"
proof -
  have "inside r a (\<lambda>f. fb_state f \<noteq> EXEC \<and> closes r cl f) s w" using assms by (simp add: worker_safe_def)
  then obtain f where f: "sget s a = Some f" "closes r cl f" by (auto simp: inside_def)
  have step: "close r a cl w s = Inr (w', s')" using assms(3) by (simp add: worker_step_def assms(2))
  have pc: "wk_pc w' = P_scan" using counters_close [OF step] by simp
  have t: "length (s_tasks s') = length (s_tasks s) + of_bool (cl = Cl_schedule)" "cl \<noteq> Cl_schedule \<Longrightarrow> s_tasks s' = s_tasks s"
    using step same_tasks [OF assms(3)] by (cases cl; auto simp: assms(2) close_def Let_def schedule_effect tasks_of_def)+
  show ?thesis
  proof (cases "r = Of_idle")
    case True
    then show ?thesis using t f pc by (cases cl) (auto intro!: advances_near simp: assms(2))
  next
    case False
    then show ?thesis using t(1) pc by (intro advances_less) (simp add: weight_def assms(2))
  qed
qed

lemma advances_step:
  assumes "worker_safe rest s w" "pc_ok (wk_pc w)" "unpinned s" "worker_step une beh w s = Inr (w', s')"
    and "\<And>r a c. wk_pc w \<noteq> P_run r a (User c)"
  shows "advances w s w' s'"
proof (cases "wk_pc w")
  case P_start
  have "wk_pc w' = P_scan" using assms(4) by (auto simp: worker_step_def P_start split: prod.splits)
  then show ?thesis using same_tasks [OF assms(4)] by (intro advances_near) (simp_all add: P_start)
next
  case P_scan
  then show ?thesis by (rule advances_scan [OF assms(1) _ assms(3,4)])
next
  case (P_dispatch ft ia)
  then show ?thesis by (rule advances_dispatch [OF _ assms(2,4)])
next
  case P_drop
  then show ?thesis using assms(4) by (intro advances_less) (auto simp: worker_step_def weight_def)
next
  case (P_enter r a)
  then show ?thesis by (rule advances_enter [OF assms(1) _ assms(4)])
next
  case (P_run r a b)
  then obtain x where b: "b = Idle x" using assms(5) by (cases b) auto
  show ?thesis
  proof (cases "r = Of_idle")
    case True
    then show ?thesis using assms(4) same_tasks [OF assms(4)] b
      by (intro advances_near) (auto simp: worker_step_def P_run split: if_splits)
  next
    case False
    then show ?thesis using assms(4) b by (intro advances_less) (auto simp: worker_step_def P_run weight_def split: if_splits)
  qed
next
  case (P_request r a q qs out)
  then have "r \<noteq> Of_idle" using assms(1) by (simp add: worker_safe_def)
  then show ?thesis by (rule advances_request [OF P_request _ assms(4)])
next
  case (P_yield r a out)
  then have "wk_pc w' = P_save r a out" "s_tasks s' = s_tasks s" using assms(4) same_tasks [OF assms(4)] by (auto simp: worker_step_def)
  then show ?thesis by (cases "r = Of_idle") (auto intro: advances_near advances_less simp: P_yield weight_def)
next
  case (P_save r a out)
  then have i: "inside r a (\<lambda>f. yielded out (fb_state f)) s w" using assms(1) by (simp add: worker_safe_def)
  then obtain f where f: "sget s a = Some f" "yielded out (fb_state f)" by (auto simp: inside_def)
  obtain g where g: "s' = sset a g s" "fb_state g = fb_state f" "w' = goto (P_after r a) w"
    using assms(4) save_ctx_sset [of a out s] f(1) by (auto simp: worker_step_def P_save)
  have "ready s' a = goes_on out"
    using f g by (cases "(out, fb_state f)" rule: yielded.cases) (auto simp: ready_def)
  then show ?thesis using g by (cases "r = Of_idle") (auto intro: advances_near advances_less simp: P_save weight_def)
next
  case (P_after r a)
  then have s': "wk_pc w' = P_settle r a" "s_tasks s' = s_tasks s" "ready s' a = ready s a"
    using assms(4) by (auto simp: worker_step_def after_swap_def ready_def split: if_splits)
  then show ?thesis by (cases "r = Of_idle") (auto intro: advances_near advances_less simp: P_after weight_def)
next
  case (P_settle r a)
  then show ?thesis by (rule advances_settle [OF assms(1) _ assms(4)])
next
  case (P_close r a cl)
  then show ?thesis by (rule advances_close [OF assms(1) _ assms(4)])
next
  case P_done
  then show ?thesis using assms(4) by (auto simp: worker_step_def advances_def past_def)
qed

section \<open>All the workers\<close>

text \<open>The work left: the runs of pieces, and the weights.\<close>

definition total :: "('c, 'u) sched_sys \<Rightarrow> nat" where
  "total y = 9 * length (s_tasks (y_sched y)) + (\<Sum>w\<leftarrow>y_workers y. stage (y_sched y) (wk_pc w))"

definition work :: "('c, 'u) behaviour \<Rightarrow> ('c, 'u) sched_sys \<Rightarrow> nat \<times> nat" where
  "work beh y = (runs_left beh (sys_bag y), total y)"

lemma stage_frame:
  assumes "pc_safe (wk_pc w) s w" "\<forall>a\<in>set (holds w). sget s' a = sget s a"
  shows "stage s' (wk_pc w) = stage s (wk_pc w)"
proof -
  have "ready s' a = ready s a" if "pc_in (wk_pc w) = Some (r, a)" "inside r a P s w" for r a P
  proof -
    have "a \<in> set (holds w)" using that task_fiber_in [OF that(1)]
      by (cases r; cases "wk_pc w") (auto simp: holds_iff inside_def)
    then show ?thesis using assms(2) by (simp add: ready_def)
  qed
  then show ?thesis using assms(1) by (cases "wk_pc w") simp_all
qed

lemma total_worker:
  assumes "i < length (y_workers y)"
    and "\<And>v. v \<in> set (others (y_workers y) i) \<Longrightarrow> pc_safe (wk_pc v) (y_sched y) v"
    and "\<And>v. v \<in> set (others (y_workers y) i) \<Longrightarrow> \<forall>a\<in>set (holds v). sget s' a = sget (y_sched y) a"
  obtains m where "total y = weight (y_sched y) (wk_pc (y_workers y ! i)) + m"
    "total (y\<lparr>y_sched := s', y_workers := (y_workers y)[i := w']\<rparr>) = weight s' (wk_pc w') + m"
proof (rule that)
  let ?m = "\<lambda>s. \<Sum>v\<leftarrow>others (y_workers y) i. stage s (wk_pc v)"
  show "total y = weight (y_sched y) (wk_pc (y_workers y ! i)) + ?m (y_sched y)"
    using arg_cong [OF id_take_nth_drop [OF assms(1)], of "\<lambda>ws. \<Sum>w\<leftarrow>ws. stage (y_sched y) (wk_pc w)"]
    by (simp add: total_def weight_def others_def)
  have "?m s' = ?m (y_sched y)"
    by (rule arg_cong [where f = sum_list], rule map_cong [OF refl]) (rule stage_frame [OF assms(2,3)])
  then show "total (y\<lparr>y_sched := s', y_workers := (y_workers y)[i := w']\<rparr>) = weight s' (wk_pc w') + ?m (y_sched y)"
    using assms(1) by (simp add: total_def weight_def others_def upd_conv_take_nth_drop)
qed

text \<open>A worker that helps: it has a task or a fiber to see to, or nobody has one and it will look at the queue.\<close>

definition helps :: "('c, 'u) sched_sys \<Rightarrow> nat \<Rightarrow> bool" where
  "helps y i \<longleftrightarrow> i < length (y_workers y) \<and> (busy (wk_pc (y_workers y ! i)) \<or>
     (\<forall>w\<in>set (y_workers y). \<not> busy (wk_pc w)) \<and> s_tasks (y_sched y) \<noteq> [] \<and> \<not> past (y_sched y) (y_workers y ! i))"

definition helper :: "('c, 'u) sched_sys \<Rightarrow> nat" where
  "helper y = (LEAST i. helps y i)"

definition nearness :: "('c, 'u) sched_sys \<Rightarrow> nat" where
  "nearness y = to_scan (wk_pc (y_workers y ! helper y))"

definition over :: "('c, 'u) sched_sys \<Rightarrow> bool" where
  "over y \<longleftrightarrow> stopping (y_sched y) \<and> (\<forall>w\<in>set (y_workers y). \<not> unsettled (wk_pc w))"

definition fair_inv :: "('c, 'u) behaviour \<Rightarrow> nat \<Rightarrow> ('c, 'u) sched_sys \<Rightarrow> bool" where
  "fair_inv beh n y \<longleftrightarrow> draining y \<and> length (y_workers y) = n \<and> n < 2 ^ 64 \<and> (\<exists>m. ends_within beh m (sys_bag y))"

lemma some_helper:
  assumes "fair_inv beh n y" "\<not> over y"
  shows "helps y (helper y)" "helper y < n"
proof -
  have inv: "counters_inv y" "length (y_workers y) < 2 ^ 64" "flags (y_sched y) = (True, True)" "attended y" "length (y_workers y) = n"
    using assms(1) by (simp_all add: fair_inv_def draining_def)
  have "\<exists>i. helps y i"
  proof (cases "\<exists>w\<in>set (y_workers y). busy (wk_pc w)")
    case True
    then show ?thesis by (auto simp: helps_def in_set_conv_nth)
  next
    case False
    then have "s_active (y_sched y) = 0" using counters_quiet(3) [OF inv(1,2)] by (auto simp: busy_def)
    then have q: "s_tasks (y_sched y) \<noteq> []" using assms(2) inv(3) False by (auto simp: over_def busy_def stopping_def flags_def)
    then show ?thesis using inv(4) False by (auto simp: helps_def attended_def in_set_conv_nth)
  qed
  then show "helps y (helper y)" unfolding helper_def by (rule LeastI_ex)
  then show "helper y < n" using inv(5) by (simp add: helps_def)
qed

text \<open>Who helps does not change when nobody gets a task or gives one back.\<close>

lemma helps_same:
  assumes "i < length (y_workers y)" "s_tasks s' = s_tasks (y_sched y)" "\<not> busy (wk_pc (y_workers y ! i))" "\<not> busy (wk_pc w')"
    and "s_tasks (y_sched y) \<noteq> [] \<Longrightarrow> past s' w' = past (y_sched y) (y_workers y ! i)"
    and "\<And>v. v \<in> set (others (y_workers y) i) \<Longrightarrow> past s' v = past (y_sched y) v"
  shows "helps (y\<lparr>y_sched := s', y_workers := (y_workers y)[i := w']\<rparr>) = helps y"
proof
  fix j
  let ?y = "y\<lparr>y_sched := s', y_workers := (y_workers y)[i := w']\<rparr>"
  have b: "busy (wk_pc (y_workers ?y ! k)) = busy (wk_pc (y_workers y ! k))" if "k < length (y_workers y)" for k
    using assms(1,3,4) that by (cases "k = i") simp_all
  have p: "past s' (y_workers ?y ! k) = past (y_sched y) (y_workers y ! k)"
    if "k < length (y_workers y)" "s_tasks (y_sched y) \<noteq> []" for k
    using assms(1,5,6) that nth_others [OF that(1)] by (cases "k = i") simp_all
  have "(\<forall>w\<in>set (y_workers ?y). \<not> busy (wk_pc w)) = (\<forall>w\<in>set (y_workers y). \<not> busy (wk_pc w))"
    using b by (simp add: all_set_conv_all_nth)
  then show "helps ?y j = helps y j" using b [of j] p [of j] assms(2) by (auto simp: helps_def)
qed

lemma fair_progress:
  assumes "fair_inv beh n y" "\<not> over y" "calm_code beh" "unpinned_code beh"
  shows "\<exists>y'. sys_step une beh (Ev_step i) y = Inr y' \<and> fair_inv beh n y' \<and>
    ((work beh y', work beh y) \<in> less_than <*lex*> less_than \<or>
     work beh y' = work beh y \<and> helper y' = helper y \<and> nearness y' + of_bool (i = helper y) \<le> nearness y)"
proof (cases "i < length (y_workers y)")
  case True
  let ?s = "y_sched y" and ?w = "y_workers y ! i"
  have inv: "draining y" "sys_safe y" "counters_inv y" "unpinned ?s" "length (y_workers y) = n" "n < 2 ^ 64"
    using assms(1) by (auto simp: fair_inv_def draining_def unpinned_sys_def)
  obtain m where m: "ends_within beh m (sys_bag y)" using assms(1) by (auto simp: fair_inv_def)
  note safe = sys_worker [OF inv(2) True]
  have w: "pc_ok (wk_pc ?w)" using inv(3) True by (simp add: counters_inv_def)
  from sys_step_worker [OF inv(2) True assms(3), of une] obtain w' s' where
    st: "worker_step une beh ?w ?s = Inr (w', s')"
      "sys_step une beh (Ev_step i) y = Inr (y\<lparr>y_sched := s', y_workers := (y_workers y)[i := w']\<rparr>)"
      "\<And>v. v \<in> set (others (y_workers y) i) \<Longrightarrow> \<forall>a\<in>set (holds v). sget s' a = sget ?s a" by blast
  define y' where "y' = y\<lparr>y_sched := s', y_workers := (y_workers y)[i := w']\<rparr>"
  note step = st(2) [folded y'_def]
  have "draining y'" using draining_step [OF inv(1) assms(3,4), of une "Inl i"] step by simp
  then have inv': "fair_inv beh n y'" if "\<exists>m. ends_within beh m (sys_bag y')"
    using that inv(5,6) by (simp add: fair_inv_def) (simp add: y'_def)
  obtain k where k: "total y = weight ?s (wk_pc ?w) + k" "total y' = weight s' (wk_pc w') + k"
    unfolding y'_def by (rule total_worker [OF True safe(2) st(3)])
  show ?thesis
  proof (cases "\<exists>r a c. wk_pc ?w = P_run r a (User c)")
    case run: True
    then obtain r a c where pc: "wk_pc ?w = P_run r a (User c)" by blast
    obtain reqs out u where b: "beh c (s_user ?s) = (reqs, out, u)" by (cases "beh c (s_user ?s)")
    have s: "c \<in># sys_bag y" "sys_bag y' = sys_bag y - {#c#} + left_by reqs out" unfolding y'_def
      by (rule sys_step_runs [OF inv(2) True assms(3) st(1) _ pc b]; use st(3) in blast)+
    note left = run_left [OF m s(1) b, folded s(2)]
    then show ?thesis using step inv' by (auto simp: work_def)
  next
    case False
    have same: "sys_bag y' = sys_bag y" unfolding y'_def
      by (rule sys_step_keeps [OF inv(2) True assms(3) st(1,3)]) (use False in auto)
    have i': "fair_inv beh n y'" by (rule inv') (use m same in auto)
    have runs: "fst (work beh y') = fst (work beh y)" using same by (simp add: work_def)
    have "advances ?w ?s w' s'" by (rule advances_step [OF safe(1) w inv(4) st(1)]) (use False in auto)
    then consider (less) "weight s' (wk_pc w') < weight ?s (wk_pc ?w)"
      | (same) "weight s' (wk_pc w') = weight ?s (wk_pc ?w)" "s_tasks s' = s_tasks ?s" "\<not> busy (wk_pc ?w)" "\<not> busy (wk_pc w')"
        "past ?s ?w \<and> past s' w' \<or> (if wk_pc ?w = P_scan then s_tasks ?s = [] else to_scan (wk_pc w') < to_scan (wk_pc ?w))"
      unfolding advances_def by blast
    then show ?thesis
    proof cases
      case less
      then have "(work beh y', work beh y) \<in> less_than <*lex*> less_than" using runs k by (simp add: work_def)
      then show ?thesis using step i' by blast
    next
      case (same)
      have "past s' w' = past ?s ?w" if "s_tasks ?s \<noteq> []"
      proof
        assume "past s' w'"
        then show "past ?s ?w" using past_step(2) [OF safe(1) inv(4) st(1)] that by blast
      next
        assume "past ?s ?w"
        from past_stays [OF w this st(1)] show "past s' w'" by (simp add: past_def)
      qed
      then have "helps y' = helps y" unfolding y'_def
        by (intro helps_same [OF True same(2-4)]) (use past_frame [OF st(3)] in auto)
      then have h: "helper y' = helper y" by (simp add: helper_def)
      have "nearness y' + of_bool (i = helper y) \<le> nearness y"
      proof (cases "i = helper y")
        case True
        then have "helps y i" using some_helper(1) [OF assms(1,2)] by simp
        then have "s_tasks ?s \<noteq> []" "\<not> past ?s ?w" using same(3) by (auto simp: helps_def)
        then have "to_scan (wk_pc w') < to_scan (wk_pc ?w)" using same(5) by (auto split: if_splits)
        then show ?thesis using True \<open>i < _\<close> by (simp add: nearness_def h) (simp add: y'_def)
      next
        case False
        then have "y_workers y' ! helper y = y_workers y ! helper y" by (simp add: y'_def)
        then show ?thesis using False by (simp add: nearness_def h)
      qed
      then show ?thesis using step i' h runs k same(1) by (auto simp: work_def)
    qed
  qed
next
  case False
  then have "i \<noteq> helper y" using some_helper(2) [OF assms(1,2)] assms(1) by (auto simp: fair_inv_def)
  then show ?thesis using assms(1) False by (simp add: sys_step_def)
qed

lemma fair_user:
  assumes "fair_inv beh n y" "calm_code beh" "unpinned_code beh"
  shows "\<exists>y'. sys_step une beh (Ev_user u) y = Inr y' \<and> fair_inv beh n y' \<and>
    work beh y' = work beh y \<and> helper y' = helper y \<and> nearness y' = nearness y"
proof -
  let ?y = "y\<lparr>y_sched := (y_sched y)\<lparr>s_user := u\<rparr>\<rparr>"
  have step: "sys_step une beh (Ev_user u) y = Inr ?y" by (simp add: sys_step_def)
  have b: "sys_bag ?y = sys_bag y" by (rule sys_bag_flags) simp_all
  have d: "draining ?y" using draining_step [OF _ assms(2,3), of y une "Inr u"] assms(1) step by (simp add: fair_inv_def)
  have "stage (y_sched ?y) pc = stage (y_sched y) pc" for pc by (cases pc) (simp_all add: ready_def)
  then have "work beh ?y = work beh y" using b by (simp add: work_def total_def)
  moreover have "helps ?y = helps y" by (auto simp: helps_def past_def idle_over_def fun_eq_iff)
  then have "helper ?y = helper y" by (simp add: helper_def)
  ultimately show ?thesis using step d b assms(1) by (simp add: fair_inv_def nearness_def)
qed

lemma fair_event:
  assumes "fair_inv beh n y" "\<not> over y" "calm_code beh" "unpinned_code beh"
  shows "\<exists>y'. sys_step une beh (after_stop e) y = Inr y' \<and> fair_inv beh n y' \<and>
    ((work beh y', work beh y) \<in> less_than <*lex*> less_than \<or>
     work beh y' = work beh y \<and> helper y' = helper y \<and> nearness y' + of_bool (e = Inl (helper y)) \<le> nearness y)"
proof (cases e)
  case (Inl i)
  then show ?thesis using fair_progress [OF assms, of une i] by simp
next
  case (Inr u)
  then show ?thesis using fair_user [OF assms(1,3,4), of une u] by auto
qed

interpretation fair: fair_steps "\<lambda>e. sys_step une beh (after_stop e)" "\<lambda>y. calm_code beh \<and> unpinned_code beh \<and> fair_inv beh n y"
  over "work beh" "\<lambda>y. Inl (helper y)" nearness for une beh n
  by unfold_locales (use fair_event in blast)

section \<open>Fair schedules\<close>

text \<open>Each of the \<open>n\<close> workers makes infinitely many steps; in between the data may change.\<close>

definition fair_schedule :: "nat \<Rightarrow> (nat \<Rightarrow> nat + 'u) \<Rightarrow> bool" where
  "fair_schedule n f \<longleftrightarrow> (\<forall>i<n. \<forall>k. \<exists>m\<ge>k. f m = Inl i)"

lemma count_mono: "m \<le> n \<Longrightarrow> count_list (map f [k..<m]) i \<le> count_list (map f [k..<n]) i"
proof (induction n)
  case (Suc n)
  then show ?case by (cases "m = Suc n"; cases "k \<le> n") auto
qed simp

lemma fair_count:
  assumes "\<forall>k. \<exists>m\<ge>k. f m = i"
  shows "\<exists>n\<ge>k. j \<le> count_list (map f [k..<n]) i"
proof (induction j)
  case (Suc j)
  then obtain n where n: "k \<le> n" "j \<le> count_list (map f [k..<n]) i" by blast
  obtain m where m: "n \<le> m" "f m = i" using assms by blast
  have "Suc j \<le> count_list (map f [k..<Suc m]) i" using n m count_mono [OF m(1), of f k i] by simp
  then show ?case using n(1) m(1) by (meson le_SucI le_trans)
qed auto

lemma fair_counts:
  assumes "fair_schedule n f"
  shows "\<exists>m\<ge>k. \<forall>i<n. j \<le> count_list (map f [k..<m]) (Inl i)"
  using assms
proof (induction n)
  case (Suc n)
  then obtain m where m: "k \<le> m" "\<forall>i<n. j \<le> count_list (map f [k..<m]) (Inl i)" by (auto simp: fair_schedule_def)
  obtain m' where m': "k \<le> m'" "j \<le> count_list (map f [k..<m']) (Inl n)"
    using fair_count [of f "Inl n" k j] Suc.prems by (auto simp: fair_schedule_def)
  have "\<forall>i<Suc n. j \<le> count_list (map f [k..<max m m']) (Inl i)"
    using m m' count_mono [of m "max m m'" f k] count_mono [of m' "max m m'" f k] by (metis less_antisym le_trans max.cobounded1 max.cobounded2)
  then show ?case using m(1) by (intro exI [of _ "max m m'"]) simp
qed auto


text \<open>Two workers that take turns: a callback schedules another one and yields.\<close>

definition two_events :: "(nat, nat list) event list" where
  "two_events = [Ev_thread 11, Ev_thread 12, Ev_started, Ev_schedule (Cb (Some 0)) (- 1)]"

lemma two_run:
  "\<exists>y. run_events True relay_beh two_events (sched_start ''s'' []) = Inr y \<and> length (y_workers y) = 2 \<and> sys_bag y = {#0#}"
  by (simp add: run_events_def two_events_def sched_start_def sched_defs sys_bag_def tasks_bag_def task_bag_def opt_code_def)

definition turns :: "nat \<Rightarrow> nat + nat list" where
  "turns n = (if n mod 3 = 2 then Inr [n] else Inl (n mod 3))"

lemma turns_fair: "fair_schedule 2 turns"
  unfolding fair_schedule_def
proof (intro allI impI)
  fix i k :: nat
  assume "i < 2"
  then show "\<exists>m\<ge>k. turns m = Inl i" by (intro exI [of _ "3 * k + i"]) (simp add: turns_def)
qed

lemma relay_ends: "ends_within relay_beh 3 {#0#}"
  by (simp add: numeral_3_eq_3 relay_beh_def left_by_def)


end
