(* ===== verification/SchedulerFibers.thy ===== *)
theory SchedulerFibers
  imports SchedulerFifo
begin

text \<open>
  The scheduler treats a switch to a fiber and back as steps on the fiber's record: its state
  becomes \<open>EXEC\<close>, its code runs and schedules what it does, its new state is set and its
  context stored.  Here these
  steps are shown to be what the machine of fibers and contexts does on the worker's thread.
\<close>

section \<open>The two views of the heap\<close>

text \<open>The thread's main fiber \<open>m\<close> belongs to the machine only; the scheduler's view leaves it out.\<close>

definition same_view :: "addr \<Rightarrow> 'c body fibers \<Rightarrow> ('c, 'u) sched \<Rightarrow> bool" where
  "same_view m st s \<longleftrightarrow> (\<forall>b. b \<noteq> m \<longrightarrow> fget st b = sget s b)"

text \<open>Fibers of the scheduler are entered by \<open>MainFunc\<close>.\<close>

definition worker_fiber :: "addr \<Rightarrow> 'c body fiber \<Rightarrow> bool" where
  "worker_fiber a f \<longleftrightarrow> (\<forall>e. fb_ctx f = Ctx_entry e \<longrightarrow> e = MainFunc) \<and>
     (\<forall>fr b. fb_ctx f = Ctx_user fr b \<longrightarrow> fr = Body MainFunc a)"

lemma fget_ran:
  assumes "fget st a = Some f" "fget st m = Some g" "a \<noteq> m"
  shows "fget (ran m a here out lines st) b =
    (if b = m then Some (g\<lparr>fb_ctx := here\<rparr>) else if b = a then Some (after_run a out f) else fget st b)"
  using assms by (simp add: ran_def)

lemma ran_pointers:
  assumes "fget st a = Some f" "fget st m = Some g"
  shows "f_this (ran m a here out lines st) = Some m" "f_main (ran m a here out lines st) = f_main st"
  using assms by (simp_all add: ran_def)

lemma sswapIn_run:
  assumes "sswapIn r a s = Inr (P_run r a b, s1)"
  shows "\<exists>f. sget s a = Some f \<and> fb_state f \<noteq> EXEC \<and> s1 = sset a (f\<lparr>fb_state := EXEC\<rparr>) s \<and>
    (worker_fiber a f \<longrightarrow> next_code a f b)"
  using assms
  by (auto simp: sswapIn_def sresume_def worker_fiber_def next_code_def elim!: inversion dest!: check_InrD
      split: ctx.splits option.splits)

lemma suspended:
  assumes "sget s a = Some (f\<lparr>fb_state := EXEC\<rparr>)" "set_yield a out s = Inr s3" "save_ctx a out s3 = Inr s4"
  shows "sget s4 b = (if b = a then Some (after_run a out f) else sget s b)"
  using assms by (cases "(a, out, f)" rule: after_run.cases) (auto simp: set_yield_def save_ctx_def)

section \<open>Refinement\<close>

text \<open>C12. The scheduler's view of a fiber is the fiber component's. Whenever the scheduler's host fiber swaps in a worker
  fiber, whose code then runs to its next yield or its end and makes its calls of \<open>schedule\<close>, the detailed fiber machine (contexts, thread-local
  pointers and one call of the code per step) reaches the state that the scheduler's account of that run
  describes, back in the host fiber.
\<close>

theorem worker_run_refines:
  assumes "os_swapcontext os = 0" "f_main st = Some m" "fget st m = Some g" "a \<noteq> m" "same_view m st s"
    and "\<forall>f. sget s a = Some f \<longrightarrow> worker_fiber a f"
    and "sswapIn r a s = Inr (P_run r a b, s1)" "run_body beh b s1 = (reqs, out, s2)"
    and "set_yield a out (fold (do_request a) reqs s2) = Inr s3" "save_ctx a out s3 = Inr s4"
    and "burst n code b x = Some (out, x')" "code c0 = Op_swapIn a k"
  shows "\<exists>st'. machine_reach os code \<lparr>m_fibers = st, m_control = At_user Host c0, m_ext = x\<rparr>
       (Inr \<lparr>m_fibers = st', m_control = At_user Host k, m_ext = x'\<rparr>) \<and>
     same_view m st' s4 \<and> f_this st' = Some m \<and> f_main st' = Some m"
proof -
  obtain f where f: "sget s a = Some f" "fb_state f \<noteq> EXEC" "s1 = sset a (f\<lparr>fb_state := EXEC\<rparr>) s" "next_code a f b"
    using sswapIn_run [OF assms(7)] assms(6) by blast
  have fa: "fget st a = Some f" using assms(4,5) f(1) by (simp add: same_view_def)
  obtain lines where reach: "machine_reach os code \<lparr>m_fibers = st, m_control = At_user Host c0, m_ext = x\<rparr>
     (Inr \<lparr>m_fibers = ran m a (Ctx_user Host k) out lines st, m_control = At_user Host k, m_ext = x'\<rparr>)"
    using swapIn_runs [OF assms(1,2) fa assms(3,4) f(2,4) assms(11,12)] by blast
  let ?s2 = "fold (do_request a) reqs s2"
  have s2: "sget ?s2 = sget s1" by (rule run_body_heap(2) [OF assms(8)])
  have "sget ?s2 a = Some (f\<lparr>fb_state := EXEC\<rparr>)" using f(1) by (simp add: s2 f(3))
  from suspended [OF this assms(9,10)] have "sget s4 b = (if b = a then Some (after_run a out f) else sget s b)" for b
    using f(1) by (simp add: s2 f(3))
  then have "same_view m (ran m a (Ctx_user Host k) out lines st) s4"
    using assms(5) fget_ran [OF fa assms(3,4)] by (simp add: same_view_def)
  then show ?thesis
    by (intro exI [of _ "FiberInvariants.ran m a (Ctx_user Host k) out lines st"])
      (simp add: reach ran_pointers [OF fa assms(3)] assms(2))
qed

text \<open>A worker's fiber that counts in the state of the machine and yields.\<close>

definition demo_step :: "nat body \<Rightarrow> (nat body, nat) fiber_op" where
  "demo_step b = (case b of
     User 0 \<Rightarrow> Op_ext (\<lambda>x. (User 1, x + 1)) | User (Suc 0) \<Rightarrow> Op_yieldHold (User 2)
   | Idle _ \<Rightarrow> Op_swapIn 1 (User 9) | _ \<Rightarrow> Op_return)"

definition demo_body :: "nat body fiber" where
  "demo_body = \<lparr>fb_id = 0, fb_stacksize = 0, fb_state = INIT, fb_ctx = Ctx_entry MainFunc, fb_stack = True, fb_cb = Some (User 0)\<rparr>"

definition demo_host :: "nat body fiber" where
  "demo_host = \<lparr>fb_id = 0, fb_stacksize = 0, fb_state = EXEC, fb_ctx = Ctx_unset, fb_stack = False, fb_cb = None\<rparr>"

definition demo_sched :: "(nat, unit) sched" where
  "demo_sched = (y_sched (sched_start ''s'' ()))\<lparr>s_heap := [None, Some demo_body]\<rparr>"

definition demo_view :: "nat body fibers" where
  "demo_view = \<lparr>f_heap = [Some demo_host, Some demo_body], f_next_id = 0, f_count = 2, f_this = Some 0, f_thread = Some 0,
     f_main = Some 0, f_stack_cfg = 0, f_log = []\<rparr>"

theorem worker_run_refines_witness:
  "\<exists>st'. machine_reach demo_os demo_step \<lparr>m_fibers = demo_view, m_control = At_user Host (Idle True), m_ext = 5\<rparr>
     (Inr \<lparr>m_fibers = st', m_control = At_user Host (User 9), m_ext = 6\<rparr>) \<and> map_option fb_state (fget st' 1) = Some HOLD"
proof -
  let ?s1 = "sset 1 (demo_body\<lparr>fb_state := EXEC\<rparr>) demo_sched" and ?beh = "\<lambda>c u. ([], Yields HOLD 2, u) :: nat request list \<times> nat outcome \<times> unit"
  have g: "sget demo_sched 1 = Some demo_body" by (simp add: sget_def demo_sched_def hget_def)
  have v: "same_view 0 demo_view demo_sched"
    by (auto simp: same_view_def sget_def fget_def demo_sched_def demo_view_def hget_def less_Suc_eq split: option.splits)
  have h: "f_main demo_view = Some 0" "fget demo_view 0 = Some demo_host" by (simp_all add: demo_view_def fget_def hget_def)
  have 1: "sswapIn Of_task 1 demo_sched = Inr (P_run Of_task 1 (User 0), ?s1)"
    using g by (simp add: sswapIn_def sresume_def demo_body_def)
  have 2: "run_body ?beh (User 0) ?s1 = ([], Yields HOLD (User 2), ?s1)" by (simp add: lift_outcome_def)
  have 3: "set_yield 1 (Yields HOLD (User 2)) (fold (do_request 1) [] ?s1) = Inr (sset 1 (demo_body\<lparr>fb_state := HOLD\<rparr>) demo_sched)"
    "save_ctx 1 (Yields HOLD (User 2)) (sset 1 (demo_body\<lparr>fb_state := HOLD\<rparr>) demo_sched) =
      Inr (sset 1 (demo_body\<lparr>fb_state := HOLD, fb_ctx := Ctx_user (Body MainFunc 1) (User 2)\<rparr>) demo_sched)" (is "_ = Inr ?s4")
    using g by (simp_all add: set_yield_def save_ctx_def)
  have w: "\<forall>f. sget demo_sched 1 = Some f \<longrightarrow> worker_fiber 1 f" using g by (simp add: worker_fiber_def demo_body_def)
  have b: "burst 2 demo_step (User 0) 5 = Some (Yields HOLD (User 2), 6)" by (simp add: numeral_2_eq_2 demo_step_def)
  have c: "demo_step (Idle True) = Op_swapIn 1 (User 9)" by (simp add: demo_step_def)
  obtain st' where st': "machine_reach demo_os demo_step \<lparr>m_fibers = demo_view, m_control = At_user Host (Idle True), m_ext = 5\<rparr>
     (Inr \<lparr>m_fibers = st', m_control = At_user Host (User 9), m_ext = 6\<rparr>)" "same_view 0 st' ?s4"
    using worker_run_refines [OF demo_os_simps(1) h _ v w 1 2 3 b c] by auto
  have "fget st' 1 = sget ?s4 1" using st'(2) by (simp add: same_view_def)
  then show ?thesis using st'(1) g by (intro exI [of _ st']) simp
qed

end
